theory Spec2Isabelle
  imports Complex_Main "HOL-Library.Product_Lexorder"
begin

section \<open>Vectors and neighbor bonds (NeighborBond.h)\<close>

text \<open>
  A C++ \<^verbatim>\<open>float\<close> that is not a NaN is read as the real number it denotes; the comparisons
  \<^verbatim>\<open><\<close>, \<^verbatim>\<open>==\<close> and \<^verbatim>\<open>!=\<close> of the source are exact on such values, so they are the
  comparisons of \<^typ>\<open>real\<close>. An \<^verbatim>\<open>unsigned int\<close> index is a natural number; the code
  below only compares indices.
\<close>

datatype 'a vec3 = Vec3 (vx: 'a) (vy: 'a) (vz: 'a)

record NeighborBond =
  query_point_idx :: nat
  point_idx :: nat
  distance :: real
  weight :: real
  vector :: "real vec3"



text \<open>\<^verbatim>\<open>operator<\<close>\<close>

definition bond_less :: "NeighborBond \<Rightarrow> NeighborBond \<Rightarrow> bool" where
  "bond_less a n \<longleftrightarrow> distance a < distance n"


definition less_as_tuple :: "NeighborBond \<Rightarrow> NeighborBond \<Rightarrow> bool" where
  "less_as_tuple a n =
     (if query_point_idx a \<noteq> query_point_idx n then query_point_idx a < query_point_idx n
      else if point_idx a \<noteq> point_idx n then point_idx a < point_idx n
      else if weight a \<noteq> weight n then weight a < weight n
      else distance a < distance n)"


text \<open>
  What a comparator must be for \<^verbatim>\<open>std::sort\<close>: irreflexive, transitive, and with a
  transitive incomparability relation.
\<close>

definition strict_weak_order :: "('a \<Rightarrow> 'a \<Rightarrow> bool) \<Rightarrow> bool" where
  "strict_weak_order lt \<longleftrightarrow>
     (\<forall>a. \<not> lt a a)
     \<and> (\<forall>a b c. lt a b \<longrightarrow> lt b c \<longrightarrow> lt a c)
     \<and> (\<forall>a b c. \<not> lt a b \<and> \<not> lt b a \<longrightarrow> \<not> lt b c \<and> \<not> lt c b \<longrightarrow> \<not> lt a c \<and> \<not> lt c a)"

text \<open>The key that \<^verbatim>\<open>less_as_tuple\<close> compares.\<close>

definition as_tuple :: "NeighborBond \<Rightarrow> nat \<times> nat \<times> real \<times> real" where
  "as_tuple a = (query_point_idx a, point_idx a, weight a, distance a)"

text \<open>Three bonds used to exercise the comparators.\<close>

definition bond_A :: NeighborBond where
  "bond_A = \<lparr>query_point_idx = 0, point_idx = 1, distance = 1, weight = 1, vector = Vec3 1 0 0\<rparr>"

definition bond_B :: NeighborBond where
  "bond_B = \<lparr>query_point_idx = 0, point_idx = 1, distance = 1, weight = 2, vector = Vec3 1 0 0\<rparr>"

definition bond_C :: NeighborBond where
  "bond_C = \<lparr>query_point_idx = 0, point_idx = 2, distance = 3, weight = 1, vector = Vec3 0 3 0\<rparr>"

section \<open>Building the cell list (LinkCell.cc)\<close>

text \<open>
  Modelled from the spec: the class \<^verbatim>\<open>box::Box\<close> (Box.h is not among the sources). The spec
  gives it lengths along three axes, three tilt factors and a 2D/3D flag; \<^verbatim>\<open>box != m_box\<close>
  is inequality of these values, \<^verbatim>\<open>box::Box()\<close> is the null box and \<^verbatim>\<open>is2D()\<close> reads the flag.
  \<^verbatim>\<open>getNearestPlaneDistance\<close> is not modelled: every function that calls it takes it as
  its first argument, so the results hold for whatever it computes.
\<close>

record Box =
  m_L :: "real vec3"
  m_xy :: real
  m_xz :: real
  m_yz :: real
  m_2d :: bool

definition null_Box :: Box where
  "null_Box = \<lparr>m_L = Vec3 0 0 0, m_xy = 0, m_xz = 0, m_yz = 0, m_2d = False\<rparr>"

definition is2D :: "Box \<Rightarrow> bool" where
  "is2D box = m_2d box"

text \<open>
  Modelled from the spec: \<^verbatim>\<open>Index3D\<close> (not among the sources), the grid dimension vector
  (nx, ny, nz) with nx*ny*nz elements.
\<close>

record Index3D =
  m_w :: nat
  m_h :: nat
  m_d :: nat

definition mk_Index3D :: "nat \<Rightarrow> nat \<Rightarrow> nat \<Rightarrow> Index3D" where
  "mk_Index3D w h d = \<lparr>m_w = w, m_h = h, m_d = d\<rparr>"

definition getNumElements :: "Index3D \<Rightarrow> nat" where
  "getNumElements ix = m_w ix * m_h ix * m_d ix"

text \<open>
  The errors of the engine. The source throws \<^verbatim>\<open>runtime_error\<close> with a message; each
  message is one constructor: "Cannot generate a cell list where cell_width is larger than
  half the box." is \<open>InvalidCellWidth\<close>, "At least one cell must be present." is \<open>NoCell\<close>,
  "Cannot generate a cell list of 0 particles." is \<open>EmptyPointSet\<close>, "Invalid query mode
  provided to generic query function." is \<open>InvalidQueryMode\<close>. \<open>InvalidQueryArgs\<close> stands for
  whatever \<^verbatim>\<open>validateQueryArgs\<close> throws, and \<open>OutOfRange\<close> for a read or write outside an
  array, which the C++ leaves undefined.
\<close>

datatype error = InvalidCellWidth | NoCell | EmptyPointSet | InvalidQueryMode
  | InvalidQueryArgs | OutOfRange

text \<open>The members of \<^verbatim>\<open>LinkCell\<close> (with the points kept by its base class).\<close>

record LinkCell =
  m_box :: Box
  m_points :: "real vec3 list"
  m_n_points :: nat
  m_cell_width :: real
  m_celldim :: "nat vec3"
  m_cell_index :: Index3D
  m_cell_list :: "nat list"
  m_Nc :: nat

text \<open>
  The conversion \<^verbatim>\<open>(unsigned int) x\<close> of a float truncates towards zero; the quotient is
  taken in the reals.
\<close>

definition to_uint :: "real \<Rightarrow> nat" where
  "to_uint x = nat \<lfloor>x\<rfloor>"

definition computeDimensions :: "(Box \<Rightarrow> real vec3) \<Rightarrow> Box \<Rightarrow> real \<Rightarrow> nat vec3" where
  "computeDimensions getNearestPlaneDistance box cell_width =
     (let L = getNearestPlaneDistance box;
          dx = to_uint (vx L / cell_width);
          dy = to_uint (vy L / cell_width);
          dz = (if is2D box then 1 else to_uint (vz L / cell_width))
      in Vec3 (if dx = 0 then 1 else dx) (if dy = 0 then 1 else dy) (if dz = 0 then 1 else dz))"

definition updateInternal ::
  "(Box \<Rightarrow> real vec3) \<Rightarrow> Box \<Rightarrow> real \<Rightarrow> LinkCell \<Rightarrow> error + LinkCell" where
  "updateInternal getNearestPlaneDistance box cell_width lc =
     (if cell_width \<noteq> m_cell_width lc \<or> box \<noteq> m_box lc then
        let celldim = computeDimensions getNearestPlaneDistance box cell_width;
            nearest_plane_distance = getNearestPlaneDistance box
        in
          if box \<noteq> null_Box
             \<and> (cell_width * 2 > vx nearest_plane_distance
                  \<or> cell_width * 2 > vy nearest_plane_distance
                  \<or> (\<not> is2D box \<and> cell_width * 2 > vz nearest_plane_distance))
          then Inl InvalidCellWidth
          else
            let celldim = (if box \<noteq> null_Box \<and> is2D box
                           then Vec3 (vx celldim) (vy celldim) 1 else celldim);
                lc = lc\<lparr>m_box := box\<rparr>
            in
              if \<not> (vx celldim = vx (m_celldim lc) \<and> vy celldim = vy (m_celldim lc)
                     \<and> vz celldim = vz (m_celldim lc))
              then
                let ix = mk_Index3D (vx celldim) (vy celldim) (vz celldim) in
                  if getNumElements ix < 1 then Inl NoCell
                  else Inr (lc\<lparr>m_cell_index := ix, m_celldim := celldim,
                                m_cell_width := cell_width\<rparr>)
              else Inr (lc\<lparr>m_cell_width := cell_width\<rparr>)
      else Inr lc)"

definition setCellWidth :: "(Box \<Rightarrow> real vec3) \<Rightarrow> real \<Rightarrow> LinkCell \<Rightarrow> error + LinkCell" where
  "setCellWidth getNearestPlaneDistance cell_width lc =
     updateInternal getNearestPlaneDistance (m_box lc) cell_width lc"

definition updateBox :: "(Box \<Rightarrow> real vec3) \<Rightarrow> Box \<Rightarrow> LinkCell \<Rightarrow> error + LinkCell" where
  "updateBox getNearestPlaneDistance box lc =
     updateInternal getNearestPlaneDistance box (m_cell_width lc) lc"

text \<open>
  Modelled from the spec: the sentinel that terminates the chain of a cell (the macro
  \<^verbatim>\<open>LINK_CELL_TERMINATOR\<close> is defined in LinkCell.h, not among the sources): the largest
  \<^verbatim>\<open>unsigned int\<close>. \<^verbatim>\<open>getNumCells\<close> is the number of elements of the cell index.
\<close>

definition LINK_CELL_TERMINATOR :: nat where
  "LINK_CELL_TERMINATOR = 4294967295"

definition getNumCells :: "LinkCell \<Rightarrow> nat" where
  "getNumCells lc = getNumElements (m_cell_index lc)"

text \<open>
  The two loops of \<^verbatim>\<open>computeCellList\<close>. The first stores the sentinel in the head slot
  of every cell. The second runs over the point indices it is given (the source gives
  them from \<open>n_points - 1\<close> down to 0) and pushes each point at the head of the chain of its
  cell; \<^verbatim>\<open>getCell\<close> (LinkCell.h, not among the sources) is a parameter, and a cell
  outside the array is \<open>OutOfRange\<close>.
\<close>

primrec init_heads :: "nat \<Rightarrow> nat list \<Rightarrow> nat list \<Rightarrow> nat list" where
  "init_heads n_points [] cl = cl"
| "init_heads n_points (cell # cells) cl =
     init_heads n_points cells (cl[n_points + cell := LINK_CELL_TERMINATOR])"

primrec generate_cell_list ::
  "(real vec3 \<Rightarrow> nat) \<Rightarrow> real vec3 list \<Rightarrow> nat \<Rightarrow> nat list \<Rightarrow> nat list \<Rightarrow> error + nat list" where
  "generate_cell_list getCell points n_points [] cl = Inr cl"
| "generate_cell_list getCell points n_points (i # is) cl =
     (let cell = getCell (points ! i) in
        if n_points + cell < length cl
        then generate_cell_list getCell points n_points is
               ((cl[i := cl ! (n_points + cell)])[n_points + cell := i])
        else Inl OutOfRange)"

text \<open>
  \<^verbatim>\<open>computeCellList\<close>. The pointer \<^verbatim>\<open>points\<close> and the count \<^verbatim>\<open>n_points\<close> of the source are
  one list and its length. The array is allocated anew when the point count or the cell
  count changed; every slot is written before it is read, so what a new array holds does
  not matter (zeros here).
\<close>

definition computeCellList ::
  "(Box \<Rightarrow> real vec3) \<Rightarrow> (LinkCell \<Rightarrow> real vec3 \<Rightarrow> nat) \<Rightarrow> Box \<Rightarrow> real vec3 list
     \<Rightarrow> LinkCell \<Rightarrow> error + LinkCell" where
  "computeCellList getNearestPlaneDistance getCell box points lc =
     (case updateBox getNearestPlaneDistance box lc of
        Inl e \<Rightarrow> Inl e
      | Inr lc \<Rightarrow>
          let n_points = length points in
            if n_points = 0 then Inl EmptyPointSet
            else
              let Nc = getNumCells lc;
                  cl = (if m_n_points lc \<noteq> n_points \<or> m_Nc lc \<noteq> Nc
                        then replicate (n_points + Nc) 0 else m_cell_list lc);
                  lc = lc\<lparr>m_n_points := n_points, m_Nc := Nc\<rparr>;
                  cl = init_heads n_points [0..<Nc] cl
              in case generate_cell_list (getCell lc) points n_points (rev [0..<n_points]) cl of
                   Inl e \<Rightarrow> Inl e
                 | Inr cl \<Rightarrow> Inr (lc\<lparr>m_cell_list := cl\<rparr>))"

text \<open>
  The constructor \<^verbatim>\<open>LinkCell(box, cell_width, points, n_points)\<close>: the initializer list,
  then \<^verbatim>\<open>updateInternal\<close>, then \<^verbatim>\<open>computeCellList\<close>. \<^verbatim>\<open>m_Nc\<close> is not initialised by the
  source and is not read before it is set.
\<close>

definition LinkCell_init :: "Box \<Rightarrow> real vec3 list \<Rightarrow> LinkCell" where
  "LinkCell_init box points =
     \<lparr>m_box = box, m_points = points, m_n_points = 0, m_cell_width = 0,
      m_celldim = Vec3 0 0 0, m_cell_index = mk_Index3D 0 0 0, m_cell_list = [], m_Nc = 0\<rparr>"

definition LinkCell_new ::
  "(Box \<Rightarrow> real vec3) \<Rightarrow> (LinkCell \<Rightarrow> real vec3 \<Rightarrow> nat) \<Rightarrow> Box \<Rightarrow> real \<Rightarrow> real vec3 list
     \<Rightarrow> error + LinkCell" where
  "LinkCell_new getNearestPlaneDistance getCell box cell_width points =
     (case updateInternal getNearestPlaneDistance box cell_width (LinkCell_init box points) of
        Inl e \<Rightarrow> Inl e
      | Inr lc \<Rightarrow> computeCellList getNearestPlaneDistance getCell box points lc)"

text \<open>
  An orthorhombic box for the examples: its nearest-plane distances are its lengths, and
  a point of the box \<open>[0, L)\<close> lies in the cell given by the integer parts of its
  coordinates divided by the cell width.
\<close>

definition ortho_Box :: "real \<Rightarrow> real \<Rightarrow> real \<Rightarrow> bool \<Rightarrow> Box" where
  "ortho_Box lx ly lz two_d = \<lparr>m_L = Vec3 lx ly lz, m_xy = 0, m_xz = 0, m_yz = 0, m_2d = two_d\<rparr>"

definition ortho_npd :: "Box \<Rightarrow> real vec3" where
  "ortho_npd box = m_L box"

section \<open>The per-point query iterators (LinkCell.cc)\<close>

text \<open>Vector arithmetic of VectorMath.h, as far as the iterators use it.\<close>

definition vec_minus :: "real vec3 \<Rightarrow> real vec3 \<Rightarrow> real vec3" where
  "vec_minus a b = Vec3 (vx a - vx b) (vy a - vy b) (vz a - vz b)"

definition dot :: "real vec3 \<Rightarrow> real vec3 \<Rightarrow> real" where
  "dot a b = vx a * vx b + vy a * vy b + vz a * vz b"

text \<open>\<^verbatim>\<open>vec3<int>(point_cell.x, point_cell.y, point_cell.z) + offset\<close>\<close>

definition cell_plus :: "nat vec3 \<Rightarrow> int vec3 \<Rightarrow> int vec3" where
  "cell_plus c off = Vec3 (int (vx c) + vx off) (int (vy c) + vy off) (int (vz c) + vz off)"

text \<open>
  The geometry the iterators read through the cell list and its box: \<^verbatim>\<open>getCellCoord\<close>,
  \<^verbatim>\<open>getCellIndex\<close> (LinkCell.h) and \<^verbatim>\<open>Box::wrap\<close> (Box.h) are not among the sources, so
  they are parameters, kept together in one record.
\<close>

record geometry =
  getCellCoord :: "real vec3 \<Rightarrow> nat vec3"
  getCellIndex :: "int vec3 \<Rightarrow> nat"
  wrap :: "real vec3 \<Rightarrow> real vec3"

definition getCellWidth :: "LinkCell \<Rightarrow> real" where
  "getCellWidth lc = m_cell_width lc"

text \<open>
  Modelled from the spec: \<^verbatim>\<open>IteratorLinkCell\<close> (LinkCell.h, not among the sources). Each
  cell exposes a head index chained through the per-point "next" array and terminated by
  the sentinel: the array is the one \<^verbatim>\<open>computeCellList\<close> fills, the head of a cell is the
  slot \<open>n_points + cell\<close>, \<^verbatim>\<open>next()\<close> follows the chain by one link and \<^verbatim>\<open>atEnd()\<close> holds at
  the sentinel. The array has no slot for the sentinel, so following the chain from it
  reads outside the array.
\<close>

record IteratorLinkCell =
  m_cur_idx :: nat

definition itercell :: "LinkCell \<Rightarrow> nat \<Rightarrow> IteratorLinkCell" where
  "itercell lc cell = \<lparr>m_cur_idx = m_n_points lc + cell\<rparr>"

definition atEnd :: "IteratorLinkCell \<Rightarrow> bool" where
  "atEnd ci \<longleftrightarrow> m_cur_idx ci = LINK_CELL_TERMINATOR"

definition IteratorLinkCell_next :: "LinkCell \<Rightarrow> IteratorLinkCell \<Rightarrow> error + IteratorLinkCell" where
  "IteratorLinkCell_next lc ci =
     (if m_cur_idx ci < length (m_cell_list lc)
      then Inr (ci\<lparr>m_cur_idx := m_cell_list lc ! m_cur_idx ci\<rparr>)
      else Inl OutOfRange)"

text \<open>
  Modelled from the spec: \<^verbatim>\<open>IteratorCellShell\<close> (LinkCell.h, not among the sources). A
  shell is the set of grid cells at a given Chebyshev distance from the home cell, and the
  search expands ring by ring: the iterator stands at one offset of the shell of its
  range, \<^verbatim>\<open>++\<close> moves to the next offset of that shell and, after the last one, to the
  first offset of the next shell; \<^verbatim>\<open>IteratorCellShell(range, is2D)\<close> stands at the first
  offset of the shell \<open>range\<close>. In 2D the offsets have z = 0.
\<close>

definition cheb :: "int vec3 \<Rightarrow> nat" where
  "cheb v = nat (max \<bar>vx v\<bar> (max \<bar>vy v\<bar> \<bar>vz v\<bar>))"

definition shell_offsets :: "bool \<Rightarrow> nat \<Rightarrow> int vec3 list" where
  "shell_offsets two_d r =
     filter (\<lambda>v. cheb v = r)
       (concat (map (\<lambda>z. concat (map (\<lambda>y. map (\<lambda>x. Vec3 x y z) [- int r..int r])
                                      [- int r..int r]))
                    (if two_d then [0] else [- int r..int r])))"

record IteratorCellShell =
  m_range :: nat
  m_pos :: nat
  m_is2D :: bool

definition IteratorCellShell_new :: "nat \<Rightarrow> bool \<Rightarrow> IteratorCellShell" where
  "IteratorCellShell_new r two_d = \<lparr>m_range = r, m_pos = 0, m_is2D = two_d\<rparr>"

definition shell_incr :: "IteratorCellShell \<Rightarrow> IteratorCellShell" where
  "shell_incr sh =
     (if m_pos sh + 1 < length (shell_offsets (m_is2D sh) (m_range sh))
      then sh\<lparr>m_pos := m_pos sh + 1\<rparr>
      else sh\<lparr>m_range := m_range sh + 1, m_pos := 0\<rparr>)"

definition shell_deref :: "IteratorCellShell \<Rightarrow> int vec3" where
  "shell_deref sh = shell_offsets (m_is2D sh) (m_range sh) ! m_pos sh"

definition getRange :: "IteratorCellShell \<Rightarrow> int" where
  "getRange sh = int (m_range sh)"

text \<open>
  What \<^verbatim>\<open>next()\<close> returns: a bond, or the terminator \<^verbatim>\<open>ITERATOR_TERMINATOR\<close> (the spec's
  EXHAUSTED). The three-argument bond constructor that LinkCell.cc calls is not in
  NeighborBond.h; modelled from the spec, the weight defaults to 1, and the vector is left
  at zero.
\<close>

datatype next_result = Yield NeighborBond | EXHAUSTED

definition NeighborBond3 :: "nat \<Rightarrow> nat \<Rightarrow> real \<Rightarrow> NeighborBond" where
  "NeighborBond3 q j d =
     \<lparr>query_point_idx = q, point_idx = j, distance = d, weight = 1, vector = Vec3 0 0 0\<rparr>"

text \<open>The members shared by the two iterators, and those of each.\<close>

record LinkCellIterator =
  m_neigh_cell_iter :: IteratorCellShell
  m_cell_iter :: IteratorLinkCell
  m_searched_cells :: "nat set"
  m_query_point :: "real vec3"
  m_query_point_idx :: nat
  m_exclude_ii :: bool
  m_finished :: bool

record LinkCellQueryBallIterator = LinkCellIterator +
  m_r :: real
  m_extra_search_width :: int

record LinkCellQueryIterator = LinkCellIterator +
  m_count :: nat
  m_num_neighbors :: nat
  m_current_neighbors :: "NeighborBond list"

text \<open>The squared length of the wrapped displacement from the query point to point \<open>j\<close>.\<close>

definition rsq_of :: "LinkCell \<Rightarrow> geometry \<Rightarrow> real vec3 \<Rightarrow> nat \<Rightarrow> real" where
  "rsq_of lc g q j = (let rij = wrap g (vec_minus (m_points lc ! j) q) in dot rij rij)"

text \<open>
  The index of the cell at the current offset from the cell of the query point.
\<close>

definition offset_cell :: "geometry \<Rightarrow> real vec3 \<Rightarrow> IteratorCellShell \<Rightarrow> nat" where
  "offset_cell g q sh = getCellIndex g (cell_plus (getCellCoord g q) (shell_deref sh))"

subsection \<open>\<^verbatim>\<open>LinkCellQueryBallIterator::next\<close>\<close>

text \<open>
  Every loop of the source takes a bound on its number of iterations (fuel); \<open>None\<close> is a
  loop that did not finish within it. The \<^verbatim>\<open>for\<close> loop over the members of the current
  cell returns the accepted bond, or nothing at the end of the chain.
\<close>

fun ball_members ::
  "nat \<Rightarrow> LinkCell \<Rightarrow> geometry \<Rightarrow> LinkCellQueryBallIterator
     \<Rightarrow> (error + NeighborBond option \<times> LinkCellQueryBallIterator) option" where
  "ball_members 0 lc g it = None"
| "ball_members (Suc fuel) lc g it =
     (case IteratorLinkCell_next lc (m_cell_iter it) of
        Inl e \<Rightarrow> Some (Inl e)
      | Inr ci \<Rightarrow>
          if atEnd ci then Some (Inr (None, it\<lparr>m_cell_iter := ci\<rparr>))
          else
            let j = m_cur_idx ci in
              if j < length (m_points lc) then
                let rsq = rsq_of lc g (m_query_point it) j in
                  if rsq < m_r it * m_r it \<and> (\<not> m_exclude_ii it \<or> m_query_point_idx it \<noteq> j)
                  then Some (Inr (Some (NeighborBond3 (m_query_point_idx it) j (sqrt rsq)),
                                  it\<lparr>m_cell_iter := ci\<rparr>))
                  else ball_members fuel lc g (it\<lparr>m_cell_iter := ci\<rparr>)
              else Some (Inl OutOfRange))"

text \<open>
  The inner \<^verbatim>\<open>while (true)\<close>: the next neighbor cell to consider. The flag is
  \<^verbatim>\<open>out_of_range\<close>.
\<close>

fun ball_advance ::
  "nat \<Rightarrow> LinkCell \<Rightarrow> geometry \<Rightarrow> LinkCellQueryBallIterator
     \<Rightarrow> (bool \<times> LinkCellQueryBallIterator) option" where
  "ball_advance 0 lc g it = None"
| "ball_advance (Suc fuel) lc g it =
     (let sh = shell_incr (m_neigh_cell_iter it) in
        if real_of_int (getRange sh - m_extra_search_width it) * getCellWidth lc > m_r it
        then Some (True, it\<lparr>m_neigh_cell_iter := sh\<rparr>)
        else
          let neighbor_cell_index = offset_cell g (m_query_point it) sh in
            if neighbor_cell_index \<notin> m_searched_cells it
            then Some (False, it\<lparr>m_neigh_cell_iter := sh,
                         m_searched_cells := insert neighbor_cell_index (m_searched_cells it),
                         m_cell_iter := itercell lc neighbor_cell_index\<rparr>)
            else ball_advance fuel lc g (it\<lparr>m_neigh_cell_iter := sh\<rparr>))"

text \<open>The outer \<^verbatim>\<open>while (true)\<close>, and what follows it.\<close>

fun ball_loop ::
  "nat \<Rightarrow> LinkCell \<Rightarrow> geometry \<Rightarrow> LinkCellQueryBallIterator
     \<Rightarrow> (error + next_result \<times> LinkCellQueryBallIterator) option" where
  "ball_loop 0 lc g it = None"
| "ball_loop (Suc fuel) lc g it =
     (case ball_members fuel lc g it of
        None \<Rightarrow> None
      | Some (Inl e) \<Rightarrow> Some (Inl e)
      | Some (Inr (Some b, it)) \<Rightarrow> Some (Inr (Yield b, it))
      | Some (Inr (None, it)) \<Rightarrow>
          (case ball_advance fuel lc g it of
             None \<Rightarrow> None
           | Some (True, it) \<Rightarrow> Some (Inr (EXHAUSTED, it\<lparr>m_finished := True\<rparr>))
           | Some (False, it) \<Rightarrow> ball_loop fuel lc g it))"

definition ball_next ::
  "nat \<Rightarrow> LinkCell \<Rightarrow> geometry \<Rightarrow> LinkCellQueryBallIterator
     \<Rightarrow> (error + next_result \<times> LinkCellQueryBallIterator) option" where
  "ball_next fuel lc g it =
     (let point_cell_index = offset_cell g (m_query_point it) (m_neigh_cell_iter it)
      in ball_loop fuel lc g
           (it\<lparr>m_searched_cells := insert point_cell_index (m_searched_cells it)\<rparr>))"

subsection \<open>\<^verbatim>\<open>LinkCellQueryIterator::next\<close>\<close>

text \<open>The \<^verbatim>\<open>for\<close> loop: every member of the current cell but the excluded one is buffered.\<close>

fun knn_members ::
  "nat \<Rightarrow> LinkCell \<Rightarrow> geometry \<Rightarrow> LinkCellQueryIterator
     \<Rightarrow> (error + LinkCellQueryIterator) option" where
  "knn_members 0 lc g it = None"
| "knn_members (Suc fuel) lc g it =
     (case IteratorLinkCell_next lc (m_cell_iter it) of
        Inl e \<Rightarrow> Some (Inl e)
      | Inr ci \<Rightarrow>
          if atEnd ci then Some (Inr (it\<lparr>m_cell_iter := ci\<rparr>))
          else
            let j = m_cur_idx ci in
              if m_exclude_ii it \<and> m_query_point_idx it = j
              then knn_members fuel lc g (it\<lparr>m_cell_iter := ci\<rparr>)
              else if j < length (m_points lc) then
                let rsq = rsq_of lc g (m_query_point it) j in
                  knn_members fuel lc g
                    (it\<lparr>m_cell_iter := ci,
                        m_current_neighbors := m_current_neighbors it
                          @ [NeighborBond3 (m_query_point_idx it) j (sqrt rsq)]\<rparr>)
              else Some (Inl OutOfRange))"

text \<open>The inner \<^verbatim>\<open>while (true)\<close>: the next cell not searched yet, or the end of the range.\<close>

fun knn_advance ::
  "nat \<Rightarrow> LinkCell \<Rightarrow> geometry \<Rightarrow> nat \<Rightarrow> LinkCellQueryIterator
     \<Rightarrow> LinkCellQueryIterator option" where
  "knn_advance 0 lc g max_range it = None"
| "knn_advance (Suc fuel) lc g max_range it =
     (let sh = shell_incr (m_neigh_cell_iter it) in
        if sh = IteratorCellShell_new max_range (is2D (m_box lc))
        then Some (it\<lparr>m_neigh_cell_iter := sh\<rparr>)
        else
          let neighbor_cell_index = offset_cell g (m_query_point it) sh in
            if neighbor_cell_index \<notin> m_searched_cells it
            then Some (it\<lparr>m_neigh_cell_iter := sh,
                         m_searched_cells := insert neighbor_cell_index (m_searched_cells it),
                         m_cell_iter := itercell lc neighbor_cell_index\<rparr>)
            else knn_advance fuel lc g max_range (it\<lparr>m_neigh_cell_iter := sh\<rparr>))"

text \<open>
  \<^verbatim>\<open>m_num_neighbors - 1\<close> is computed in \<^verbatim>\<open>unsigned int\<close>: it wraps at 0.
\<close>

definition uint_pred :: "nat \<Rightarrow> nat" where
  "uint_pred k = (if k = 0 then 4294967295 else k - 1)"

text \<open>
  The expanding search. \<^verbatim>\<open>std::sort\<close> with \<^verbatim>\<open>operator<\<close> orders the buffer by distance; among
  bonds of equal distance it may leave any order, the model keeps the order of insertion.
\<close>

fun knn_search ::
  "nat \<Rightarrow> LinkCell \<Rightarrow> geometry \<Rightarrow> nat \<Rightarrow> LinkCellQueryIterator
     \<Rightarrow> (error + LinkCellQueryIterator) option" where
  "knn_search 0 lc g max_range it = None"
| "knn_search (Suc fuel) lc g max_range it =
     (if m_neigh_cell_iter it \<noteq> IteratorCellShell_new max_range (is2D (m_box lc)) then
        (case (if \<not> atEnd (m_cell_iter it) then knn_members fuel lc g it else Some (Inr it)) of
           None \<Rightarrow> None
         | Some (Inl e) \<Rightarrow> Some (Inl e)
         | Some (Inr it) \<Rightarrow>
             (case knn_advance fuel lc g max_range it of
                None \<Rightarrow> None
              | Some it \<Rightarrow>
                  if length (m_current_neighbors it) \<ge> m_num_neighbors it then
                    (if uint_pred (m_num_neighbors it) < length (m_current_neighbors it) then
                       (if distance (m_current_neighbors it ! uint_pred (m_num_neighbors it))
                             < real_of_int (getRange (m_neigh_cell_iter it) - 1) * getCellWidth lc
                        then Some (Inr (it\<lparr>m_current_neighbors :=
                                              sort_key distance (m_current_neighbors it)\<rparr>))
                        else knn_search fuel lc g max_range it)
                     else Some (Inl OutOfRange))
                  else knn_search fuel lc g max_range it))
      else Some (Inr it))"

definition knn_max_range :: "(Box \<Rightarrow> real vec3) \<Rightarrow> LinkCell \<Rightarrow> nat" where
  "knn_max_range getNearestPlaneDistance lc =
     (let plane_distance = getNearestPlaneDistance (m_box lc);
          min_plane_distance = min (vx plane_distance) (vy plane_distance);
          min_plane_distance = (if \<not> is2D (m_box lc)
                                then min min_plane_distance (vz plane_distance)
                                else min_plane_distance)
      in to_uint (real_of_int (\<lceil>min_plane_distance / (2 * getCellWidth lc)\<rceil> + 1)))"

definition knn_next ::
  "nat \<Rightarrow> (Box \<Rightarrow> real vec3) \<Rightarrow> LinkCell \<Rightarrow> geometry \<Rightarrow> LinkCellQueryIterator
     \<Rightarrow> (error + next_result \<times> LinkCellQueryIterator) option" where
  "knn_next fuel getNearestPlaneDistance lc g it =
     (let max_range = knn_max_range getNearestPlaneDistance lc;
          point_cell_index = offset_cell g (m_query_point it) (m_neigh_cell_iter it);
          it = it\<lparr>m_searched_cells := insert point_cell_index (m_searched_cells it)\<rparr>
      in case (if m_current_neighbors it = [] then knn_search fuel lc g max_range it
               else Some (Inr it)) of
           None \<Rightarrow> None
         | Some (Inl e) \<Rightarrow> Some (Inl e)
         | Some (Inr it) \<Rightarrow>
             if m_count it < m_num_neighbors it \<and> m_count it < length (m_current_neighbors it)
             then Some (Inr (Yield (m_current_neighbors it ! m_count it),
                             it\<lparr>m_count := m_count it + 1\<rparr>))
             else Some (Inr (EXHAUSTED, it\<lparr>m_finished := True\<rparr>)))"

subsection \<open>Construction and use of the iterators\<close>

text \<open>
  Modelled from the spec: the constructors of the iterators (LinkCell.h, not among the
  sources). A new iterator stands at the home cell of its query point, in the shell of
  range 0, with nothing searched, buffered or drained.
\<close>

definition ball_init ::
  "LinkCell \<Rightarrow> geometry \<Rightarrow> real vec3 \<Rightarrow> nat \<Rightarrow> real \<Rightarrow> bool \<Rightarrow> int \<Rightarrow> LinkCellQueryBallIterator" where
  "ball_init lc g q qidx r exclude_ii extra =
     \<lparr>m_neigh_cell_iter = IteratorCellShell_new 0 (is2D (m_box lc)),
      m_cell_iter = itercell lc (offset_cell g q
                                  (IteratorCellShell_new 0 (is2D (m_box lc)))),
      m_searched_cells = {}, m_query_point = q, m_query_point_idx = qidx,
      m_exclude_ii = exclude_ii, m_finished = False, m_r = r, m_extra_search_width = extra\<rparr>"

definition knn_init ::
  "LinkCell \<Rightarrow> geometry \<Rightarrow> real vec3 \<Rightarrow> nat \<Rightarrow> nat \<Rightarrow> bool \<Rightarrow> LinkCellQueryIterator" where
  "knn_init lc g q qidx num_neighbors exclude_ii =
     \<lparr>m_neigh_cell_iter = IteratorCellShell_new 0 (is2D (m_box lc)),
      m_cell_iter = itercell lc (offset_cell g q
                                  (IteratorCellShell_new 0 (is2D (m_box lc)))),
      m_searched_cells = {}, m_query_point = q, m_query_point_idx = qidx,
      m_exclude_ii = exclude_ii, m_finished = False, m_count = 0,
      m_num_neighbors = num_neighbors, m_current_neighbors = []\<rparr>"

text \<open>
  The modes of a query and the arguments of a query, with the fields that the module
  exports.
\<close>

datatype QueryType = QueryType_none | QueryType_ball | QueryType_nearest

record QueryArgs =
  mode :: QueryType
  num_neighbors :: nat
  r_max :: real
  r_min :: real
  r_guess :: real
  scale :: real
  exclude_ii :: bool

text \<open>
  \<^verbatim>\<open>LinkCell::querySingle\<close> returns a pointer to the base class of the two iterators. The
  check of the arguments is a member of the base class \<^verbatim>\<open>NeighborQuery\<close> (NeighborQuery.h,
  not among the sources): it is a parameter, which returns the arguments as it leaves them
  or the error it throws. The extra search width that the constructor of the ball iterator
  chooses is a parameter too.
\<close>

datatype NeighborQueryPerPointIterator =
    BallIterator LinkCellQueryBallIterator
  | NearestIterator LinkCellQueryIterator

definition querySingle ::
  "(QueryArgs \<Rightarrow> error + QueryArgs) \<Rightarrow> int \<Rightarrow> LinkCell \<Rightarrow> geometry \<Rightarrow> real vec3 \<Rightarrow> nat
     \<Rightarrow> QueryArgs \<Rightarrow> error + NeighborQueryPerPointIterator" where
  "querySingle validateQueryArgs extra lc g q qidx args =
     (case validateQueryArgs args of
        Inl e \<Rightarrow> Inl e
      | Inr args \<Rightarrow>
          if mode args = QueryType_ball
          then Inr (BallIterator (ball_init lc g q qidx (r_max args) (exclude_ii args) extra))
          else if mode args = QueryType_nearest
          then Inr (NearestIterator
                      (knn_init lc g q qidx (num_neighbors args) (exclude_ii args)))
          else Inl InvalidQueryMode)"

text \<open>
  Driving an iterator to exhaustion: \<^verbatim>\<open>next()\<close> is called until it returns the terminator,
  at most \<open>n\<close> times; the bonds are collected in the order they are returned.
\<close>

primrec drive ::
  "nat \<Rightarrow> ('s \<Rightarrow> (error + next_result \<times> 's) option) \<Rightarrow> 's
     \<Rightarrow> (error + NeighborBond list \<times> 's) option" where
  "drive 0 nxt s = None"
| "drive (Suc n) nxt s =
     (case nxt s of
        None \<Rightarrow> None
      | Some (Inl e) \<Rightarrow> Some (Inl e)
      | Some (Inr (EXHAUSTED, s')) \<Rightarrow> Some (Inr ([], s'))
      | Some (Inr (Yield b, s')) \<Rightarrow>
          (case drive n nxt s' of
             None \<Rightarrow> None
           | Some (Inl e) \<Rightarrow> Some (Inl e)
           | Some (Inr (bs, s'')) \<Rightarrow> Some (Inr (b # bs, s''))))"

subsection \<open>What the cell list holds\<close>

text \<open>
  The chain that starts at slot \<open>s\<close> of the array visits the points \<open>js\<close>, in this order, and
  then reaches the sentinel.
\<close>

primrec is_chain :: "nat list \<Rightarrow> nat \<Rightarrow> nat list \<Rightarrow> bool" where
  "is_chain cl s [] \<longleftrightarrow> s < length cl \<and> cl ! s = LINK_CELL_TERMINATOR"
| "is_chain cl s (j # js) \<longleftrightarrow>
     s < length cl \<and> cl ! s = j \<and> j \<noteq> LINK_CELL_TERMINATOR \<and> is_chain cl j js"

text \<open>The points that \<open>cell_of\<close> puts in cell \<open>c\<close>, by increasing index.\<close>

definition cell_members :: "(real vec3 \<Rightarrow> nat) \<Rightarrow> real vec3 list \<Rightarrow> nat \<Rightarrow> nat list" where
  "cell_members cell_of points c = filter (\<lambda>i. cell_of (points ! i) = c) [0..<length points]"

text \<open>
  A cell list is in order for \<open>cell_of\<close> when its array has one slot per point and per cell
  and the chain of every cell visits exactly the points of that cell.
\<close>

definition cell_list_ok :: "(real vec3 \<Rightarrow> nat) \<Rightarrow> LinkCell \<Rightarrow> bool" where
  "cell_list_ok cell_of lc \<longleftrightarrow>
     m_n_points lc = length (m_points lc)
     \<and> length (m_cell_list lc) = m_n_points lc + m_Nc lc
     \<and> m_n_points lc + m_Nc lc \<le> LINK_CELL_TERMINATOR
     \<and> (\<forall>c < m_Nc lc. is_chain (m_cell_list lc) (m_n_points lc + c)
                          (cell_members cell_of (m_points lc) c))"

text \<open>
  A shell iterator is in order when it stands at an offset of its shell; its rank counts
  the offsets that come before it, over all shells.
\<close>

definition shell_valid :: "IteratorCellShell \<Rightarrow> bool" where
  "shell_valid sh \<longleftrightarrow> m_pos sh < length (shell_offsets (m_is2D sh) (m_range sh))"

definition shell_rank :: "IteratorCellShell \<Rightarrow> nat" where
  "shell_rank sh = (\<Sum>r < m_range sh. length (shell_offsets (m_is2D sh) r)) + m_pos sh"

text \<open>The test of the ball iterator on a shell iterator just advanced.\<close>

definition out_of_range :: "LinkCell \<Rightarrow> LinkCellQueryBallIterator \<Rightarrow> IteratorCellShell \<Rightarrow> bool" where
  "out_of_range lc it sh \<longleftrightarrow>
     real_of_int (getRange sh - m_extra_search_width it) * getCellWidth lc > m_r it"

text \<open>What \<^verbatim>\<open>next()\<close> of a ball iterator leaves unchanged.\<close>

definition ball_consts ::
  "LinkCellQueryBallIterator \<Rightarrow> real vec3 \<times> nat \<times> bool \<times> real \<times> int" where
  "ball_consts it =
     (m_query_point it, m_query_point_idx it, m_exclude_ii it, m_r it, m_extra_search_width it)"

text \<open>The test a bond of the ball iterator has passed.\<close>

definition accepted ::
  "LinkCell \<Rightarrow> geometry \<Rightarrow> LinkCellQueryBallIterator \<Rightarrow> NeighborBond \<Rightarrow> bool" where
  "accepted lc g it b \<longleftrightarrow>
     (\<exists>j < length (m_points lc).
        b = NeighborBond3 (m_query_point_idx it) j (sqrt (rsq_of lc g (m_query_point it) j))
        \<and> rsq_of lc g (m_query_point it) j < m_r it * m_r it
        \<and> (m_exclude_ii it \<longrightarrow> j \<noteq> m_query_point_idx it))"

text \<open>The geometry fits a cell list when every cell index it returns is a cell of the grid.\<close>

definition geometry_ok :: "geometry \<Rightarrow> LinkCell \<Rightarrow> bool" where
  "geometry_ok g lc \<longleftrightarrow> (\<forall>v. getCellIndex g v < m_Nc lc)"

text \<open>
  A ball iterator is ready for \<^verbatim>\<open>next()\<close> when its shell iterator is in order and its cell
  iterator stands on a chain \<open>js\<close> of points still to be visited.
\<close>

definition ball_ready :: "LinkCell \<Rightarrow> LinkCellQueryBallIterator \<Rightarrow> nat list \<Rightarrow> bool" where
  "ball_ready lc it js \<longleftrightarrow>
     shell_valid (m_neigh_cell_iter it)
     \<and> is_chain (m_cell_list lc) (m_cur_idx (m_cell_iter it)) js
     \<and> (\<forall>j \<in> set js. j < length (m_points lc))
     \<and> length js \<le> length (m_points lc)"

text \<open>
  From the shell \<open>R\<close> on, every shell is out of range for the iterator; the measure counts
  what is left to visit before that shell, cell by cell and point by point.
\<close>

definition far_shell :: "LinkCell \<Rightarrow> LinkCellQueryBallIterator \<Rightarrow> nat \<Rightarrow> bool" where
  "far_shell lc it R \<longleftrightarrow> (\<forall>sh. R \<le> m_range sh \<longrightarrow> out_of_range lc it sh)"

definition shells_left :: "nat \<Rightarrow> IteratorCellShell \<Rightarrow> nat" where
  "shells_left R sh = shell_rank (IteratorCellShell_new R (m_is2D sh)) - shell_rank sh"

definition ball_measure :: "LinkCell \<Rightarrow> nat \<Rightarrow> LinkCellQueryBallIterator \<Rightarrow> nat list \<Rightarrow> nat" where
  "ball_measure lc R it js =
     shells_left R (m_neigh_cell_iter it) * (length (m_points lc) + 1) + length js"

text \<open>
  The test of the k-nearest iterator on a point, the bond it buffers for it, and what
  \<^verbatim>\<open>next()\<close> of a k-nearest iterator leaves unchanged.
\<close>

definition eligible :: "LinkCellQueryIterator \<Rightarrow> nat \<Rightarrow> bool" where
  "eligible it j \<longleftrightarrow> \<not> (m_exclude_ii it \<and> m_query_point_idx it = j)"

definition knn_bond :: "LinkCell \<Rightarrow> geometry \<Rightarrow> LinkCellQueryIterator \<Rightarrow> nat \<Rightarrow> NeighborBond" where
  "knn_bond lc g it j =
     NeighborBond3 (m_query_point_idx it) j (sqrt (rsq_of lc g (m_query_point it) j))"


definition knn_consts ::
  "LinkCellQueryIterator \<Rightarrow> real vec3 \<times> nat \<times> bool \<times> nat \<times> nat \<times> bool" where
  "knn_consts it =
     (m_query_point it, m_query_point_idx it, m_exclude_ii it, m_num_neighbors it, m_count it,
      m_finished it)"

text \<open>
  The buffer of a k-nearest iterator is in order when no point has two bonds in it and
  every bond is the bond of the query point with a point that passes the test.
\<close>

definition knn_buffer_ok :: "LinkCell \<Rightarrow> LinkCellQueryIterator \<Rightarrow> bool" where
  "knn_buffer_ok lc it \<longleftrightarrow>
     distinct (map point_idx (m_current_neighbors it))
     \<and> (\<forall>b \<in> set (m_current_neighbors it).
           point_idx b < length (m_points lc)
           \<and> query_point_idx b = m_query_point_idx it
           \<and> eligible it (point_idx b))"

text \<open>
  A k-nearest iterator is ready for its search when its shell iterator is in order, its
  cell iterator stands on a chain \<open>js\<close> of points still to be visited, or at the end with
  nothing left, and neither the buffer nor \<open>js\<close> holds a point twice or a point of a cell not
  marked as searched.
\<close>

definition knn_ready ::
  "(real vec3 \<Rightarrow> nat) \<Rightarrow> LinkCell \<Rightarrow> LinkCellQueryIterator \<Rightarrow> nat list \<Rightarrow> bool" where
  "knn_ready cell_of lc it js \<longleftrightarrow>
     shell_valid (m_neigh_cell_iter it)
     \<and> m_is2D (m_neigh_cell_iter it) = is2D (m_box lc)
     \<and> (if atEnd (m_cell_iter it) then js = []
         else is_chain (m_cell_list lc) (m_cur_idx (m_cell_iter it)) js)
     \<and> length js \<le> length (m_points lc)
     \<and> distinct (map point_idx (m_current_neighbors it) @ js)
     \<and> (\<forall>j \<in> point_idx ` set (m_current_neighbors it) \<union> set js.
           j < length (m_points lc) \<and> cell_of (m_points lc ! j) \<in> m_searched_cells it)
     \<and> knn_buffer_ok lc it"

text \<open>
  The test of the ball iterator on point \<open>j\<close>, and the bond it returns for a point that
  passes it.
\<close>

definition passes :: "LinkCell \<Rightarrow> geometry \<Rightarrow> LinkCellQueryBallIterator \<Rightarrow> nat \<Rightarrow> bool" where
  "passes lc g it j \<longleftrightarrow>
     rsq_of lc g (m_query_point it) j < m_r it * m_r it
     \<and> (m_exclude_ii it \<longrightarrow> m_query_point_idx it \<noteq> j)"

definition ball_bond ::
  "LinkCell \<Rightarrow> geometry \<Rightarrow> LinkCellQueryBallIterator \<Rightarrow> nat \<Rightarrow> NeighborBond" where
  "ball_bond lc g it j =
     NeighborBond3 (m_query_point_idx it) j (sqrt (rsq_of lc g (m_query_point it) j))"

text \<open>
  A shell position is reached by the search of a ball iterator when it is the home
  position or is not out of range; a point is found when it passes the test and its cell
  lies at a position that is reached.
\<close>

definition reached :: "LinkCell \<Rightarrow> LinkCellQueryBallIterator \<Rightarrow> IteratorCellShell \<Rightarrow> bool" where
  "reached lc it sh \<longleftrightarrow>
     shell_valid sh \<and> m_is2D sh = is2D (m_box lc)
     \<and> (m_range sh = 0 \<or> \<not> out_of_range lc it sh)"

definition found ::
  "(real vec3 \<Rightarrow> nat) \<Rightarrow> LinkCell \<Rightarrow> geometry \<Rightarrow> LinkCellQueryBallIterator \<Rightarrow> nat \<Rightarrow> bool" where
  "found cell_of lc g it j \<longleftrightarrow>
     j < length (m_points lc) \<and> passes lc g it j
     \<and> (\<exists>sh. reached lc it sh
              \<and> cell_of (m_points lc ! j) = offset_cell g (m_query_point it) sh)"

text \<open>
  The state \<open>it\<close> of a ball iterator started as \<open>it0\<close>: its cell iterator stands on the chain
  \<open>js\<close>, the rest of the members of the cell at its shell position, and that cell is marked
  as searched.
\<close>

definition ball_at ::
  "(real vec3 \<Rightarrow> nat) \<Rightarrow> LinkCell \<Rightarrow> geometry \<Rightarrow> LinkCellQueryBallIterator
     \<Rightarrow> LinkCellQueryBallIterator \<Rightarrow> nat list \<Rightarrow> bool" where
  "ball_at cell_of lc g it0 it js \<longleftrightarrow>
     ball_consts it = ball_consts it0
     \<and> reached lc it0 (m_neigh_cell_iter it)
     \<and> offset_cell g (m_query_point it0) (m_neigh_cell_iter it) \<in> m_searched_cells it
     \<and> is_chain (m_cell_list lc) (m_cur_idx (m_cell_iter it)) js
     \<and> (\<exists>pre. cell_members cell_of (m_points lc)
                  (offset_cell g (m_query_point it0) (m_neigh_cell_iter it)) = pre @ js)"

text \<open>
  The points the iterator has still to return from the state \<open>it\<close>: those that pass the
  test and are left on the current chain, or lie in a cell not searched yet at a position
  that comes later and is not out of range.
\<close>

definition owed ::
  "(real vec3 \<Rightarrow> nat) \<Rightarrow> LinkCell \<Rightarrow> geometry \<Rightarrow> LinkCellQueryBallIterator
     \<Rightarrow> LinkCellQueryBallIterator \<Rightarrow> nat list \<Rightarrow> nat \<Rightarrow> bool" where
  "owed cell_of lc g it0 it js j \<longleftrightarrow>
     passes lc g it0 j
     \<and> (j \<in> set js
         \<or> (j < length (m_points lc)
             \<and> cell_of (m_points lc ! j) \<notin> m_searched_cells it
             \<and> (\<exists>sh. shell_valid sh \<and> m_is2D sh = is2D (m_box lc)
                      \<and> shell_rank (m_neigh_cell_iter it) < shell_rank sh
                      \<and> \<not> out_of_range lc it0 sh
                      \<and> cell_of (m_points lc ! j) = offset_cell g (m_query_point it0) sh)))"

text \<open>
  The hypotheses on the geometry under which the ball query is symmetric. The cell of a
  point is the cell at the home position of a query from that point. The cell index is
  periodic when going back by an offset undoes going forth by it; the wrap is even when a
  displacement and its opposite have wrapped images of the same length.
\<close>

definition vec_neg :: "int vec3 \<Rightarrow> int vec3" where
  "vec_neg v = Vec3 (- vx v) (- vy v) (- vz v)"

definition home_cell :: "geometry \<Rightarrow> LinkCell \<Rightarrow> real vec3 \<Rightarrow> nat" where
  "home_cell g lc p = offset_cell g p (IteratorCellShell_new 0 (is2D (m_box lc)))"

definition periodic_cells :: "geometry \<Rightarrow> bool" where
  "periodic_cells g \<longleftrightarrow>
     (\<forall>c c' off. getCellIndex g (cell_plus c off) = getCellIndex g (cell_plus c' (Vec3 0 0 0))
        \<longrightarrow> getCellIndex g (cell_plus c' (vec_neg off)) = getCellIndex g (cell_plus c (Vec3 0 0 0)))"

definition even_wrap :: "geometry \<Rightarrow> bool" where
  "even_wrap g \<longleftrightarrow>
     (\<forall>a b. dot (wrap g (vec_minus a b)) (wrap g (vec_minus a b))
             = dot (wrap g (vec_minus b a)) (wrap g (vec_minus b a)))"

text \<open>
  \<^verbatim>\<open>next()\<close> of the ball iterator first marks the cell at the current position as
  searched.
\<close>

definition ball_insert :: "geometry \<Rightarrow> LinkCellQueryBallIterator \<Rightarrow> LinkCellQueryBallIterator" where
  "ball_insert g it =
     it\<lparr>m_searched_cells :=
          insert (offset_cell g (m_query_point it) (m_neigh_cell_iter it)) (m_searched_cells it)\<rparr>"

subsection \<open>An orthorhombic geometry for the examples\<close>

text \<open>
  The examples need values for the parameters. For an orthorhombic box centred at the
  origin: a coordinate falls in the cell given by its fractional position along the axis,
  cell coordinates wrap modulo the grid dimensions, and a displacement is wrapped to its
  minimum image (with z forced to zero in 2D).
\<close>

definition ortho_cell1 :: "real \<Rightarrow> nat \<Rightarrow> real \<Rightarrow> nat" where
  "ortho_cell1 l n x = nat (\<lfloor>(x / l + 1 / 2) * real n\<rfloor> mod int n)"

definition ortho_wrap1 :: "real \<Rightarrow> real \<Rightarrow> real" where
  "ortho_wrap1 l x = x - l * real_of_int \<lfloor>x / l + 1 / 2\<rfloor>"

definition ortho_geometry :: "Box \<Rightarrow> nat vec3 \<Rightarrow> geometry" where
  "ortho_geometry box cd =
     \<lparr>getCellCoord = (\<lambda>p. Vec3 (ortho_cell1 (vx (m_L box)) (vx cd) (vx p))
                               (ortho_cell1 (vy (m_L box)) (vy cd) (vy p))
                               (if m_2d box then 0
                                else ortho_cell1 (vz (m_L box)) (vz cd) (vz p))),
      getCellIndex = (\<lambda>c. nat (vz c mod int (vz cd)) * (vx cd * vy cd)
                            + nat (vy c mod int (vy cd)) * vx cd
                            + nat (vx c mod int (vx cd))),
      wrap = (\<lambda>v. Vec3 (ortho_wrap1 (vx (m_L box)) (vx v))
                       (ortho_wrap1 (vy (m_L box)) (vy v))
                       (if m_2d box then 0 else ortho_wrap1 (vz (m_L box)) (vz v)))\<rparr>"

definition ortho_getCell :: "LinkCell \<Rightarrow> real vec3 \<Rightarrow> nat" where
  "ortho_getCell lc p =
     (let g = ortho_geometry (m_box lc) (m_celldim lc)
      in getCellIndex g (cell_plus (getCellCoord g p) (Vec3 0 0 0)))"

subsection \<open>A small cell list for the examples\<close>

text \<open>
  A 2D box of side 20 with cell width 4, hence a grid of 5 by 5 cells, and three points:
  points 0 and 1 lie in the cell of the query point \<open>(1.9, 1.9)\<close>, at distances
  \<open>sqrt 28.88\<close> and \<open>0.1\<close> of it; point 2 lies two cells to the right, at distance 4.1.
  \<open>ex_lc\<close> is the cell list that the constructor builds from them.
\<close>

definition ex_box :: Box where
  "ex_box = ortho_Box 20 20 0 True"

definition ex_points :: "real vec3 list" where
  "ex_points = [Vec3 (- 19 / 10) (- 19 / 10) 0, Vec3 (19 / 10) (18 / 10) 0, Vec3 6 (19 / 10) 0]"

definition ex_query :: "real vec3" where
  "ex_query = Vec3 (19 / 10) (19 / 10) 0"

definition ex_geometry :: geometry where
  "ex_geometry = ortho_geometry ex_box (Vec3 5 5 1)"

definition ex_lc :: LinkCell where
  "ex_lc =
     \<lparr>m_box = ex_box, m_points = ex_points, m_n_points = 3, m_cell_width = 4,
      m_celldim = Vec3 5 5 1, m_cell_index = mk_Index3D 5 5 1,
      m_cell_list =
        [1, LINK_CELL_TERMINATOR, LINK_CELL_TERMINATOR,
         LINK_CELL_TERMINATOR, LINK_CELL_TERMINATOR, LINK_CELL_TERMINATOR,
         LINK_CELL_TERMINATOR, LINK_CELL_TERMINATOR, LINK_CELL_TERMINATOR,
         LINK_CELL_TERMINATOR, LINK_CELL_TERMINATOR, LINK_CELL_TERMINATOR,
         LINK_CELL_TERMINATOR, LINK_CELL_TERMINATOR, LINK_CELL_TERMINATOR,
         0, LINK_CELL_TERMINATOR, 2,
         LINK_CELL_TERMINATOR, LINK_CELL_TERMINATOR, LINK_CELL_TERMINATOR,
         LINK_CELL_TERMINATOR, LINK_CELL_TERMINATOR, LINK_CELL_TERMINATOR,
         LINK_CELL_TERMINATOR, LINK_CELL_TERMINATOR, LINK_CELL_TERMINATOR,
         LINK_CELL_TERMINATOR],
      m_Nc = 25\<rparr>"

text \<open>A ball query of radius 1 from the query point of the example.\<close>

definition ex_ball :: LinkCellQueryBallIterator where
  "ex_ball = ball_init ex_lc ex_geometry ex_query 3 1 False 1"

text \<open>A query for the 2 nearest neighbors of the query point of the example.\<close>

definition ex_knn :: LinkCellQueryIterator where
  "ex_knn = knn_init ex_lc ex_geometry ex_query 3 2 False"

text \<open>
  A query for the 3 nearest neighbors, with self-exclusion, of a query point numbered 3
  that lies one cell to the right of the cell of points 0 and 1: the point set has the
  indices 0, 1 and 2 only.
\<close>

definition ex_query_far :: "real vec3" where
  "ex_query_far = Vec3 3 (19 / 10) 0"

definition ex_knn_far :: LinkCellQueryIterator where
  "ex_knn_far = knn_init ex_lc ex_geometry ex_query_far 3 3 True"

text \<open>
  The cell list of the same box and cell width for a single point, the query point of the
  example, and a query for the nearest neighbors of that point, numbered 0, with
  self-exclusion and \<^verbatim>\<open>num_neighbors = 0\<close>: no point of the set is eligible.
\<close>

definition ex1_points :: "real vec3 list" where
  "ex1_points = [ex_query]"

definition ex1_lc :: LinkCell where
  "ex1_lc =
     \<lparr>m_box = ex_box, m_points = ex1_points, m_n_points = 1, m_cell_width = 4,
      m_celldim = Vec3 5 5 1, m_cell_index = mk_Index3D 5 5 1,
      m_cell_list =
        [LINK_CELL_TERMINATOR,
         LINK_CELL_TERMINATOR, LINK_CELL_TERMINATOR, LINK_CELL_TERMINATOR,
         LINK_CELL_TERMINATOR, LINK_CELL_TERMINATOR, LINK_CELL_TERMINATOR,
         LINK_CELL_TERMINATOR, LINK_CELL_TERMINATOR, LINK_CELL_TERMINATOR,
         LINK_CELL_TERMINATOR, LINK_CELL_TERMINATOR, LINK_CELL_TERMINATOR,
         0, LINK_CELL_TERMINATOR, LINK_CELL_TERMINATOR,
         LINK_CELL_TERMINATOR, LINK_CELL_TERMINATOR, LINK_CELL_TERMINATOR,
         LINK_CELL_TERMINATOR, LINK_CELL_TERMINATOR, LINK_CELL_TERMINATOR,
         LINK_CELL_TERMINATOR, LINK_CELL_TERMINATOR, LINK_CELL_TERMINATOR,
         LINK_CELL_TERMINATOR],
      m_Nc = 25\<rparr>"

definition ex1_args :: QueryArgs where
  "ex1_args = \<lparr>mode = QueryType_nearest, num_neighbors = 0, r_max = 0, r_min = 0, r_guess = 0,
               scale = 0, exclude_ii = True\<rparr>"

section \<open>Properties of the comparators\<close>

lemma less_as_tuple_lex: "less_as_tuple a b \<longleftrightarrow> as_tuple a < as_tuple b"
  by (auto simp: less_as_tuple_def as_tuple_def)

lemma strict_weak_order_key:
  fixes key :: "'a \<Rightarrow> 'k::linorder"
  assumes "\<And>a b. lt a b \<longleftrightarrow> key a < key b"
  shows "strict_weak_order lt"
  unfolding strict_weak_order_def using assms by (auto simp: not_less)

text \<open>
  C7. \<^verbatim>\<open>operator<\<close> compares by distance alone, \<^verbatim>\<open>less_as_tuple\<close> is the strict
  lexicographic order on the tuple (query_point_idx, point_idx, weight, distance), and
  both are strict weak orderings.
\<close>

theorem NeighborBond_orders:
  "(bond_less a b \<longleftrightarrow> distance a < distance b)
   \<and> (less_as_tuple a b \<longleftrightarrow>
        (query_point_idx a, point_idx a, weight a, distance a)
          < (query_point_idx b, point_idx b, weight b, distance b))
   \<and> strict_weak_order bond_less
   \<and> strict_weak_order less_as_tuple"
proof -
  have "strict_weak_order bond_less"
    by (rule strict_weak_order_key [where key = distance]) (simp add: bond_less_def)
  moreover have "strict_weak_order less_as_tuple"
    by (rule strict_weak_order_key [where key = as_tuple]) (rule less_as_tuple_lex)
  ultimately show ?thesis
    using less_as_tuple_lex [of a b] by (simp add: bond_less_def as_tuple_def)
qed

theorem NeighborBond_orders_witness:
  "less_as_tuple bond_A bond_B \<and> less_as_tuple bond_B bond_C \<and> less_as_tuple bond_A bond_C
   \<and> \<not> bond_less bond_A bond_B \<and> \<not> bond_less bond_B bond_A \<and> bond_less bond_A bond_C
   \<and> bond_less bond_B bond_C"
proof -
  have ab: "less_as_tuple bond_A bond_B" and bc: "less_as_tuple bond_B bond_C"
    by (simp_all add: less_as_tuple_def bond_A_def bond_B_def bond_C_def)
  have "strict_weak_order less_as_tuple"
    using NeighborBond_orders [of bond_A bond_B] by simp
  then have "less_as_tuple bond_A bond_C"
    using ab bc unfolding strict_weak_order_def by blast
  moreover have "\<not> bond_less bond_A bond_B" "\<not> bond_less bond_B bond_A"
    "bond_less bond_A bond_C" "bond_less bond_B bond_C"
    using NeighborBond_orders [of bond_A bond_B] NeighborBond_orders [of bond_B bond_A]
      NeighborBond_orders [of bond_A bond_C] NeighborBond_orders [of bond_B bond_C]
    by (simp_all add: bond_A_def bond_B_def bond_C_def)
  ultimately show ?thesis using ab bc by simp
qed



section \<open>Properties of the build\<close>

lemma updateInternal_cached:
  assumes "updateInternal npd box w lc = Inr lc'"
  shows "m_box lc' = box \<and> m_cell_width lc' = w"
  using assms
  by (auto simp: updateInternal_def Let_def split: if_splits)

lemma updateBox_after_updateInternal:
  assumes "updateInternal npd box w lc = Inr lc'"
  shows "updateBox npd box lc' = Inr lc'"
  using updateInternal_cached [OF assms]
  by (simp add: updateBox_def updateInternal_def)

text \<open>
  C4, as the claim states it, fails for a 2D box: the z distance of a 2D box is not
  compared with the cell width. A 2D box of lengths 10, 10, 0 with cell width 1 is not
  null, twice the width exceeds its z distance 0, and the build succeeds.
\<close>

theorem InvalidCellWidth_2D_counterexample:
  "ortho_Box 10 10 0 True \<noteq> null_Box
   \<and> 2 * (1::real) > vz (ortho_npd (ortho_Box 10 10 0 True))
   \<and> LinkCell_new ortho_npd (\<lambda>lc p. 0) (ortho_Box 10 10 0 True) 1 [Vec3 1 1 0]
       \<noteq> Inl InvalidCellWidth"
  by (simp add: LinkCell_new_def LinkCell_init_def updateInternal_def computeDimensions_def
      computeCellList_def updateBox_def ortho_Box_def ortho_npd_def null_Box_def is2D_def
      to_uint_def mk_Index3D_def getNumElements_def getNumCells_def Let_def)

text \<open>
  C4, amended. For every non-null box and every cell width \<open>w\<close> such that \<open>2 * w\<close> exceeds
  the x or the y nearest-plane distance, or the z distance of a box that is not 2D,
  \<^verbatim>\<open>updateInternal\<close> fails with \<open>InvalidCellWidth\<close> whenever the width or the box differs
  from the stored one, and so does the constructor for every width other than the 0 it
  starts from.
\<close>

theorem build_InvalidCellWidth:
  assumes "box \<noteq> null_Box"
    and "2 * w > vx (npd box) \<or> 2 * w > vy (npd box) \<or> (\<not> is2D box \<and> 2 * w > vz (npd box))"
  shows "(w \<noteq> m_cell_width lc \<or> box \<noteq> m_box lc
            \<longrightarrow> updateInternal npd box w lc = Inl InvalidCellWidth)
         \<and> (w \<noteq> 0 \<longrightarrow> LinkCell_new npd getCell box w points = Inl InvalidCellWidth)"
proof -
  have upd: "updateInternal npd box w lc0 = Inl InvalidCellWidth"
    if "w \<noteq> m_cell_width lc0 \<or> box \<noteq> m_box lc0" for lc0
    using that assms by (auto simp: updateInternal_def Let_def mult.commute)
  have "LinkCell_new npd getCell box w points = Inl InvalidCellWidth" if "w \<noteq> 0"
    using upd [of "LinkCell_init box points"] that
    by (simp add: LinkCell_new_def LinkCell_init_def)
  then show ?thesis using upd [of lc] by blast
qed

theorem build_InvalidCellWidth_witness:
  "ortho_Box 10 10 10 False \<noteq> null_Box
   \<and> 2 * (6::real) > vx (ortho_npd (ortho_Box 10 10 10 False))
   \<and> (6::real) \<noteq> 0
   \<and> LinkCell_new ortho_npd (\<lambda>lc p. 0) (ortho_Box 10 10 10 False) 6 [Vec3 1 1 1]
       = Inl InvalidCellWidth
   \<and> updateInternal ortho_npd (ortho_Box 10 10 10 False) 6
       (LinkCell_init (ortho_Box 10 10 10 False) []) = Inl InvalidCellWidth"
proof -
  have nn: "ortho_Box 10 10 10 False \<noteq> null_Box"
    by (simp add: ortho_Box_def null_Box_def)
  have big: "2 * (6::real) > vx (ortho_npd (ortho_Box 10 10 10 False))"
    by (simp add: ortho_Box_def ortho_npd_def)
  have w0: "(6::real) \<noteq> m_cell_width (LinkCell_init (ortho_Box 10 10 10 False) [])"
    by (simp add: LinkCell_init_def)
  show ?thesis
    using nn big w0
      build_InvalidCellWidth [where box = "ortho_Box 10 10 10 False" and w = 6
        and npd = ortho_npd and lc = "LinkCell_init (ortho_Box 10 10 10 False) []"
        and getCell = "\<lambda>lc p. 0" and points = "[Vec3 1 1 1]"]
    by simp
qed

text \<open>
  C9. Whenever the box and the cell width pass \<^verbatim>\<open>updateInternal\<close>, building the cell
  list with zero points fails with \<open>EmptyPointSet\<close>: in \<^verbatim>\<open>computeCellList\<close> on any cell
  list, and in the constructor.
\<close>

theorem build_EmptyPointSet:
  "(updateBox npd box lc = Inr lc1
      \<longrightarrow> computeCellList npd getCell box [] lc = Inl EmptyPointSet)
   \<and> (updateInternal npd box w (LinkCell_init box []) = Inr lc2
      \<longrightarrow> LinkCell_new npd getCell box w [] = Inl EmptyPointSet)"
proof -
  have "computeCellList npd getCell box [] lc2 = Inl EmptyPointSet"
    if "updateInternal npd box w (LinkCell_init box []) = Inr lc2"
    using updateBox_after_updateInternal [OF that] by (simp add: computeCellList_def)
  then show ?thesis
    by (auto simp: computeCellList_def LinkCell_new_def)
qed

theorem build_EmptyPointSet_witness:
  "(\<exists>lc2. updateInternal ortho_npd (ortho_Box 10 10 10 False) 2
            (LinkCell_init (ortho_Box 10 10 10 False) []) = Inr lc2)
   \<and> LinkCell_new ortho_npd (\<lambda>lc p. 0) (ortho_Box 10 10 10 False) 2 [] = Inl EmptyPointSet"
proof -
  obtain lc2 where ok: "updateInternal ortho_npd (ortho_Box 10 10 10 False) 2
      (LinkCell_init (ortho_Box 10 10 10 False) []) = Inr lc2"
    by (simp add: LinkCell_init_def updateInternal_def computeDimensions_def
        ortho_Box_def ortho_npd_def null_Box_def is2D_def to_uint_def mk_Index3D_def
        getNumElements_def Let_def)
  show ?thesis
    using ok build_EmptyPointSet [where npd = ortho_npd and box = "ortho_Box 10 10 10 False"
        and getCell = "\<lambda>lc p. 0" and w = 2 and ?lc2.0 = lc2]
    by blast
qed

section \<open>The example cell list\<close>

lemma upt_25: "[0..<25] = [0,1,2,3,4,5,6,7,8,9,10,11,12,13,14,15,16,17,18,19,20,21,22,23,24::nat]"
  by (simp add: upt_conv_Cons)

lemma replicate_28: "replicate 28 (0::nat) = [0,0,0,0, 0,0,0,0, 0,0,0,0, 0,0,0,0, 0,0,0,0, 0,0,0,0, 0,0,0,0]"
  by (simp add: numeral_eq_Suc)

lemma ex_updateInternal: "updateInternal ortho_npd ex_box 4 (LinkCell_init ex_box ex_points) =
  Inr \<lparr>m_box = ex_box, m_points = ex_points, m_n_points = 0, m_cell_width = 4,
      m_celldim = Vec3 5 5 1, m_cell_index = mk_Index3D 5 5 1, m_cell_list = [], m_Nc = 0\<rparr>"
  by (simp add: updateInternal_def LinkCell_init_def computeDimensions_def ex_box_def ortho_Box_def
     ortho_npd_def null_Box_def is2D_def to_uint_def Let_def mk_Index3D_def getNumElements_def)

lemma ex_cells:
  assumes "m_box lc = ex_box" "m_celldim lc = Vec3 5 5 1"
  shows "ortho_getCell lc (ex_points ! 0) = 12" "ortho_getCell lc (ex_points ! Suc 0) = 12"
     "ortho_getCell lc (ex_points ! 2) = 14"
  using assms
  by (simp_all add: ortho_getCell_def ortho_geometry_def ex_box_def ortho_Box_def ex_points_def
      cell_plus_def ortho_cell1_def Let_def)



lemma replicate_25: "replicate 25 x = [x,x,x,x,x, x,x,x,x,x, x,x,x,x,x, x,x,x,x,x, x,x,x,x,x]"
  by (simp add: numeral_eq_Suc)
lemma ex_generate:
  assumes "m_box lc = ex_box" "m_celldim lc = Vec3 5 5 1"
  shows "generate_cell_list (ortho_getCell lc) ex_points 3 (rev [0..<3])
           ([0,0,0] @ replicate 25 LINK_CELL_TERMINATOR) = Inr (m_cell_list ex_lc)"
proof -
  have r: "rev [0..<3] = [2, Suc 0, 0]" by (simp add: upt_conv_Cons numeral_eq_Suc)
  show ?thesis
    unfolding r replicate_25
    by (simp add: ex_cells [OF assms] Let_def ex_lc_def)
qed
lemma ex_init_heads:
  "init_heads 3 [0..<25] (replicate 28 0) = [0,0,0] @ replicate 25 LINK_CELL_TERMINATOR"
  unfolding upt_25 replicate_28 by (simp add: numeral_eq_Suc)

lemma ex_lc_built: "LinkCell_new ortho_npd ortho_getCell ex_box 4 ex_points = Inr ex_lc"
proof -
  let ?lc1 = "\<lparr>m_box = ex_box, m_points = ex_points, m_n_points = 0, m_cell_width = 4,
      m_celldim = Vec3 5 5 1, m_cell_index = mk_Index3D 5 5 1, m_cell_list = [], m_Nc = 0\<rparr>"
  let ?lc2 = "?lc1\<lparr>m_n_points := 3, m_Nc := 25\<rparr>"
  have len: "length ex_points = 3" by (simp add: ex_points_def)
  have u: "updateBox ortho_npd ex_box ?lc1 = Inr ?lc1"
    by (rule updateBox_after_updateInternal [OF ex_updateInternal])
  have gen: "generate_cell_list (ortho_getCell ?lc2) ex_points 3 (rev [0..<3])
           ([0,0,0] @ replicate 25 LINK_CELL_TERMINATOR) = Inr (m_cell_list ex_lc)"
    by (rule ex_generate) simp_all
  have "computeCellList ortho_npd ortho_getCell ex_box ex_points ?lc1 =
      (case generate_cell_list (ortho_getCell ?lc2) ex_points 3 (rev [0..<3])
              (init_heads 3 [0..<25] (replicate 28 0)) of
         Inl e \<Rightarrow> Inl e | Inr cl \<Rightarrow> Inr (?lc2\<lparr>m_cell_list := cl\<rparr>))"
    unfolding computeCellList_def u
    by (simp add: len Let_def getNumCells_def getNumElements_def mk_Index3D_def split: sum.split)
  also have "\<dots> = Inr (?lc2\<lparr>m_cell_list := m_cell_list ex_lc\<rparr>)"
    unfolding ex_init_heads gen by simp
  also have "\<dots> = Inr ex_lc"
    by (simp add: ex_lc_def)
  finally show ?thesis
    by (simp add: LinkCell_new_def ex_updateInternal)
qed

section \<open>The ball iterator\<close>

subsection \<open>One iteration of each loop\<close>

lemma ball_members_Suc:
  "ball_members (Suc fuel) lc g it =
     (case IteratorLinkCell_next lc (m_cell_iter it) of
        Inl e \<Rightarrow> Some (Inl e)
      | Inr ci \<Rightarrow>
          if atEnd ci then Some (Inr (None, it\<lparr>m_cell_iter := ci\<rparr>))
          else if m_cur_idx ci < length (m_points lc) then
             if rsq_of lc g (m_query_point it) (m_cur_idx ci) < m_r it * m_r it
                \<and> (\<not> m_exclude_ii it \<or> m_query_point_idx it \<noteq> m_cur_idx ci)
             then Some (Inr (Some (NeighborBond3 (m_query_point_idx it) (m_cur_idx ci)
                    (sqrt (rsq_of lc g (m_query_point it) (m_cur_idx ci)))), it\<lparr>m_cell_iter := ci\<rparr>))
             else ball_members fuel lc g (it\<lparr>m_cell_iter := ci\<rparr>)
          else Some (Inl OutOfRange))"
  by (simp add: Let_def split: sum.split)

declare ball_members.simps(2) [simp del]

lemma ball_members_SucE:
  assumes "ball_members (Suc fuel) lc g it = Some (Inr (r, it'))"
  obtains
    (stop) ci where "IteratorLinkCell_next lc (m_cell_iter it) = Inr ci" "atEnd ci"
      "r = None" "it' = it\<lparr>m_cell_iter := ci\<rparr>"
  | (hit) ci where "IteratorLinkCell_next lc (m_cell_iter it) = Inr ci" "\<not> atEnd ci"
      "m_cur_idx ci < length (m_points lc)"
      "rsq_of lc g (m_query_point it) (m_cur_idx ci) < m_r it * m_r it"
      "m_exclude_ii it \<longrightarrow> m_query_point_idx it \<noteq> m_cur_idx ci"
      "r = Some (NeighborBond3 (m_query_point_idx it) (m_cur_idx ci)
                    (sqrt (rsq_of lc g (m_query_point it) (m_cur_idx ci))))"
      "it' = it\<lparr>m_cell_iter := ci\<rparr>"
  | (skip) ci where "IteratorLinkCell_next lc (m_cell_iter it) = Inr ci" "\<not> atEnd ci"
      "m_cur_idx ci < length (m_points lc)"
      "\<not> (rsq_of lc g (m_query_point it) (m_cur_idx ci) < m_r it * m_r it
          \<and> (m_exclude_ii it \<longrightarrow> m_query_point_idx it \<noteq> m_cur_idx ci))"
      "ball_members fuel lc g (it\<lparr>m_cell_iter := ci\<rparr>) = Some (Inr (r, it'))"
proof (cases "IteratorLinkCell_next lc (m_cell_iter it)")
  case (Inl e)
  with assms show ?thesis by (simp add: ball_members_Suc)
next
  case (Inr ci)
  show ?thesis
  proof (cases "atEnd ci")
    case True
    with assms Inr have "r = None" "it' = it\<lparr>m_cell_iter := ci\<rparr>"
      by (auto simp: ball_members_Suc)
    with Inr True show ?thesis by (rule stop)
  next
    case ne: False
    show ?thesis
    proof (cases "m_cur_idx ci < length (m_points lc)")
      case False
      with assms Inr ne show ?thesis by (simp add: ball_members_Suc)
    next
      case lt: True
      show ?thesis
      proof (cases "rsq_of lc g (m_query_point it) (m_cur_idx ci) < m_r it * m_r it
          \<and> (m_exclude_ii it \<longrightarrow> m_query_point_idx it \<noteq> m_cur_idx ci)")
        case True
        with assms Inr ne lt have "r = Some (NeighborBond3 (m_query_point_idx it) (m_cur_idx ci)
                    (sqrt (rsq_of lc g (m_query_point it) (m_cur_idx ci))))"
            "it' = it\<lparr>m_cell_iter := ci\<rparr>"
          by (auto simp: ball_members_Suc)
        with Inr ne lt True show ?thesis using hit by blast
      next
        case False
        with assms Inr ne lt
        have "ball_members fuel lc g (it\<lparr>m_cell_iter := ci\<rparr>) = Some (Inr (r, it'))"
          by (auto simp: ball_members_Suc)
        with Inr ne lt False show ?thesis by (rule skip)
      qed
    qed
  qed
qed

lemma ball_members_consts:
  "ball_members fuel lc g it = Some (Inr (r, it')) \<Longrightarrow> ball_consts it' = ball_consts it"
proof (induction fuel arbitrary: it)
  case 0
  then show ?case by simp
next
  case (Suc fuel)
  from Suc.prems show ?case
  proof (cases rule: ball_members_SucE)
    case (stop ci)
    then show ?thesis by (simp add: ball_consts_def)
  next
    case (hit ci)
    then show ?thesis by (simp add: ball_consts_def)
  next
    case (skip ci)
    from Suc.IH [OF skip(5)] show ?thesis by (simp add: ball_consts_def)
  qed
qed

lemma accepted_cong:
  "ball_consts it = ball_consts it' \<Longrightarrow> accepted lc g it b = accepted lc g it' b"
  by (simp add: accepted_def ball_consts_def)

lemma accepted_upd [simp]:
  "accepted lc g (it\<lparr>m_cell_iter := ci\<rparr>) b = accepted lc g it b"
  by (simp add: accepted_def)

lemma ball_members_accepted:
  "ball_members fuel lc g it = Some (Inr (Some b, it')) \<Longrightarrow> accepted lc g it b"
proof (induction fuel arbitrary: it)
  case 0
  then show ?case by simp
next
  case (Suc fuel)
  from Suc.prems show ?case
  proof (cases rule: ball_members_SucE)
    case (stop ci)
    then show ?thesis by simp
  next
    case (hit ci)
    from hit(6) have "b = NeighborBond3 (m_query_point_idx it) (m_cur_idx ci)
             (sqrt (rsq_of lc g (m_query_point it) (m_cur_idx ci)))" by simp
    with hit(3,4,5) show ?thesis unfolding accepted_def by auto
  next
    case (skip ci)
    from Suc.IH [OF skip(5)] show ?thesis by simp
  qed
qed

lemma ball_advance_Suc:
  "ball_advance (Suc fuel) lc g it =
     (let sh = shell_incr (m_neigh_cell_iter it) in
        if out_of_range lc it sh then Some (True, it\<lparr>m_neigh_cell_iter := sh\<rparr>)
        else if offset_cell g (m_query_point it) sh \<notin> m_searched_cells it
        then Some (False, it\<lparr>m_neigh_cell_iter := sh,
               m_searched_cells := insert (offset_cell g (m_query_point it) sh) (m_searched_cells it),
               m_cell_iter := itercell lc (offset_cell g (m_query_point it) sh)\<rparr>)
        else ball_advance fuel lc g (it\<lparr>m_neigh_cell_iter := sh\<rparr>))"
  by (simp add: Let_def out_of_range_def)

declare ball_advance.simps(2) [simp del]

lemma ball_advance_SucE:
  assumes "ball_advance (Suc fuel) lc g it = Some (r, it')"
  obtains
    (out) "out_of_range lc it (shell_incr (m_neigh_cell_iter it))" "r"
      "it' = it\<lparr>m_neigh_cell_iter := shell_incr (m_neigh_cell_iter it)\<rparr>"
  | (new) "\<not> out_of_range lc it (shell_incr (m_neigh_cell_iter it))"
      "offset_cell g (m_query_point it) (shell_incr (m_neigh_cell_iter it)) \<notin> m_searched_cells it"
      "\<not> r"
      "it' = it\<lparr>m_neigh_cell_iter := shell_incr (m_neigh_cell_iter it),
               m_searched_cells := insert (offset_cell g (m_query_point it)
                 (shell_incr (m_neigh_cell_iter it))) (m_searched_cells it),
               m_cell_iter := itercell lc (offset_cell g (m_query_point it)
                 (shell_incr (m_neigh_cell_iter it)))\<rparr>"
  | (seen) "\<not> out_of_range lc it (shell_incr (m_neigh_cell_iter it))"
      "offset_cell g (m_query_point it) (shell_incr (m_neigh_cell_iter it)) \<in> m_searched_cells it"
      "ball_advance fuel lc g (it\<lparr>m_neigh_cell_iter := shell_incr (m_neigh_cell_iter it)\<rparr>)
         = Some (r, it')"
proof (cases "out_of_range lc it (shell_incr (m_neigh_cell_iter it))")
  case True
  with assms have "r" "it' = it\<lparr>m_neigh_cell_iter := shell_incr (m_neigh_cell_iter it)\<rparr>"
    by (auto simp: ball_advance_Suc Let_def)
  with True show ?thesis by (rule out)
next
  case False
  show ?thesis
  proof (cases "offset_cell g (m_query_point it) (shell_incr (m_neigh_cell_iter it))
                  \<in> m_searched_cells it")
    case True
    with assms False
    have "ball_advance fuel lc g (it\<lparr>m_neigh_cell_iter := shell_incr (m_neigh_cell_iter it)\<rparr>)
            = Some (r, it')"
      by (simp add: ball_advance_Suc Let_def)
    with False True show ?thesis by (rule seen)
  next
    case nin: False
    with assms False have "\<not> r"
      "it' = it\<lparr>m_neigh_cell_iter := shell_incr (m_neigh_cell_iter it),
               m_searched_cells := insert (offset_cell g (m_query_point it)
                 (shell_incr (m_neigh_cell_iter it))) (m_searched_cells it),
               m_cell_iter := itercell lc (offset_cell g (m_query_point it)
                 (shell_incr (m_neigh_cell_iter it)))\<rparr>"
      by (auto simp: ball_advance_Suc Let_def)
    with False nin show ?thesis by (rule new)
  qed
qed

lemma ball_advance_consts:
  "ball_advance fuel lc g it = Some (r, it') \<Longrightarrow> ball_consts it' = ball_consts it"
proof (induction fuel arbitrary: it)
  case 0
  then show ?case by simp
next
  case (Suc fuel)
  from Suc.prems show ?case
  proof (cases rule: ball_advance_SucE)
    case out
    from out(3) show ?thesis by (simp add: ball_consts_def)
  next
    case new
    from new(4) show ?thesis by (simp add: ball_consts_def)
  next
    case seen
    from Suc.IH [OF seen(3)] show ?thesis by (simp add: ball_consts_def)
  qed
qed

lemma ball_loop_Suc:
  "ball_loop (Suc fuel) lc g it =
     (case ball_members fuel lc g it of
        None \<Rightarrow> None
      | Some (Inl e) \<Rightarrow> Some (Inl e)
      | Some (Inr (Some b, it1)) \<Rightarrow> Some (Inr (Yield b, it1))
      | Some (Inr (None, it1)) \<Rightarrow>
          (case ball_advance fuel lc g it1 of
             None \<Rightarrow> None
           | Some (True, it2) \<Rightarrow> Some (Inr (EXHAUSTED, it2\<lparr>m_finished := True\<rparr>))
           | Some (False, it2) \<Rightarrow> ball_loop fuel lc g it2))"
  by simp

declare ball_loop.simps(2) [simp del]

lemma ball_loop_SucE:
  assumes "ball_loop (Suc fuel) lc g it = Some (Inr (res, it'))"
  obtains
    (yield) b where "ball_members fuel lc g it = Some (Inr (Some b, it'))" "res = Yield b"
  | (finish) it1 it2 where "ball_members fuel lc g it = Some (Inr (None, it1))"
      "ball_advance fuel lc g it1 = Some (True, it2)" "res = EXHAUSTED"
      "it' = it2\<lparr>m_finished := True\<rparr>"
  | (more) it1 it2 where "ball_members fuel lc g it = Some (Inr (None, it1))"
      "ball_advance fuel lc g it1 = Some (False, it2)"
      "ball_loop fuel lc g it2 = Some (Inr (res, it'))"
proof (cases "ball_members fuel lc g it")
  case None
  with assms show ?thesis by (simp add: ball_loop_Suc)
next
  case (Some a)
  show ?thesis
  proof (cases a)
    case (Inl e)
    with assms Some show ?thesis by (simp add: ball_loop_Suc)
  next
    case (Inr p)
    obtain r it1 where p: "p = (r, it1)" by (cases p)
    show ?thesis
    proof (cases r)
      case (Some b)
      with assms \<open>ball_members fuel lc g it = Some a\<close> Inr p
      have "res = Yield b" "it' = it1" by (simp_all add: ball_loop_Suc)
      with \<open>ball_members fuel lc g it = Some a\<close> Inr p Some show ?thesis
        using yield by simp
    next
      case None
      note m = \<open>ball_members fuel lc g it = Some a\<close> [unfolded Inr p None]
      show ?thesis
      proof (cases "ball_advance fuel lc g it1")
        case None
        with assms m show ?thesis by (simp add: ball_loop_Suc)
      next
        case (Some q)
        obtain fl it2 where q: "q = (fl, it2)" by (cases q)
        show ?thesis
        proof (cases fl)
          case True
          with assms m Some q have "res = EXHAUSTED" "it' = it2\<lparr>m_finished := True\<rparr>"
            by (simp_all add: ball_loop_Suc)
          with m Some q True show ?thesis using finish by simp
        next
          case False
          with assms m Some q have "ball_loop fuel lc g it2 = Some (Inr (res, it'))"
            by (simp add: ball_loop_Suc)
          with m Some q False show ?thesis using more by simp
        qed
      qed
    qed
  qed
qed

lemma ball_loop_accepted:
  "ball_loop fuel lc g it = Some (Inr (Yield b, it')) \<Longrightarrow> accepted lc g it b"
proof (induction fuel arbitrary: it)
  case 0
  then show ?case by simp
next
  case (Suc fuel)
  from Suc.prems show ?case
  proof (cases rule: ball_loop_SucE)
    case (yield b')
    from yield(2) have "b' = b" by simp
    with yield(1) have "ball_members fuel lc g it = Some (Inr (Some b, it'))" by simp
    then show ?thesis by (rule ball_members_accepted)
  next
    case (finish it1 it2)
    from finish(3) show ?thesis by simp
  next
    case (more it1 it2)
    have "ball_consts it2 = ball_consts it"
      using ball_advance_consts [OF more(2)] ball_members_consts [OF more(1)] by simp
    from accepted_cong [OF this] Suc.IH [OF more(3)] show ?thesis by simp
  qed
qed

lemma dot_self_nonneg: "0 \<le> dot v v"
  by (simp add: dot_def)

lemma rsq_of_nonneg: "0 \<le> rsq_of lc g q j"
  by (simp add: rsq_of_def Let_def dot_self_nonneg)

text \<open>
  C3. A call of \<^verbatim>\<open>next()\<close> returns one value, a bond or the terminator. A bond it returns
  is the bond of the query point with a point \<open>j\<close> of the point set, its distance squared is
  the squared length of the wrapped displacement and is strictly less than the square of
  the radius, and under self-exclusion its point index differs from its query point index.
\<close>

theorem ball_next_yield:
  assumes "ball_next fuel lc g it = Some (Inr (Yield b, it'))"
  shows "\<exists>j < length (m_points lc).
           b = NeighborBond3 (m_query_point_idx it) j (sqrt (rsq_of lc g (m_query_point it) j))
           \<and> distance b * distance b = rsq_of lc g (m_query_point it) j
           \<and> distance b * distance b < m_r it * m_r it
           \<and> (m_exclude_ii it \<longrightarrow> point_idx b \<noteq> query_point_idx b)"
proof -
  let ?it = "it\<lparr>m_searched_cells :=
      insert (offset_cell g (m_query_point it) (m_neigh_cell_iter it)) (m_searched_cells it)\<rparr>"
  have "ball_loop fuel lc g ?it = Some (Inr (Yield b, it'))"
    using assms by (simp add: ball_next_def Let_def)
  then have "accepted lc g ?it b"
    by (rule ball_loop_accepted)
  then obtain j where j: "j < length (m_points lc)"
    "b = NeighborBond3 (m_query_point_idx it) j (sqrt (rsq_of lc g (m_query_point it) j))"
    "rsq_of lc g (m_query_point it) j < m_r it * m_r it"
    "m_exclude_ii it \<longrightarrow> j \<noteq> m_query_point_idx it"
    unfolding accepted_def by auto
  have d: "distance b * distance b = rsq_of lc g (m_query_point it) j"
    using rsq_of_nonneg [of lc g "m_query_point it" j] by (simp add: j(2) NeighborBond3_def)
  have p: "point_idx b = j" "query_point_idx b = m_query_point_idx it"
    by (simp_all add: j(2) NeighborBond3_def)
  show ?thesis
    using j d p by auto
qed


lemma shell_offsets_0: "shell_offsets d 0 = [Vec3 0 0 0]"
  by (simp add: shell_offsets_def cheb_def)

lemma ex_home: "offset_cell ex_geometry ex_query (IteratorCellShell_new 0 True) = 12"
  by (simp add: offset_cell_def shell_deref_def IteratorCellShell_new_def shell_offsets_0
      ex_geometry_def ortho_geometry_def ex_box_def ortho_Box_def ex_query_def cell_plus_def
      ortho_cell1_def)

lemma ex_rsq:
  "rsq_of ex_lc ex_geometry ex_query 0 = 722 / 25"
  "rsq_of ex_lc ex_geometry ex_query (Suc 0) = 1 / 100"
  "rsq_of ex_lc ex_geometry ex_query 2 = 1681 / 100"
  by (simp_all add: rsq_of_def ex_lc_def ex_points_def ex_query_def ex_geometry_def
      ortho_geometry_def ex_box_def ortho_Box_def vec_minus_def dot_def ortho_wrap1_def Let_def)

lemma ex_links:
  "IteratorLinkCell_next ex_lc \<lparr>m_cur_idx = 15\<rparr> = Inr \<lparr>m_cur_idx = 0\<rparr>"
  "IteratorLinkCell_next ex_lc \<lparr>m_cur_idx = 0\<rparr> = Inr \<lparr>m_cur_idx = Suc 0\<rparr>"
  "IteratorLinkCell_next ex_lc \<lparr>m_cur_idx = Suc 0\<rparr> = Inr \<lparr>m_cur_idx = LINK_CELL_TERMINATOR\<rparr>"
  by (simp_all add: IteratorLinkCell_next_def ex_lc_def)

lemma ex_not_end:
  "\<not> atEnd \<lparr>m_cur_idx = 0\<rparr>" "\<not> atEnd \<lparr>m_cur_idx = Suc 0\<rparr>" "\<not> atEnd \<lparr>m_cur_idx = 15\<rparr>"
  "atEnd \<lparr>m_cur_idx = LINK_CELL_TERMINATOR\<rparr>"
  by (simp_all add: atEnd_def LINK_CELL_TERMINATOR_def)

lemma ex_lc_fields:
  "is2D (m_box ex_lc)" "m_n_points ex_lc = 3" "length (m_points ex_lc) = 3"
  "getCellWidth ex_lc = 4" "m_Nc ex_lc = 25" "length (m_cell_list ex_lc) = 28"
  by (simp_all add: ex_lc_def is2D_def ex_box_def ortho_Box_def ex_points_def getCellWidth_def)

lemma ex_ball_eval:
  "ball_next (Suc (Suc (Suc 0))) ex_lc ex_geometry ex_ball =
     Some (Inr (Yield (NeighborBond3 3 1 (sqrt (1 / 100))),
                ex_ball\<lparr>m_searched_cells := {12}, m_cell_iter := \<lparr>m_cur_idx = 1\<rparr>\<rparr>))"
  by (simp add: ball_next_def ball_loop_Suc ball_members_Suc ex_ball_def ball_init_def
      ex_home ex_links ex_not_end ex_rsq itercell_def Let_def ex_lc_fields)

theorem ball_next_yield_witness:
  "\<exists>b it'. ball_next (Suc (Suc (Suc 0))) ex_lc ex_geometry ex_ball = Some (Inr (Yield b, it'))
      \<and> point_idx b = 1 \<and> distance b * distance b = 1 / 100
      \<and> distance b * distance b < m_r ex_ball * m_r ex_ball"
proof -
  have r: "m_r ex_ball = 1" "m_query_point ex_ball = ex_query"
    by (simp_all add: ex_ball_def ball_init_def)
  from ball_next_yield [OF ex_ball_eval] show ?thesis
    by (auto simp: ex_ball_eval NeighborBond3_def r ex_rsq)
qed

section \<open>The k-nearest iterator on the example\<close>

lemma shell_offsets_2D_1:
  "shell_offsets True 1 = [Vec3 (- 1) (- 1) 0, Vec3 0 (- 1) 0, Vec3 1 (- 1) 0, Vec3 (- 1) 0 0,
     Vec3 1 0 0, Vec3 (- 1) 1 0, Vec3 0 1 0, Vec3 1 1 0]"
  by (simp add: shell_offsets_def cheb_def upto_rec1 [of "- 1" 1] upto_rec1 [of 0 1])

lemma shell_offsets_2D_2_hd:
  "shell_offsets True 2 ! 0 = Vec3 (- 2) (- 2) 0"
  by (simp add: shell_offsets_def cheb_def upto_rec1 [of "- 2" 2] upto_rec1 [of "- 1" 2] upto_rec1 [of 0 2] upto_rec1 [of 1 2])

lemma sqrt_hundredth: "sqrt (1 / 100) = 1 / 10"
  by (rule real_sqrt_unique) (simp_all add: power2_eq_square)


lemma sqrt_example: "\<not> sqrt (722 / 25) \<le> 1 / 10" "\<not> sqrt (722 / 25) < 1 / 10"
proof -
  have "1 < sqrt (722 / 25)" by simp
  then show "\<not> sqrt (722 / 25) \<le> 1 / 10" by linarith
  from \<open>1 < sqrt (722 / 25)\<close> show "\<not> sqrt (722 / 25) < 1 / 10" by linarith
qed

lemma ex_max_range: "knn_max_range ortho_npd ex_lc = 4"
  by (simp add: knn_max_range_def ex_lc_def ortho_npd_def ex_box_def ortho_Box_def is2D_def
      getCellWidth_def to_uint_def Let_def)

lemma ex_heads:
  "m_cell_list ex_lc ! 9 = LINK_CELL_TERMINATOR" "m_cell_list ex_lc ! 10 = LINK_CELL_TERMINATOR"
  "m_cell_list ex_lc ! 11 = LINK_CELL_TERMINATOR" "m_cell_list ex_lc ! 14 = LINK_CELL_TERMINATOR"
  "m_cell_list ex_lc ! 16 = LINK_CELL_TERMINATOR" "m_cell_list ex_lc ! 19 = LINK_CELL_TERMINATOR"
  "m_cell_list ex_lc ! 20 = LINK_CELL_TERMINATOR" "m_cell_list ex_lc ! 21 = LINK_CELL_TERMINATOR"
  by (simp_all add: ex_lc_def)

lemma ex_offsets:
  "offset_cell ex_geometry ex_query \<lparr>m_range = Suc 0, m_pos = 0, m_is2D = True\<rparr> = 6"
  "offset_cell ex_geometry ex_query \<lparr>m_range = Suc 0, m_pos = Suc 0, m_is2D = True\<rparr> = 7"
  "offset_cell ex_geometry ex_query \<lparr>m_range = Suc 0, m_pos = 2, m_is2D = True\<rparr> = 8"
  "offset_cell ex_geometry ex_query \<lparr>m_range = Suc 0, m_pos = 3, m_is2D = True\<rparr> = 11"
  "offset_cell ex_geometry ex_query \<lparr>m_range = Suc 0, m_pos = 4, m_is2D = True\<rparr> = 13"
  "offset_cell ex_geometry ex_query \<lparr>m_range = Suc 0, m_pos = 5, m_is2D = True\<rparr> = 16"
  "offset_cell ex_geometry ex_query \<lparr>m_range = Suc 0, m_pos = 6, m_is2D = True\<rparr> = 17"
  "offset_cell ex_geometry ex_query \<lparr>m_range = Suc 0, m_pos = 7, m_is2D = True\<rparr> = 18"
  "offset_cell ex_geometry ex_query \<lparr>m_range = 2, m_pos = 0, m_is2D = True\<rparr> = 0"
  using shell_offsets_2D_1 shell_offsets_2D_2_hd
  by (simp_all add: offset_cell_def shell_deref_def
      ex_geometry_def ortho_geometry_def ex_box_def ortho_Box_def ex_query_def cell_plus_def
      ortho_cell1_def)


lemma ex_shell_len: "length (shell_offsets True (Suc 0)) = 8" "length (shell_offsets True 0) = Suc 0"
  using shell_offsets_2D_1 by (simp_all add: shell_offsets_0)

lemma ex_incr:
  "shell_incr \<lparr>m_range = 0, m_pos = 0, m_is2D = True\<rparr> = \<lparr>m_range = Suc 0, m_pos = 0, m_is2D = True\<rparr>"
  "shell_incr \<lparr>m_range = Suc 0, m_pos = 0, m_is2D = True\<rparr> = \<lparr>m_range = Suc 0, m_pos = Suc 0, m_is2D = True\<rparr>"
  "shell_incr \<lparr>m_range = Suc 0, m_pos = Suc 0, m_is2D = True\<rparr> = \<lparr>m_range = Suc 0, m_pos = 2, m_is2D = True\<rparr>"
  "shell_incr \<lparr>m_range = Suc 0, m_pos = 2, m_is2D = True\<rparr> = \<lparr>m_range = Suc 0, m_pos = 3, m_is2D = True\<rparr>"
  "shell_incr \<lparr>m_range = Suc 0, m_pos = 3, m_is2D = True\<rparr> = \<lparr>m_range = Suc 0, m_pos = 4, m_is2D = True\<rparr>"
  "shell_incr \<lparr>m_range = Suc 0, m_pos = 4, m_is2D = True\<rparr> = \<lparr>m_range = Suc 0, m_pos = 5, m_is2D = True\<rparr>"
  "shell_incr \<lparr>m_range = Suc 0, m_pos = 5, m_is2D = True\<rparr> = \<lparr>m_range = Suc 0, m_pos = 6, m_is2D = True\<rparr>"
  "shell_incr \<lparr>m_range = Suc 0, m_pos = 6, m_is2D = True\<rparr> = \<lparr>m_range = Suc 0, m_pos = 7, m_is2D = True\<rparr>"
  "shell_incr \<lparr>m_range = Suc 0, m_pos = 7, m_is2D = True\<rparr> = \<lparr>m_range = 2, m_pos = 0, m_is2D = True\<rparr>"
  by (simp_all add: shell_incr_def ex_shell_len)

lemma ex_links2:
  "IteratorLinkCell_next ex_lc \<lparr>m_cur_idx = 9\<rparr> = Inr \<lparr>m_cur_idx = LINK_CELL_TERMINATOR\<rparr>"
  "IteratorLinkCell_next ex_lc \<lparr>m_cur_idx = 10\<rparr> = Inr \<lparr>m_cur_idx = LINK_CELL_TERMINATOR\<rparr>"
  "IteratorLinkCell_next ex_lc \<lparr>m_cur_idx = 11\<rparr> = Inr \<lparr>m_cur_idx = LINK_CELL_TERMINATOR\<rparr>"
  "IteratorLinkCell_next ex_lc \<lparr>m_cur_idx = 14\<rparr> = Inr \<lparr>m_cur_idx = LINK_CELL_TERMINATOR\<rparr>"
  "IteratorLinkCell_next ex_lc \<lparr>m_cur_idx = 16\<rparr> = Inr \<lparr>m_cur_idx = LINK_CELL_TERMINATOR\<rparr>"
  "IteratorLinkCell_next ex_lc \<lparr>m_cur_idx = 19\<rparr> = Inr \<lparr>m_cur_idx = LINK_CELL_TERMINATOR\<rparr>"
  "IteratorLinkCell_next ex_lc \<lparr>m_cur_idx = 20\<rparr> = Inr \<lparr>m_cur_idx = LINK_CELL_TERMINATOR\<rparr>"
  "IteratorLinkCell_next ex_lc \<lparr>m_cur_idx = 21\<rparr> = Inr \<lparr>m_cur_idx = LINK_CELL_TERMINATOR\<rparr>"
  by (simp_all add: IteratorLinkCell_next_def ex_lc_fields ex_heads)

lemma ex_not_end2:
  "\<not> atEnd \<lparr>m_cur_idx = 9\<rparr>" "\<not> atEnd \<lparr>m_cur_idx = 10\<rparr>" "\<not> atEnd \<lparr>m_cur_idx = 11\<rparr>"
  "\<not> atEnd \<lparr>m_cur_idx = 14\<rparr>" "\<not> atEnd \<lparr>m_cur_idx = 16\<rparr>" "\<not> atEnd \<lparr>m_cur_idx = 19\<rparr>"
  "\<not> atEnd \<lparr>m_cur_idx = 20\<rparr>" "\<not> atEnd \<lparr>m_cur_idx = 21\<rparr>" "\<not> atEnd \<lparr>m_cur_idx = 3\<rparr>"
  by (simp_all add: atEnd_def LINK_CELL_TERMINATOR_def)



lemma ex_knn_eq:
  "ex_knn = \<lparr>m_neigh_cell_iter = \<lparr>m_range = 0, m_pos = 0, m_is2D = True\<rparr>,
      m_cell_iter = \<lparr>m_cur_idx = 15\<rparr>,
      m_searched_cells = {}, m_query_point = ex_query, m_query_point_idx = 3,
      m_exclude_ii = False, m_finished = False, m_count = 0,
      m_num_neighbors = 2, m_current_neighbors = []\<rparr>"
  by (simp add: ex_knn_def knn_init_def ex_lc_fields ex_home itercell_def)
     (simp add: IteratorCellShell_new_def)

lemmas ex_eval = ex_links ex_links2 ex_not_end ex_not_end2 ex_lc_fields ex_rsq sqrt_hundredth
  sqrt_example ex_incr ex_offsets uint_pred_def getRange_def itercell_def IteratorCellShell_new_def
  Let_def

lemma ex_members_home:
  "knn_members (Suc (Suc (Suc 0))) ex_lc ex_geometry (ex_knn\<lparr>m_searched_cells := {12}\<rparr>) =
     Some (Inr (ex_knn\<lparr>m_searched_cells := {12}, m_cell_iter := \<lparr>m_cur_idx = LINK_CELL_TERMINATOR\<rparr>,
        m_current_neighbors := [NeighborBond3 3 0 (sqrt (722 / 25)), NeighborBond3 3 1 (1 / 10)]\<rparr>))"
  unfolding ex_knn_eq by (simp add: ex_eval)


lemma NeighborBond3_sel:
  "distance (NeighborBond3 q j d) = d" "point_idx (NeighborBond3 q j d) = j"
  "query_point_idx (NeighborBond3 q j d) = q"
  by (simp_all add: NeighborBond3_def)


lemmas knn_numeral =
  knn_members.simps(2) [of "pred_numeral k" for k, folded numeral_eq_Suc]
  knn_advance.simps(2) [of "pred_numeral k" for k, folded numeral_eq_Suc]
  knn_search.simps(2) [of "pred_numeral k" for k, folded numeral_eq_Suc]

lemma sqrt_example2: "\<not> sqrt (722 / 25) * 10 \<le> 1"
  using sqrt_example(1) by simp

lemma ex_knn_search:
  "\<exists>it'. knn_search 12 ex_lc ex_geometry 4 (ex_knn\<lparr>m_searched_cells := {12}\<rparr>) = Some (Inr it')
     \<and> m_current_neighbors it' = [NeighborBond3 3 1 (1 / 10), NeighborBond3 3 0 (sqrt (722 / 25))]
     \<and> m_count it' = 0 \<and> m_num_neighbors it' = 2"
  unfolding ex_knn_eq by (simp add: ex_eval knn_numeral NeighborBond3_sel sqrt_example2)

lemma drive_Suc:
  "drive (Suc n) nxt s =
     (case nxt s of
        None \<Rightarrow> None
      | Some (Inl e) \<Rightarrow> Some (Inl e)
      | Some (Inr (EXHAUSTED, s')) \<Rightarrow> Some (Inr ([], s'))
      | Some (Inr (Yield b, s')) \<Rightarrow>
          (case drive n nxt s' of
             None \<Rightarrow> None
           | Some (Inl e) \<Rightarrow> Some (Inl e)
           | Some (Inr (bs, s'')) \<Rightarrow> Some (Inr (b # bs, s''))))"
  by simp

lemma ex_knn_first:
  "\<exists>it'. knn_next 12 ortho_npd ex_lc ex_geometry ex_knn
            = Some (Inr (Yield (NeighborBond3 3 1 (1 / 10)), it'))
     \<and> m_current_neighbors it' = [NeighborBond3 3 1 (1 / 10), NeighborBond3 3 0 (sqrt (722 / 25))]
     \<and> m_count it' = 1 \<and> m_num_neighbors it' = 2"
proof -
  from ex_knn_search obtain it1 where
    s: "knn_search 12 ex_lc ex_geometry 4 (ex_knn\<lparr>m_searched_cells := {12}\<rparr>) = Some (Inr it1)"
    and f: "m_current_neighbors it1 = [NeighborBond3 3 1 (1 / 10), NeighborBond3 3 0 (sqrt (722 / 25))]"
      "m_count it1 = 0" "m_num_neighbors it1 = 2"
    by blast
  have k: "m_current_neighbors ex_knn = []" "m_searched_cells ex_knn = {}"
    "m_query_point ex_knn = ex_query"
    "m_neigh_cell_iter ex_knn = IteratorCellShell_new 0 True"
    by (simp_all add: ex_knn_eq IteratorCellShell_new_def)
  have "knn_next 12 ortho_npd ex_lc ex_geometry ex_knn
          = Some (Inr (Yield (NeighborBond3 3 1 (1 / 10)), it1\<lparr>m_count := 1\<rparr>))"
    by (simp add: knn_next_def ex_max_range k ex_home s f Let_def)
  then show ?thesis using f by simp
qed

lemma knn_next_buffered:
  assumes "m_current_neighbors it \<noteq> []"
  shows "knn_next fuel npd lc g it =
     (let it1 = it\<lparr>m_searched_cells :=
                 insert (offset_cell g (m_query_point it) (m_neigh_cell_iter it))
                   (m_searched_cells it)\<rparr>
      in if m_count it < m_num_neighbors it \<and> m_count it < length (m_current_neighbors it)
         then Some (Inr (Yield (m_current_neighbors it ! m_count it),
                         it1\<lparr>m_count := m_count it + 1\<rparr>))
         else Some (Inr (EXHAUSTED, it1\<lparr>m_finished := True\<rparr>)))"
  using assms by (simp add: knn_next_def Let_def)

text \<open>
  C1 fails on the code. In the example the query asks for the 2 nearest neighbors. The
  home cell holds point 0 (squared distance 28.88) and point 1 (squared distance 0.01), in
  this order; the cells of the first shell are empty. On reaching the second shell the
  test reads the second bond of the buffer as it was filled, the one of distance 0.1, finds
  it smaller than the cell width 4, sorts and stops: the iterator returns points 1 and 0,
  although point 2, in the second shell, is at squared distance 16.81.
\<close>

theorem knn_not_nearest:
  "\<exists>it'. LinkCell_new ortho_npd ortho_getCell ex_box 4 ex_points = Inr ex_lc
     \<and> drive (Suc (Suc (Suc 0))) (knn_next 12 ortho_npd ex_lc ex_geometry) ex_knn
         = Some (Inr ([NeighborBond3 3 1 (1 / 10), NeighborBond3 3 0 (sqrt (722 / 25))], it'))
     \<and> rsq_of ex_lc ex_geometry ex_query 2 < rsq_of ex_lc ex_geometry ex_query 0"
proof -
  from ex_knn_first obtain it1 where
    n1: "knn_next 12 ortho_npd ex_lc ex_geometry ex_knn
            = Some (Inr (Yield (NeighborBond3 3 1 (1 / 10)), it1))"
    and f: "m_current_neighbors it1 = [NeighborBond3 3 1 (1 / 10), NeighborBond3 3 0 (sqrt (722 / 25))]"
      "m_count it1 = 1" "m_num_neighbors it1 = 2"
    by blast
  have "\<exists>it'. drive (Suc (Suc (Suc 0))) (knn_next 12 ortho_npd ex_lc ex_geometry) ex_knn
         = Some (Inr ([NeighborBond3 3 1 (1 / 10), NeighborBond3 3 0 (sqrt (722 / 25))], it'))"
    by (simp add: n1 knn_next_buffered f Let_def)
  then show ?thesis
    by (simp add: ex_lc_built ex_rsq)
qed

section \<open>The cell list that the constructor builds\<close>

lemma is_chain_lt: "is_chain cl s xs \<Longrightarrow> s < length cl"
  by (cases xs) simp_all

lemma is_chain_cong:
  "is_chain cl s xs \<Longrightarrow> length cl' = length cl \<Longrightarrow> s' < length cl' \<Longrightarrow> cl' ! s' = cl ! s
     \<Longrightarrow> (\<forall>j \<in> set xs. cl' ! j = cl ! j) \<Longrightarrow> is_chain cl' s' xs"
proof (induction xs arbitrary: s s')
  case Nil
  then show ?case by simp
next
  case (Cons j xs)
  from Cons.prems(1) have j: "cl ! s = j" "j \<noteq> LINK_CELL_TERMINATOR" "is_chain cl j xs"
    by simp_all
  have "is_chain cl' j xs"
  proof (rule Cons.IH [OF j(3) Cons.prems(2)])
    show "j < length cl'" using is_chain_lt [OF j(3)] Cons.prems(2) by simp
    show "cl' ! j = cl ! j" using Cons.prems(5) by simp
    show "\<forall>i \<in> set xs. cl' ! i = cl ! i" using Cons.prems(5) by simp
  qed
  with Cons.prems(3,4) j show ?case by simp
qed

lemma is_chain_unique: "is_chain cl s xs \<Longrightarrow> is_chain cl s ys \<Longrightarrow> xs = ys"
proof (induction xs arbitrary: s ys)
  case Nil
  then show ?case by (cases ys) simp_all
next
  case (Cons j xs)
  then show ?case by (cases ys) auto
qed

lemma init_heads_length: "length (init_heads n cells cl) = length cl"
  by (induction cells arbitrary: cl) simp_all

lemma init_heads_nth:
  "s < length cl \<Longrightarrow>
   init_heads n cells cl ! s = (if s \<in> (\<lambda>c. n + c) ` set cells then LINK_CELL_TERMINATOR else cl ! s)"
proof (induction cells arbitrary: cl)
  case Nil
  then show ?case by simp
next
  case (Cons c cells)
  have "init_heads n (c # cells) cl ! s = init_heads n cells (cl[n + c := LINK_CELL_TERMINATOR]) ! s"
    by simp
  also have "\<dots> = (if s \<in> (\<lambda>c. n + c) ` set cells then LINK_CELL_TERMINATOR
                    else cl[n + c := LINK_CELL_TERMINATOR] ! s)"
    using Cons.prems by (intro Cons.IH) simp
  also have "\<dots> = (if s \<in> (\<lambda>c. n + c) ` set (c # cells) then LINK_CELL_TERMINATOR else cl ! s)"
    using Cons.prems by (auto simp: nth_list_update)
  finally show ?case .
qed

lemma generate_length:
  "generate_cell_list f pts n is cl = Inr cl' \<Longrightarrow> length cl' = length cl"
proof (induction "is" arbitrary: cl)
  case Nil
  then show ?case by simp
next
  case (Cons i "is")
  from Cons.prems have
    "generate_cell_list f pts n is ((cl[i := cl ! (n + f (pts ! i))])[n + f (pts ! i) := i]) = Inr cl'"
    by (simp add: Let_def split: if_splits)
  from Cons.IH [OF this] show ?case by simp
qed

lemma generate_chain:
  assumes "generate_cell_list f pts n (rev [0..<m]) cl = Inr cl'"
    and "length cl = n + Nc" and "m \<le> n" and "n \<le> LINK_CELL_TERMINATOR"
    and "\<forall>c<Nc. is_chain cl (n + c) (filter (\<lambda>i. f (pts ! i) = c) [m..<n])"
  shows "\<forall>c<Nc. is_chain cl' (n + c) (filter (\<lambda>i. f (pts ! i) = c) [0..<n])"
  using assms
proof (induction m arbitrary: cl)
  case 0
  then show ?case by simp
next
  case (Suc m)
  let ?cell = "f (pts ! m)"
  let ?cl1 = "(cl[m := cl ! (n + ?cell)])[n + ?cell := m]"
  have mn: "m < n" using Suc.prems(3) by simp
  from Suc.prems(1) have cell: "n + ?cell < length cl"
    and gen: "generate_cell_list f pts n (rev [0..<m]) ?cl1 = Inr cl'"
    by (simp_all add: Let_def split: if_splits)
  have len1: "length ?cl1 = n + Nc" using Suc.prems(2) by simp
  have upt: "[m..<n] = m # [Suc m..<n]" using mn by (simp add: upt_conv_Cons)
  have inv: "is_chain ?cl1 (n + c) (filter (\<lambda>i. f (pts ! i) = c) [m..<n])" if c: "c < Nc" for c
  proof -
    let ?xs = "filter (\<lambda>i. f (pts ! i) = c) [Suc m..<n]"
    have old: "is_chain cl (n + c) ?xs" using Suc.prems(5) c by simp
    have elems: "\<forall>j \<in> set ?xs. ?cl1 ! j = cl ! j"
      by (auto simp: nth_list_update)
    show ?thesis
    proof (cases "c = ?cell")
      case True
      have "is_chain ?cl1 m ?xs"
      proof (rule is_chain_cong [OF old])
        show "length ?cl1 = length cl" by simp
        show "m < length ?cl1" using mn len1 by simp
        show "?cl1 ! m = cl ! (n + c)" using mn cell True Suc.prems(2) by (simp add: nth_list_update)
        show "\<forall>j \<in> set ?xs. ?cl1 ! j = cl ! j" by (rule elems)
      qed
      moreover have "?cl1 ! (n + ?cell) = m" using cell by simp
      moreover have "m \<noteq> LINK_CELL_TERMINATOR" using mn Suc.prems(4) by simp
      moreover have "n + ?cell < length ?cl1" using cell by simp
      ultimately show ?thesis using True by (simp add: upt)
    next
      case False
      have "is_chain ?cl1 (n + c) ?xs"
      proof (rule is_chain_cong [OF old])
        show "length ?cl1 = length cl" by simp
        show "n + c < length ?cl1" using c len1 by simp
        show "?cl1 ! (n + c) = cl ! (n + c)" using False mn by (simp add: nth_list_update)
        show "\<forall>j \<in> set ?xs. ?cl1 ! j = cl ! j" by (rule elems)
      qed
      with False show ?thesis by (auto simp: upt)
    qed
  qed
  show ?case
    by (rule Suc.IH [OF gen len1 _ Suc.prems(4)]) (use mn inv in simp_all)
qed


lemma updateInternal_keeps:
  assumes "updateInternal npd box w lc = Inr lc'"
  shows "m_points lc' = m_points lc" "m_n_points lc' = m_n_points lc"
  using assms by (auto simp: updateInternal_def Let_def split: if_splits)

lemma LinkCell_new_ok:
  assumes new: "LinkCell_new npd getCell box w pts = Inr lc"
    and fits: "length pts + m_Nc lc \<le> LINK_CELL_TERMINATOR"
  shows "\<exists>cell_of. cell_list_ok cell_of lc" and "m_points lc = pts"
    and "m_cell_width lc = w" and "m_box lc = box"
proof -
  obtain lc1 where u: "updateInternal npd box w (LinkCell_init box pts) = Inr lc1"
    and c: "computeCellList npd getCell box pts lc1 = Inr lc"
    using new by (cases "updateInternal npd box w (LinkCell_init box pts)")
      (simp_all add: LinkCell_new_def)
  have k: "m_points lc1 = pts" "m_n_points lc1 = 0"
    using updateInternal_keeps [OF u] by (simp_all add: LinkCell_init_def)
  have ub: "updateBox npd box lc1 = Inr lc1"
    by (rule updateBox_after_updateInternal [OF u])
  define n where "n = length pts"
  define Nc where "Nc = getNumCells lc1"
  define lc2 where "lc2 = lc1\<lparr>m_n_points := n, m_Nc := Nc\<rparr>"
  define cl where "cl = init_heads n [0..<Nc] (replicate (n + Nc) 0)"
  have eq: "computeCellList npd getCell box pts lc1 =
      (if n = 0 then Inl EmptyPointSet
       else case generate_cell_list (getCell lc2) pts n (rev [0..<n]) cl of
              Inl e \<Rightarrow> Inl e | Inr cl' \<Rightarrow> Inr (lc2\<lparr>m_cell_list := cl'\<rparr>))"
    unfolding computeCellList_def ub
    by (simp add: Let_def k n_def Nc_def lc2_def cl_def split: sum.split)
  from c eq have n0: "n \<noteq> 0" by (simp split: if_splits)
  with c eq obtain cl' where
    gen: "generate_cell_list (getCell lc2) pts n (rev [0..<n]) cl = Inr cl'"
    and lc: "lc = lc2\<lparr>m_cell_list := cl'\<rparr>"
    by (cases "generate_cell_list (getCell lc2) pts n (rev [0..<n]) cl") simp_all
  have f: "m_points lc = pts" "m_n_points lc = n" "m_Nc lc = Nc" "m_cell_list lc = cl'"
    by (simp_all add: lc lc2_def k)
  have len: "length cl = n + Nc"
    by (simp add: cl_def init_heads_length)
  have heads: "\<forall>c<Nc. is_chain cl (n + c) (filter (\<lambda>i. getCell lc2 (pts ! i) = c) [n..<n])"
    using len by (simp add: cl_def init_heads_nth init_heads_length)
  have nT: "n \<le> LINK_CELL_TERMINATOR" using fits by (simp add: n_def)
  have chains: "\<forall>c<Nc. is_chain cl' (n + c) (filter (\<lambda>i. getCell lc2 (pts ! i) = c) [0..<n])"
    by (rule generate_chain [OF gen len _ nT heads]) simp
  have "cell_list_ok (getCell lc2) lc"
    unfolding cell_list_ok_def cell_members_def f
    using chains fits generate_length [OF gen] len by (simp add: n_def f)
  then show "\<exists>cell_of. cell_list_ok cell_of lc" by blast
  show "m_points lc = pts" by (rule f)
  show "m_cell_width lc = w" "m_box lc = box"
    using updateInternal_cached [OF u] by (simp_all add: lc lc2_def)
qed

section \<open>The shell iterator\<close>

lemma shell_offsets_nonempty: "shell_offsets d r \<noteq> []"
proof -
  let ?I = "{- int r..int r}"
  have i: "(0::int) \<in> ?I" "int r \<in> ?I" by simp_all
  have x: "Vec3 (int r) y z \<in> (\<lambda>x. Vec3 x y z) ` ?I" for y z :: int
    using i(2) by (rule image_eqI [rotated]) simp
  have "Vec3 (int r) 0 0 \<in> set (shell_offsets d r)"
    unfolding shell_offsets_def
    by (cases d) (auto simp: cheb_def intro!: bexI [OF _ i(1)] x)
  then show ?thesis by auto
qed

lemma shell_offsets_pos: "0 < length (shell_offsets d r)"
  using shell_offsets_nonempty [of d r] by simp

lemma sum_lessThan_mono:
  fixes f :: "nat \<Rightarrow> nat"
  shows "a \<le> b \<Longrightarrow> (\<Sum>i<a. f i) \<le> (\<Sum>i<b. f i)"
  by (rule sum_mono2) auto

lemma shell_new_sel:
  "m_range (IteratorCellShell_new r d) = r" "m_pos (IteratorCellShell_new r d) = 0"
  "m_is2D (IteratorCellShell_new r d) = d"
  by (simp_all add: IteratorCellShell_new_def)

lemma shell_valid_new: "shell_valid (IteratorCellShell_new r d)"
  by (simp add: shell_valid_def shell_new_sel shell_offsets_nonempty)

lemma shell_rank_new:
  "shell_rank (IteratorCellShell_new r d) = (\<Sum>i<r. length (shell_offsets d i))"
  by (simp add: shell_rank_def shell_new_sel)

lemma shell_incr_props:
  assumes "shell_valid sh"
  shows "shell_valid (shell_incr sh)" and "shell_rank (shell_incr sh) = Suc (shell_rank sh)"
    and "m_is2D (shell_incr sh) = m_is2D sh" and "m_range sh \<le> m_range (shell_incr sh)"
proof -
  let ?n = "length (shell_offsets (m_is2D sh) (m_range sh))"
  have p: "m_pos sh < ?n" using assms by (simp add: shell_valid_def)
  show "shell_valid (shell_incr sh)"
    by (simp add: shell_incr_def shell_valid_def shell_offsets_nonempty)
  show "shell_rank (shell_incr sh) = Suc (shell_rank sh)"
  proof (cases "m_pos sh + 1 < ?n")
    case True
    then show ?thesis by (simp add: shell_incr_def shell_rank_def)
  next
    case False
    with p have "Suc (m_pos sh) = ?n" by simp
    with False show ?thesis by (simp add: shell_incr_def shell_rank_def)
  qed
  show "m_is2D (shell_incr sh) = m_is2D sh" by (simp add: shell_incr_def)
  show "m_range sh \<le> m_range (shell_incr sh)" by (simp add: shell_incr_def)
qed

lemma shell_rank_lt:
  assumes "shell_valid sh" and "m_range sh < R"
  shows "shell_rank sh < shell_rank (IteratorCellShell_new R (m_is2D sh))"
proof -
  let ?L = "\<lambda>i. length (shell_offsets (m_is2D sh) i)"
  have "shell_rank sh < (\<Sum>i<m_range sh. ?L i) + ?L (m_range sh)"
    using assms(1) by (simp add: shell_rank_def shell_valid_def)
  also have "\<dots> = (\<Sum>i<Suc (m_range sh). ?L i)" by simp
  also have "\<dots> \<le> (\<Sum>i<R. ?L i)" using assms(2) by (intro sum_lessThan_mono) simp
  finally show ?thesis by (simp add: shell_rank_new)
qed

lemma shell_rank_ge:
  assumes "R \<le> m_range sh"
  shows "shell_rank (IteratorCellShell_new R (m_is2D sh)) \<le> shell_rank sh"
proof -
  have "(\<Sum>i<R. length (shell_offsets (m_is2D sh) i))
          \<le> (\<Sum>i<m_range sh. length (shell_offsets (m_is2D sh) i))"
    using assms by (rule sum_lessThan_mono)
  then show ?thesis by (simp add: shell_rank_new) (simp add: shell_rank_def)
qed

lemma shell_rank_gt:
  assumes "R < m_range sh"
  shows "shell_rank (IteratorCellShell_new R (m_is2D sh)) < shell_rank sh"
proof -
  let ?L = "\<lambda>i. length (shell_offsets (m_is2D sh) i)"
  have "(\<Sum>i<R. ?L i) < (\<Sum>i<R. ?L i) + ?L R" using shell_offsets_pos by simp
  also have "\<dots> = (\<Sum>i<Suc R. ?L i)" by simp
  also have "\<dots> \<le> (\<Sum>i<m_range sh. ?L i)" using assms by (intro sum_lessThan_mono) simp
  finally show ?thesis by (simp add: shell_rank_new) (simp add: shell_rank_def)
qed

lemma shell_rank_eq_new:
  assumes "shell_valid sh" and "shell_rank sh = shell_rank (IteratorCellShell_new R (m_is2D sh))"
  shows "sh = IteratorCellShell_new R (m_is2D sh)"
proof -
  have "\<not> m_range sh < R" using shell_rank_lt [OF assms(1)] assms(2) by auto
  moreover have "\<not> R < m_range sh" using shell_rank_gt [of R sh] assms(2) by auto
  ultimately have r: "m_range sh = R" by simp
  with assms(2) have "m_pos sh = 0" by (simp add: shell_rank_new) (simp add: shell_rank_def)
  with r show ?thesis by (simp add: IteratorCellShell_new_def)
qed

section \<open>The ball iterator returns\<close>

lemma next_in_chain:
  assumes "s < length (m_cell_list lc)" and "m_cur_idx ci = s"
  shows "IteratorLinkCell_next lc ci = Inr (ci\<lparr>m_cur_idx := m_cell_list lc ! s\<rparr>)"
  using assms by (simp add: IteratorLinkCell_next_def)

lemma ball_members_total:
  assumes "is_chain (m_cell_list lc) (m_cur_idx (m_cell_iter it)) js"
    and "\<forall>j \<in> set js. j < length (m_points lc)" and "length js < fuel"
  shows "\<exists>r it'. ball_members fuel lc g it = Some (Inr (r, it'))
           \<and> it' = it\<lparr>m_cell_iter := m_cell_iter it'\<rparr>
           \<and> (r = None \<longrightarrow> atEnd (m_cell_iter it'))
           \<and> (r \<noteq> None \<longrightarrow>
                (\<exists>js'. is_chain (m_cell_list lc) (m_cur_idx (m_cell_iter it')) js'
                       \<and> length js' < length js \<and> set js' \<subseteq> set js))"
  using assms
proof (induction js arbitrary: it fuel)
  case Nil
  from Nil.prems(3) obtain f where fuel: "fuel = Suc f" by (cases fuel) simp_all
  let ?ci = "(m_cell_iter it)\<lparr>m_cur_idx := LINK_CELL_TERMINATOR\<rparr>"
  from Nil.prems(1) have nx: "IteratorLinkCell_next lc (m_cell_iter it) = Inr ?ci"
    by (simp add: IteratorLinkCell_next_def)
  have e: "atEnd ?ci" by (simp add: atEnd_def)
  have "ball_members fuel lc g it = Some (Inr (None, it\<lparr>m_cell_iter := ?ci\<rparr>))"
    unfolding fuel ball_members_Suc nx using e by simp
  with e show ?case by simp
next
  case (Cons j js)
  from Cons.prems(3) obtain f where fuel: "fuel = Suc f" and f: "length js < f"
    by (cases fuel) simp_all
  let ?ci = "(m_cell_iter it)\<lparr>m_cur_idx := j\<rparr>"
  let ?it = "it\<lparr>m_cell_iter := ?ci\<rparr>"
  from Cons.prems(1) have j: "j \<noteq> LINK_CELL_TERMINATOR" "is_chain (m_cell_list lc) j js"
    and nx: "IteratorLinkCell_next lc (m_cell_iter it) = Inr ?ci"
    by (simp_all add: IteratorLinkCell_next_def)
  have ne: "\<not> atEnd ?ci" using j(1) by (simp add: atEnd_def)
  have lt: "m_cur_idx ?ci < length (m_points lc)" using Cons.prems(2) by simp
  have cj: "m_cur_idx ?ci = j" by simp
  let ?ok = "rsq_of lc g (m_query_point it) (m_cur_idx ?ci) < m_r it * m_r it
                \<and> (\<not> m_exclude_ii it \<or> m_query_point_idx it \<noteq> m_cur_idx ?ci)"
  have unf: "ball_members fuel lc g it =
      (if ?ok then Some (Inr (Some (NeighborBond3 (m_query_point_idx it) (m_cur_idx ?ci)
                    (sqrt (rsq_of lc g (m_query_point it) (m_cur_idx ?ci)))), ?it))
       else ball_members f lc g ?it)"
    unfolding fuel ball_members_Suc nx
    by (simp only: sum.case if_not_P [OF ne] if_P [OF lt])
  have ch: "is_chain (m_cell_list lc) (m_cur_idx (m_cell_iter ?it)) js"
    using j(2) by simp
  show ?case
  proof (cases ?ok)
    case True
    have "ball_members fuel lc g it =
        Some (Inr (Some (NeighborBond3 (m_query_point_idx it) (m_cur_idx ?ci)
                    (sqrt (rsq_of lc g (m_query_point it) (m_cur_idx ?ci)))), ?it))"
      unfolding unf by (rule if_P [OF True])
    moreover have "?it = it\<lparr>m_cell_iter := m_cell_iter ?it\<rparr>" by simp
    moreover have "length js < length (j # js)" "set js \<subseteq> set (j # js)" by auto
    ultimately show ?thesis using ch by blast
  next
    case False
    have step: "ball_members fuel lc g it = ball_members f lc g ?it"
      unfolding unf by (rule if_not_P [OF False])
    from Cons.prems(2) have "\<forall>i \<in> set js. i < length (m_points lc)" by simp
    from Cons.IH [OF ch this f]
    obtain r it' where r: "ball_members f lc g ?it = Some (Inr (r, it'))"
      "it' = ?it\<lparr>m_cell_iter := m_cell_iter it'\<rparr>"
      "r = None \<longrightarrow> atEnd (m_cell_iter it')"
      "r \<noteq> None \<longrightarrow>
                (\<exists>js'. is_chain (m_cell_list lc) (m_cur_idx (m_cell_iter it')) js'
                       \<and> length js' < length js \<and> set js' \<subseteq> set js)"
      by blast
    from r(2) have "it' = it\<lparr>m_cell_iter := m_cell_iter it'\<rparr>" by simp
    moreover from r(4) have "r \<noteq> None \<longrightarrow>
                (\<exists>js'. is_chain (m_cell_list lc) (m_cur_idx (m_cell_iter it')) js'
                       \<and> length js' < length (j # js) \<and> set js' \<subseteq> set (j # js))"
      by auto
    ultimately show ?thesis using r(1,3) step by metis
  qed
qed

lemma out_of_range_cong:
  "ball_consts it' = ball_consts it \<Longrightarrow> out_of_range lc it' sh = out_of_range lc it sh"
  by (simp add: out_of_range_def ball_consts_def)

lemma far_shell_cong:
  "ball_consts it' = ball_consts it \<Longrightarrow> far_shell lc it' R = far_shell lc it R"
  by (simp add: far_shell_def out_of_range_def ball_consts_def)

lemma ball_advance_total:
  assumes "shell_valid (m_neigh_cell_iter it)" and "far_shell lc it R"
    and "shells_left R (m_neigh_cell_iter it) < fuel"
  shows "\<exists>r it'. ball_advance fuel lc g it = Some (r, it')
     \<and> shell_valid (m_neigh_cell_iter it')
     \<and> m_is2D (m_neigh_cell_iter it') = m_is2D (m_neigh_cell_iter it)
     \<and> shell_rank (m_neigh_cell_iter it) < shell_rank (m_neigh_cell_iter it')
     \<and> ball_consts it' = ball_consts it
     \<and> (r \<longrightarrow> m_cell_iter it' = m_cell_iter it \<and> out_of_range lc it (m_neigh_cell_iter it'))
     \<and> (\<not> r \<longrightarrow> \<not> out_of_range lc it (m_neigh_cell_iter it')
            \<and> m_cell_iter it' = itercell lc (offset_cell g (m_query_point it)
                                              (m_neigh_cell_iter it')))"
  using assms
proof (induction fuel arbitrary: it)
  case 0
  then show ?case by simp
next
  case (Suc f)
  let ?sh = "m_neigh_cell_iter it"
  let ?sh' = "shell_incr ?sh"
  let ?c = "offset_cell g (m_query_point it) ?sh'"
  let ?it1 = "it\<lparr>m_neigh_cell_iter := ?sh'\<rparr>"
  note sp = shell_incr_props [OF Suc.prems(1)]
  have rk: "shell_rank ?sh < shell_rank ?sh'" using sp(2) by simp
  have unf: "ball_advance (Suc f) lc g it =
        (if out_of_range lc it ?sh' then Some (True, ?it1)
         else if ?c \<notin> m_searched_cells it
         then Some (False, it\<lparr>m_neigh_cell_iter := ?sh',
               m_searched_cells := insert ?c (m_searched_cells it),
               m_cell_iter := itercell lc ?c\<rparr>)
         else ball_advance f lc g ?it1)"
    by (simp add: ball_advance_Suc Let_def)
  show ?case
  proof (cases "out_of_range lc it ?sh'")
    case True
    have "ball_advance (Suc f) lc g it = Some (True, ?it1)"
      unfolding unf by (rule if_P [OF True])
    moreover have "ball_consts ?it1 = ball_consts it" by (simp add: ball_consts_def)
    ultimately have "ball_advance (Suc f) lc g it = Some (True, ?it1)
     \<and> shell_valid (m_neigh_cell_iter ?it1)
     \<and> m_is2D (m_neigh_cell_iter ?it1) = m_is2D (m_neigh_cell_iter it)
     \<and> shell_rank (m_neigh_cell_iter it) < shell_rank (m_neigh_cell_iter ?it1)
     \<and> ball_consts ?it1 = ball_consts it
     \<and> (True \<longrightarrow> m_cell_iter ?it1 = m_cell_iter it \<and> out_of_range lc it (m_neigh_cell_iter ?it1))
     \<and> (\<not> True \<longrightarrow> \<not> out_of_range lc it (m_neigh_cell_iter ?it1)
            \<and> m_cell_iter ?it1 = itercell lc (offset_cell g (m_query_point it)
                                              (m_neigh_cell_iter ?it1)))"
      using sp rk True by simp
    then show ?thesis by blast
  next
    case oor: False
    show ?thesis
    proof (cases "?c \<notin> m_searched_cells it")
      case True
      let ?it2 = "it\<lparr>m_neigh_cell_iter := ?sh',
               m_searched_cells := insert ?c (m_searched_cells it),
               m_cell_iter := itercell lc ?c\<rparr>"
      have "ball_advance (Suc f) lc g it = Some (False, ?it2)"
        unfolding unf using oor True by (simp only: if_False if_True not_False_eq_True)
      moreover have "ball_consts ?it2 = ball_consts it" by (simp add: ball_consts_def)
      ultimately have "ball_advance (Suc f) lc g it = Some (False, ?it2)
     \<and> shell_valid (m_neigh_cell_iter ?it2)
     \<and> m_is2D (m_neigh_cell_iter ?it2) = m_is2D (m_neigh_cell_iter it)
     \<and> shell_rank (m_neigh_cell_iter it) < shell_rank (m_neigh_cell_iter ?it2)
     \<and> ball_consts ?it2 = ball_consts it
     \<and> (False \<longrightarrow> m_cell_iter ?it2 = m_cell_iter it \<and> out_of_range lc it (m_neigh_cell_iter ?it2))
     \<and> (\<not> False \<longrightarrow> \<not> out_of_range lc it (m_neigh_cell_iter ?it2)
            \<and> m_cell_iter ?it2 = itercell lc (offset_cell g (m_query_point it)
                                              (m_neigh_cell_iter ?it2)))"
        using sp rk oor by simp
      then show ?thesis by blast
    next
      case False
      have step: "ball_advance (Suc f) lc g it = ball_advance f lc g ?it1"
        unfolding unf using oor False by (simp only: if_False if_True not_not not_True_eq_False)
      have c1: "ball_consts ?it1 = ball_consts it" by (simp add: ball_consts_def)
      have "\<not> R \<le> m_range ?sh'"
        using oor Suc.prems(2) by (auto simp: far_shell_def)
      then have "shell_rank ?sh' < shell_rank (IteratorCellShell_new R (m_is2D ?sh'))"
        using shell_rank_lt [OF sp(1)] by simp
      then have left: "shells_left R (m_neigh_cell_iter ?it1) < f"
        using Suc.prems(3) sp(2,3) by (simp add: shells_left_def)
      have v1: "shell_valid (m_neigh_cell_iter ?it1)" using sp(1) by simp
      have f1: "far_shell lc ?it1 R" using Suc.prems(2) far_shell_cong [OF c1] by simp
      from Suc.IH [OF v1 f1 left]
      obtain r it' where r: "ball_advance f lc g ?it1 = Some (r, it')"
        "shell_valid (m_neigh_cell_iter it')"
        "m_is2D (m_neigh_cell_iter it') = m_is2D (m_neigh_cell_iter ?it1)"
        "shell_rank (m_neigh_cell_iter ?it1) < shell_rank (m_neigh_cell_iter it')"
        "ball_consts it' = ball_consts ?it1"
        "r \<longrightarrow> m_cell_iter it' = m_cell_iter ?it1 \<and> out_of_range lc ?it1 (m_neigh_cell_iter it')"
        "\<not> r \<longrightarrow> \<not> out_of_range lc ?it1 (m_neigh_cell_iter it')
            \<and> m_cell_iter it' = itercell lc (offset_cell g (m_query_point ?it1)
                                              (m_neigh_cell_iter it'))"
        by blast
      have "ball_advance (Suc f) lc g it = Some (r, it')" using step r(1) by simp
      moreover have "m_is2D (m_neigh_cell_iter it') = m_is2D ?sh" using r(3) sp(3) by simp
      moreover have "shell_rank ?sh < shell_rank (m_neigh_cell_iter it')" using r(4) rk by simp
      moreover have "ball_consts it' = ball_consts it" using r(5) c1 by simp
      moreover have "r \<longrightarrow> m_cell_iter it' = m_cell_iter it
                         \<and> out_of_range lc it (m_neigh_cell_iter it')"
        using r(6) out_of_range_cong [OF c1] by simp
      moreover have "\<not> r \<longrightarrow> \<not> out_of_range lc it (m_neigh_cell_iter it')
            \<and> m_cell_iter it' = itercell lc (offset_cell g (m_query_point it)
                                              (m_neigh_cell_iter it'))"
        using r(7) out_of_range_cong [OF c1] by simp
      ultimately show ?thesis using r(2) by blast
    qed
  qed
qed

lemma cell_members_bounds:
  "\<forall>j \<in> set (cell_members cell_of pts c). j < length pts"
  "length (cell_members cell_of pts c) \<le> length pts"
  "distinct (cell_members cell_of pts c)"
proof -
  show "\<forall>j \<in> set (cell_members cell_of pts c). j < length pts"
    by (simp add: cell_members_def)
  have "length (cell_members cell_of pts c) \<le> length [0..<length pts]"
    unfolding cell_members_def by (rule length_filter_le)
  then show "length (cell_members cell_of pts c) \<le> length pts" by simp
  show "distinct (cell_members cell_of pts c)" by (simp add: cell_members_def)
qed

lemma ball_ready_itercell:
  assumes "cell_list_ok cell_of lc" and "c < m_Nc lc" and "shell_valid (m_neigh_cell_iter it)"
    and "m_cell_iter it = itercell lc c"
  shows "ball_ready lc it (cell_members cell_of (m_points lc) c)"
proof -
  from assms(1) have ch: "\<forall>c<m_Nc lc. is_chain (m_cell_list lc) (m_n_points lc + c)
      (cell_members cell_of (m_points lc) c)"
    unfolding cell_list_ok_def by blast
  from ch assms(2) have "is_chain (m_cell_list lc) (m_n_points lc + c)
      (cell_members cell_of (m_points lc) c)"
    by blast
  then show ?thesis
    using assms(3,4) cell_members_bounds(1,2) [of cell_of "m_points lc" c]
    by (simp add: ball_ready_def itercell_def)
qed

lemma shells_left_step:
  assumes "shell_valid sh'" and "m_is2D sh' = m_is2D sh" and "shell_rank sh < shell_rank sh'"
    and "m_range sh' < R"
  shows "Suc (shells_left R sh') \<le> shells_left R sh"
  using shell_rank_lt [OF assms(1,4)] assms(2,3) by (simp add: shells_left_def)

lemma ball_loop_total:
  assumes ok: "cell_list_ok cell_of lc" and g: "geometry_ok g lc"
  shows "far_shell lc it R \<Longrightarrow> ball_ready lc it js
    \<Longrightarrow> shells_left R (m_neigh_cell_iter it) + length (m_points lc) + 2 \<le> fuel
    \<Longrightarrow> \<exists>res it'. ball_loop fuel lc g it = Some (Inr (res, it'))
      \<and> ball_consts it' = ball_consts it
      \<and> m_is2D (m_neigh_cell_iter it') = m_is2D (m_neigh_cell_iter it)
      \<and> (res = EXHAUSTED \<longrightarrow> m_finished it' \<and> atEnd (m_cell_iter it')
            \<and> out_of_range lc it (m_neigh_cell_iter it'))
      \<and> (res \<noteq> EXHAUSTED \<longrightarrow>
            (\<exists>js'. ball_ready lc it' js' \<and> ball_measure lc R it' js' < ball_measure lc R it js))"
proof (induction fuel arbitrary: it js)
  case 0
  then show ?case by simp
next
  case (Suc f)
  let ?n = "length (m_points lc)"
  let ?sh = "m_neigh_cell_iter it"
  from Suc.prems(2) have rd: "shell_valid ?sh"
    "is_chain (m_cell_list lc) (m_cur_idx (m_cell_iter it)) js"
    "\<forall>j \<in> set js. j < ?n" "length js \<le> ?n"
    by (simp_all add: ball_ready_def)
  from Suc.prems(3) have f: "shells_left R ?sh + ?n + 1 \<le> f" by simp
  then have "length js < f" using rd(4) by simp
  from ball_members_total [OF rd(2,3) this, of g]
  obtain r it1 where m: "ball_members f lc g it = Some (Inr (r, it1))"
    and it1: "it1 = it\<lparr>m_cell_iter := m_cell_iter it1\<rparr>"
    and rn: "r = None \<longrightarrow> atEnd (m_cell_iter it1)"
    and rs: "r \<noteq> None \<longrightarrow>
                (\<exists>js'. is_chain (m_cell_list lc) (m_cur_idx (m_cell_iter it1)) js'
                       \<and> length js' < length js \<and> set js' \<subseteq> set js)"
    by blast
  have c1: "ball_consts it1 = ball_consts it" "m_neigh_cell_iter it1 = ?sh"
    by (subst it1, simp add: ball_consts_def)+
  show ?case
  proof (cases r)
    case (Some b)
    with rs obtain js' where js': "is_chain (m_cell_list lc) (m_cur_idx (m_cell_iter it1)) js'"
      "length js' < length js" "set js' \<subseteq> set js"
      by blast
    have "ball_ready lc it1 js'"
      using js' rd c1(2) by (auto simp: ball_ready_def)
    moreover have "ball_measure lc R it1 js' < ball_measure lc R it js"
      using js'(2) c1(2) by (simp add: ball_measure_def)
    moreover have "ball_loop (Suc f) lc g it = Some (Inr (Yield b, it1))"
      by (simp add: ball_loop_Suc m Some)
    ultimately have "ball_loop (Suc f) lc g it = Some (Inr (Yield b, it1))
      \<and> ball_consts it1 = ball_consts it
      \<and> m_is2D (m_neigh_cell_iter it1) = m_is2D (m_neigh_cell_iter it)
      \<and> (Yield b = EXHAUSTED \<longrightarrow> m_finished it1 \<and> atEnd (m_cell_iter it1)
            \<and> out_of_range lc it (m_neigh_cell_iter it1))
      \<and> (Yield b \<noteq> EXHAUSTED \<longrightarrow>
            (\<exists>js'. ball_ready lc it1 js' \<and> ball_measure lc R it1 js' < ball_measure lc R it js))"
      using c1 by auto
    then show ?thesis by blast
  next
    case None
    with rn have e: "atEnd (m_cell_iter it1)" by simp
    have v1: "shell_valid (m_neigh_cell_iter it1)" using rd(1) c1(2) by simp
    have f1: "far_shell lc it1 R" using Suc.prems(1) far_shell_cong [OF c1(1)] by simp
    have l1: "shells_left R (m_neigh_cell_iter it1) < f" using f c1(2) by simp
    from ball_advance_total [OF v1 f1 l1, of g]
    obtain r2 it2 where a: "ball_advance f lc g it1 = Some (r2, it2)"
      and a2: "shell_valid (m_neigh_cell_iter it2)"
        "m_is2D (m_neigh_cell_iter it2) = m_is2D (m_neigh_cell_iter it1)"
        "shell_rank (m_neigh_cell_iter it1) < shell_rank (m_neigh_cell_iter it2)"
        "ball_consts it2 = ball_consts it1"
        "r2 \<longrightarrow> m_cell_iter it2 = m_cell_iter it1 \<and> out_of_range lc it1 (m_neigh_cell_iter it2)"
        "\<not> r2 \<longrightarrow> \<not> out_of_range lc it1 (m_neigh_cell_iter it2)
            \<and> m_cell_iter it2 = itercell lc (offset_cell g (m_query_point it1)
                                              (m_neigh_cell_iter it2))"
      by blast
    have c2: "ball_consts it2 = ball_consts it" using a2(4) c1(1) by simp
    show ?thesis
    proof (cases r2)
      case True
      let ?it' = "it2\<lparr>m_finished := True\<rparr>"
      have "ball_loop (Suc f) lc g it = Some (Inr (EXHAUSTED, ?it'))"
        by (simp add: ball_loop_Suc m None a True)
      moreover have "ball_consts ?it' = ball_consts it"
        using c2 by (simp add: ball_consts_def)
      moreover have "out_of_range lc it (m_neigh_cell_iter ?it')"
        using a2(5) True out_of_range_cong [OF c1(1)] by simp
      moreover have "atEnd (m_cell_iter ?it')" using a2(5) True e by simp
      moreover have "m_is2D (m_neigh_cell_iter ?it') = m_is2D ?sh" using a2(2) c1(2) by simp
      ultimately have "ball_loop (Suc f) lc g it = Some (Inr (EXHAUSTED, ?it'))
        \<and> ball_consts ?it' = ball_consts it
        \<and> m_is2D (m_neigh_cell_iter ?it') = m_is2D (m_neigh_cell_iter it)
        \<and> (EXHAUSTED = EXHAUSTED \<longrightarrow> m_finished ?it' \<and> atEnd (m_cell_iter ?it')
              \<and> out_of_range lc it (m_neigh_cell_iter ?it'))
        \<and> (EXHAUSTED \<noteq> EXHAUSTED \<longrightarrow>
              (\<exists>js'. ball_ready lc ?it' js' \<and> ball_measure lc R ?it' js' < ball_measure lc R it js))"
        by simp
      then show ?thesis by blast
    next
      case False
      let ?c = "offset_cell g (m_query_point it1) (m_neigh_cell_iter it2)"
      let ?js2 = "cell_members cell_of (m_points lc) ?c"
      from a2(6) False have nr: "\<not> out_of_range lc it1 (m_neigh_cell_iter it2)"
        and ci: "m_cell_iter it2 = itercell lc ?c" by simp_all
      have "?c < m_Nc lc" using g by (simp add: geometry_ok_def offset_cell_def)
      from ball_ready_itercell [OF ok this a2(1) ci] have r2: "ball_ready lc it2 ?js2" .
      have "\<not> R \<le> m_range (m_neigh_cell_iter it2)"
        using nr f1 by (auto simp: far_shell_def)
      then have "m_range (m_neigh_cell_iter it2) < R" by simp
      from shells_left_step [OF a2(1) _ _ this, of ?sh] a2(2,3) c1(2)
      have sl: "Suc (shells_left R (m_neigh_cell_iter it2)) \<le> shells_left R ?sh" by simp
      have f2: "far_shell lc it2 R" using Suc.prems(1) far_shell_cong [OF c2] by simp
      have fu: "shells_left R (m_neigh_cell_iter it2) + ?n + 2 \<le> f" using sl f by simp
      from Suc.IH [OF f2 r2 fu]
      obtain res it' where l: "ball_loop f lc g it2 = Some (Inr (res, it'))"
        and l2: "ball_consts it' = ball_consts it2"
          "m_is2D (m_neigh_cell_iter it') = m_is2D (m_neigh_cell_iter it2)"
          "res = EXHAUSTED \<longrightarrow> m_finished it' \<and> atEnd (m_cell_iter it')
              \<and> out_of_range lc it2 (m_neigh_cell_iter it')"
          "res \<noteq> EXHAUSTED \<longrightarrow>
              (\<exists>js'. ball_ready lc it' js' \<and> ball_measure lc R it' js' < ball_measure lc R it2 ?js2)"
        by blast
      have "length ?js2 \<le> ?n" by (rule cell_members_bounds)
      then have "shells_left R (m_neigh_cell_iter it2) * (?n + 1) + length ?js2
                   < Suc (shells_left R (m_neigh_cell_iter it2)) * (?n + 1)" by simp
      also have "\<dots> \<le> shells_left R ?sh * (?n + 1)"
        using sl by (intro mult_le_mono1)
      finally have ms: "ball_measure lc R it2 ?js2 < ball_measure lc R it js"
        by (simp add: ball_measure_def)
      have "ball_loop (Suc f) lc g it = Some (Inr (res, it'))"
        by (simp add: ball_loop_Suc m None a False l)
      moreover have "ball_consts it' = ball_consts it" using l2(1) c2 by simp
      moreover have "m_is2D (m_neigh_cell_iter it') = m_is2D ?sh" using l2(2) a2(2) c1(2) by simp
      moreover have "res = EXHAUSTED \<longrightarrow> m_finished it' \<and> atEnd (m_cell_iter it')
              \<and> out_of_range lc it (m_neigh_cell_iter it')"
        using l2(3) out_of_range_cong [OF c2] by simp
      moreover have "res \<noteq> EXHAUSTED \<longrightarrow>
              (\<exists>js'. ball_ready lc it' js' \<and> ball_measure lc R it' js' < ball_measure lc R it js)"
        using l2(4) ms by (meson less_trans)
      ultimately show ?thesis by blast
    qed
  qed
qed

section \<open>Driving the ball iterator to exhaustion\<close>

lemma far_shell_exists:
  assumes "0 < getCellWidth lc"
  shows "\<exists>R. far_shell lc it R"
proof -
  let ?w = "getCellWidth lc"
  let ?R = "nat (\<lceil>m_r it / ?w\<rceil> + m_extra_search_width it + 1)"
  have "out_of_range lc it sh" if "?R \<le> m_range sh" for sh
  proof -
    from that have "\<lceil>m_r it / ?w\<rceil> + m_extra_search_width it + 1 \<le> int (m_range sh)"
      by linarith
    then have "\<lceil>m_r it / ?w\<rceil> < getRange sh - m_extra_search_width it"
      by (simp add: getRange_def)
    then have "m_r it / ?w < real_of_int (getRange sh - m_extra_search_width it)"
      by (simp add: ceiling_less_iff)
    then show ?thesis
      using assms by (simp add: out_of_range_def pos_divide_less_eq)
  qed
  then show ?thesis unfolding far_shell_def by blast
qed

lemma ball_ready_searched:
  "ball_ready lc (it\<lparr>m_searched_cells := S\<rparr>) js = ball_ready lc it js"
  by (simp add: ball_ready_def)

lemma ball_next_total:
  assumes ok: "cell_list_ok cell_of lc" and g: "geometry_ok g lc"
    and far: "far_shell lc it R" and rd: "ball_ready lc it js"
    and fuel: "shells_left R (m_neigh_cell_iter it) + length (m_points lc) + 2 \<le> fuel"
  shows "\<exists>res it'. ball_next fuel lc g it = Some (Inr (res, it'))
      \<and> ball_consts it' = ball_consts it
      \<and> m_is2D (m_neigh_cell_iter it') = m_is2D (m_neigh_cell_iter it)
      \<and> (res = EXHAUSTED \<longrightarrow> m_finished it' \<and> atEnd (m_cell_iter it')
            \<and> out_of_range lc it (m_neigh_cell_iter it'))
      \<and> (res \<noteq> EXHAUSTED \<longrightarrow>
            (\<exists>js'. ball_ready lc it' js' \<and> ball_measure lc R it' js' < ball_measure lc R it js))"
proof -
  let ?it = "it\<lparr>m_searched_cells :=
      insert (offset_cell g (m_query_point it) (m_neigh_cell_iter it)) (m_searched_cells it)\<rparr>"
  have c: "ball_consts ?it = ball_consts it" by (simp add: ball_consts_def)
  have n: "ball_next fuel lc g it = ball_loop fuel lc g ?it"
    by (simp add: ball_next_def Let_def)
  have far': "far_shell lc ?it R" using far far_shell_cong [OF c] by simp
  have rd': "ball_ready lc ?it js" using rd by (simp add: ball_ready_searched)
  have fuel': "shells_left R (m_neigh_cell_iter ?it) + length (m_points lc) + 2 \<le> fuel"
    using fuel by simp
  have m: "ball_measure lc R ?it js = ball_measure lc R it js" by (simp add: ball_measure_def)
  from ball_loop_total [OF ok g far' rd' fuel']
  obtain res it' where l: "ball_loop fuel lc g ?it = Some (Inr (res, it'))"
    and l2: "ball_consts it' = ball_consts ?it"
      "m_is2D (m_neigh_cell_iter it') = m_is2D (m_neigh_cell_iter ?it)"
      "res = EXHAUSTED \<longrightarrow> m_finished it' \<and> atEnd (m_cell_iter it')
            \<and> out_of_range lc ?it (m_neigh_cell_iter it')"
      "res \<noteq> EXHAUSTED \<longrightarrow>
            (\<exists>js'. ball_ready lc it' js' \<and> ball_measure lc R it' js' < ball_measure lc R ?it js)"
    by blast
  have "ball_next fuel lc g it = Some (Inr (res, it'))" using n l by simp
  moreover have "ball_consts it' = ball_consts it" using l2(1) c by simp
  moreover have "m_is2D (m_neigh_cell_iter it') = m_is2D (m_neigh_cell_iter it)"
    using l2(2) by simp
  moreover have "res = EXHAUSTED \<longrightarrow> m_finished it' \<and> atEnd (m_cell_iter it')
            \<and> out_of_range lc it (m_neigh_cell_iter it')"
    using l2(3) out_of_range_cong [OF c] by simp
  moreover have "res \<noteq> EXHAUSTED \<longrightarrow>
            (\<exists>js'. ball_ready lc it' js' \<and> ball_measure lc R it' js' < ball_measure lc R it js)"
    using l2(4) m by simp
  ultimately show ?thesis by blast
qed

lemma shells_left_le:
  "shells_left R sh \<le> shell_rank (IteratorCellShell_new R (m_is2D sh))"
  by (simp add: shells_left_def)

lemma ball_drive_total:
  assumes ok: "cell_list_ok cell_of lc" and g: "geometry_ok g lc"
  shows "far_shell lc it R \<Longrightarrow> ball_ready lc it js \<Longrightarrow> ball_measure lc R it js \<le> p
    \<Longrightarrow> shell_rank (IteratorCellShell_new R (m_is2D (m_neigh_cell_iter it)))
          + length (m_points lc) + 2 \<le> fuel
    \<Longrightarrow> \<exists>bs it'. drive (Suc p) (ball_next fuel lc g) it = Some (Inr (bs, it'))
          \<and> m_finished it' \<and> atEnd (m_cell_iter it')
          \<and> out_of_range lc it (m_neigh_cell_iter it')"
proof (induction p arbitrary: it js)
  case 0
  have fuel: "shells_left R (m_neigh_cell_iter it) + length (m_points lc) + 2 \<le> fuel"
    using shells_left_le [of R "m_neigh_cell_iter it"] "0.prems"(4) by simp
  from ball_next_total [OF ok g "0.prems"(1,2) fuel]
  obtain res it' where n: "ball_next fuel lc g it = Some (Inr (res, it'))"
    and n2: "res = EXHAUSTED \<longrightarrow> m_finished it' \<and> atEnd (m_cell_iter it')
            \<and> out_of_range lc it (m_neigh_cell_iter it')"
      "res \<noteq> EXHAUSTED \<longrightarrow>
            (\<exists>js'. ball_ready lc it' js' \<and> ball_measure lc R it' js' < ball_measure lc R it js)"
    by blast
  from n2(2) "0.prems"(3) have e: "res = EXHAUSTED" by auto
  have "drive (Suc 0) (ball_next fuel lc g) it = Some (Inr ([], it'))"
    by (simp add: n e)
  with n2(1) e show ?case by blast
next
  case (Suc p)
  have fuel: "shells_left R (m_neigh_cell_iter it) + length (m_points lc) + 2 \<le> fuel"
    using shells_left_le [of R "m_neigh_cell_iter it"] Suc.prems(4) by simp
  from ball_next_total [OF ok g Suc.prems(1,2) fuel]
  obtain res it1 where n: "ball_next fuel lc g it = Some (Inr (res, it1))"
    and n2: "ball_consts it1 = ball_consts it"
      "m_is2D (m_neigh_cell_iter it1) = m_is2D (m_neigh_cell_iter it)"
      "res = EXHAUSTED \<longrightarrow> m_finished it1 \<and> atEnd (m_cell_iter it1)
            \<and> out_of_range lc it (m_neigh_cell_iter it1)"
      "res \<noteq> EXHAUSTED \<longrightarrow>
            (\<exists>js'. ball_ready lc it1 js' \<and> ball_measure lc R it1 js' < ball_measure lc R it js)"
    by blast
  show ?case
  proof (cases res)
    case EXHAUSTED
    have "drive (Suc (Suc p)) (ball_next fuel lc g) it = Some (Inr ([], it1))"
      by (simp add: n EXHAUSTED)
    with n2(3) EXHAUSTED show ?thesis by blast
  next
    case (Yield b)
    with n2(4) obtain js' where js': "ball_ready lc it1 js'"
      "ball_measure lc R it1 js' < ball_measure lc R it js" by auto
    from js'(2) Suc.prems(3) have m: "ball_measure lc R it1 js' \<le> p" by simp
    have far1: "far_shell lc it1 R" using Suc.prems(1) far_shell_cong [OF n2(1)] by simp
    have fu1: "shell_rank (IteratorCellShell_new R (m_is2D (m_neigh_cell_iter it1)))
          + length (m_points lc) + 2 \<le> fuel"
      using Suc.prems(4) n2(2) by simp
    from Suc.IH [OF far1 js'(1) m fu1]
    obtain bs it' where d: "drive (Suc p) (ball_next fuel lc g) it1 = Some (Inr (bs, it'))"
      and d2: "m_finished it'" "atEnd (m_cell_iter it')"
        "out_of_range lc it1 (m_neigh_cell_iter it')"
      by blast
    have "drive (Suc (Suc p)) (ball_next fuel lc g) it = Some (Inr (b # bs, it'))"
      using d by (simp add: drive_Suc [of "Suc p"] n Yield)
    moreover have "out_of_range lc it (m_neigh_cell_iter it')"
      using d2(3) out_of_range_cong [OF n2(1)] by simp
    ultimately show ?thesis using d2(1,2) by blast
  qed
qed

lemma drive_SucE:
  assumes "drive (Suc n) nxt s = Some (Inr (bs, s'))"
  obtains (last) "nxt s = Some (Inr (EXHAUSTED, s'))" "bs = []"
  | (step) b s1 bs' where "nxt s = Some (Inr (Yield b, s1))"
      "drive n nxt s1 = Some (Inr (bs', s'))" "bs = b # bs'"
proof (cases "nxt s")
  case None
  with assms show ?thesis by simp
next
  case (Some a)
  show ?thesis
  proof (cases a)
    case (Inl e)
    with assms Some show ?thesis by simp
  next
    case (Inr p)
    obtain res s1 where p: "p = (res, s1)" by (cases p)
    note nx = Some [unfolded Inr p]
    show ?thesis
    proof (cases res)
      case EXHAUSTED
      with assms nx have "bs = []" "s1 = s'" by simp_all
      with nx EXHAUSTED show ?thesis using last by simp
    next
      case (Yield b)
      show ?thesis
      proof (cases "drive n nxt s1")
        case None
        with assms nx Yield show ?thesis by simp
      next
        case (Some a2)
        show ?thesis
        proof (cases a2)
          case (Inl e)
          with assms nx Yield Some show ?thesis by simp
        next
          case (Inr p2)
          obtain bs' s2 where p2: "p2 = (bs', s2)" by (cases p2)
          from assms nx Yield Some Inr p2 have "bs = b # bs'" "s2 = s'" by simp_all
          with nx Yield Some Inr p2 show ?thesis using step by simp
        qed
      qed
    qed
  qed
qed

lemma ball_members_None:
  "ball_members fuel lc g it = Some (Inr (None, it')) \<Longrightarrow> atEnd (m_cell_iter it')"
proof (induction fuel arbitrary: it)
  case 0
  then show ?case by simp
next
  case (Suc fuel)
  from Suc.prems show ?case
  proof (cases rule: ball_members_SucE)
    case (stop ci)
    from stop(2,4) show ?thesis by simp
  next
    case (hit ci)
    from hit(6) show ?thesis by simp
  next
    case (skip ci)
    from Suc.IH [OF skip(5)] show ?thesis .
  qed
qed

lemma ball_members_shell:
  "ball_members fuel lc g it = Some (Inr (r, it'))
     \<Longrightarrow> m_neigh_cell_iter it' = m_neigh_cell_iter it"
proof (induction fuel arbitrary: it)
  case 0
  then show ?case by simp
next
  case (Suc fuel)
  from Suc.prems show ?case
  proof (cases rule: ball_members_SucE)
    case (stop ci)
    from stop(4) show ?thesis by simp
  next
    case (hit ci)
    from hit(7) show ?thesis by simp
  next
    case (skip ci)
    from Suc.IH [OF skip(5)] show ?thesis by simp
  qed
qed

lemma ball_advance_result:
  "ball_advance fuel lc g it = Some (r, it')
     \<Longrightarrow> (r \<longrightarrow> m_cell_iter it' = m_cell_iter it \<and> out_of_range lc it (m_neigh_cell_iter it'))
          \<and> (\<not> r \<longrightarrow> \<not> out_of_range lc it (m_neigh_cell_iter it'))"
proof (induction fuel arbitrary: it)
  case 0
  then show ?case by simp
next
  case (Suc fuel)
  from Suc.prems show ?case
  proof (cases rule: ball_advance_SucE)
    case out
    from out(1,2,3) show ?thesis by simp
  next
    case new
    from new(1,3,4) show ?thesis by simp
  next
    case seen
    have c: "ball_consts (it\<lparr>m_neigh_cell_iter := shell_incr (m_neigh_cell_iter it)\<rparr>)
               = ball_consts it"
      by (simp add: ball_consts_def)
    from Suc.IH [OF seen(3)] out_of_range_cong [OF c] show ?thesis by simp
  qed
qed

lemma ball_loop_consts:
  "ball_loop fuel lc g it = Some (Inr (res, it')) \<Longrightarrow> ball_consts it' = ball_consts it"
proof (induction fuel arbitrary: it)
  case 0
  then show ?case by simp
next
  case (Suc fuel)
  from Suc.prems show ?case
  proof (cases rule: ball_loop_SucE)
    case (yield b)
    from ball_members_consts [OF yield(1)] show ?thesis .
  next
    case (finish it1 it2)
    have "ball_consts it' = ball_consts it2" using finish(4) by (simp add: ball_consts_def)
    with ball_advance_consts [OF finish(2)] ball_members_consts [OF finish(1)]
    show ?thesis by simp
  next
    case (more it1 it2)
    from Suc.IH [OF more(3)] ball_advance_consts [OF more(2)] ball_members_consts [OF more(1)]
    show ?thesis by simp
  qed
qed

lemma ball_loop_result:
  "ball_loop fuel lc g it = Some (Inr (res, it'))
     \<Longrightarrow> (case res of
           EXHAUSTED \<Rightarrow> m_finished it' \<and> atEnd (m_cell_iter it')
              \<and> out_of_range lc it (m_neigh_cell_iter it')
         | Yield b \<Rightarrow> m_neigh_cell_iter it' = m_neigh_cell_iter it
              \<or> \<not> out_of_range lc it (m_neigh_cell_iter it'))"
proof (induction fuel arbitrary: it)
  case 0
  then show ?case by simp
next
  case (Suc fuel)
  from Suc.prems show ?case
  proof (cases rule: ball_loop_SucE)
    case (yield b)
    from ball_members_shell [OF yield(1)] yield(2) show ?thesis by simp
  next
    case (finish it1 it2)
    have o: "out_of_range lc it1 sh = out_of_range lc it sh" for sh
      by (rule out_of_range_cong [OF ball_members_consts [OF finish(1)]])
    from ball_advance_result [OF finish(2)] ball_members_None [OF finish(1)] finish(3,4) o
    show ?thesis by simp
  next
    case (more it1 it2)
    have o1: "out_of_range lc it1 sh = out_of_range lc it sh" for sh
      by (rule out_of_range_cong [OF ball_members_consts [OF more(1)]])
    have o2: "out_of_range lc it2 sh = out_of_range lc it1 sh" for sh
      by (rule out_of_range_cong [OF ball_advance_consts [OF more(2)]])
    from ball_advance_result [OF more(2)] have "\<not> out_of_range lc it (m_neigh_cell_iter it2)"
      using o1 by simp
    with Suc.IH [OF more(3)] o1 o2 show ?thesis
      by (cases res) auto
  qed
qed

lemma ball_next_unfold:
  "ball_next fuel lc g it = ball_loop fuel lc g (it\<lparr>m_searched_cells :=
      insert (offset_cell g (m_query_point it) (m_neigh_cell_iter it)) (m_searched_cells it)\<rparr>)"
  by (simp add: ball_next_def Let_def)

lemma ball_next_consts:
  "ball_next fuel lc g it = Some (Inr (res, it')) \<Longrightarrow> ball_consts it' = ball_consts it"
  unfolding ball_next_unfold by (drule ball_loop_consts) (simp add: ball_consts_def)

lemma ball_next_result:
  assumes "ball_next fuel lc g it = Some (Inr (res, it'))"
  shows "case res of
           EXHAUSTED \<Rightarrow> m_finished it' \<and> atEnd (m_cell_iter it')
              \<and> out_of_range lc it (m_neigh_cell_iter it')
         | Yield b \<Rightarrow> m_neigh_cell_iter it' = m_neigh_cell_iter it
              \<or> \<not> out_of_range lc it (m_neigh_cell_iter it')"
proof -
  let ?it = "it\<lparr>m_searched_cells :=
      insert (offset_cell g (m_query_point it) (m_neigh_cell_iter it)) (m_searched_cells it)\<rparr>"
  have c: "ball_consts ?it = ball_consts it" by (simp add: ball_consts_def)
  from ball_loop_result [OF assms [unfolded ball_next_unfold]] out_of_range_cong [OF c]
  show ?thesis by (cases res) simp_all
qed

lemma ball_next_at_end:
  assumes "atEnd (m_cell_iter it)" and "length (m_cell_list lc) \<le> LINK_CELL_TERMINATOR"
  shows "ball_next (Suc (Suc fuel)) lc g it = Some (Inl OutOfRange)"
proof -
  have "IteratorLinkCell_next lc (m_cell_iter it) = Inl OutOfRange"
    using assms by (simp add: IteratorLinkCell_next_def atEnd_def)
  then show ?thesis
    by (simp add: ball_next_unfold ball_loop_Suc ball_members_Suc)
qed

lemma ball_drive_accepted:
  "drive n (ball_next fuel lc g) it = Some (Inr (bs, it')) \<Longrightarrow> \<forall>b \<in> set bs. accepted lc g it b"
proof (induction n arbitrary: it bs)
  case 0
  then show ?case by simp
next
  case (Suc n)
  from Suc.prems show ?case
  proof (cases rule: drive_SucE)
    case last
    then show ?thesis by simp
  next
    case (step b it1 bs')
    let ?it = "it\<lparr>m_searched_cells :=
      insert (offset_cell g (m_query_point it) (m_neigh_cell_iter it)) (m_searched_cells it)\<rparr>"
    have "accepted lc g ?it b"
      by (rule ball_loop_accepted [OF step(1) [unfolded ball_next_unfold]])
    then have b: "accepted lc g it b" by (simp add: accepted_def)
    from accepted_cong [OF ball_next_consts [OF step(1)]] Suc.IH [OF step(2)]
    have "\<forall>b \<in> set bs'. accepted lc g it b" by simp
    with b step(3) show ?thesis by simp
  qed
qed

lemma ball_init_ready:
  assumes "cell_list_ok cell_of lc" and "geometry_ok g lc"
  shows "\<exists>js. ball_ready lc (ball_init lc g q qidx r excl extra) js"
proof -
  let ?it = "ball_init lc g q qidx r excl extra"
  let ?c = "offset_cell g q (IteratorCellShell_new 0 (is2D (m_box lc)))"
  have "?c < m_Nc lc" using assms(2) by (simp add: geometry_ok_def offset_cell_def)
  moreover have "shell_valid (m_neigh_cell_iter ?it)"
    by (simp add: ball_init_def shell_valid_new)
  moreover have "m_cell_iter ?it = itercell lc ?c" by (simp add: ball_init_def)
  ultimately show ?thesis using ball_ready_itercell [OF assms(1)] by blast
qed

lemma ball_terminates:
  assumes ok: "cell_list_ok cell_of lc" and g: "geometry_ok g lc" and w: "0 < getCellWidth lc"
  shows "\<exists>n F. \<forall>fuel \<ge> F. \<exists>bs it'.
           drive n (ball_next fuel lc g) (ball_init lc g q qidx r excl extra)
             = Some (Inr (bs, it'))
           \<and> m_finished it' \<and> atEnd (m_cell_iter it')
           \<and> out_of_range lc (ball_init lc g q qidx r excl extra) (m_neigh_cell_iter it')"
proof -
  let ?it = "ball_init lc g q qidx r excl extra"
  from far_shell_exists [OF w, of ?it] obtain R where far: "far_shell lc ?it R" ..
  from ball_init_ready [OF ok g] obtain js where rd: "ball_ready lc ?it js" ..
  from ball_drive_total [OF ok g far rd le_refl] show ?thesis by blast
qed

lemma ex_geometry_ok: "geometry_ok ex_geometry ex_lc"
proof -
  have "nat (z mod 1) * 25 + nat (y mod 5) * 5 + nat (x mod 5) < 25" for x y z :: int
  proof -
    have "nat (y mod 5) \<le> 4" "nat (x mod 5) \<le> 4"
      using pos_mod_bound [of 5 y] pos_mod_bound [of 5 x] by linarith+
    then show ?thesis by simp
  qed
  then show ?thesis
    by (simp add: geometry_ok_def ex_geometry_def ortho_geometry_def ex_lc_fields)
qed

lemma ex_cell_list_ok: "\<exists>cell_of. cell_list_ok cell_of ex_lc"
  by (rule LinkCell_new_ok(1) [OF ex_lc_built])
     (simp add: ex_points_def ex_lc_fields LINK_CELL_TERMINATOR_def)

text \<open>
  C6 fails on the code in its last part. On the example, a ball query of radius 1 driven
  until \<^verbatim>\<open>next()\<close> returns the terminator ends finished, with the next shell out of range;
  one more call of \<^verbatim>\<open>next()\<close> advances the cell iterator, which stands at the sentinel,
  and reads the cell list outside its bounds instead of returning the terminator again.
\<close>

theorem ball_next_after_EXHAUSTED:
  "\<exists>n fuel bs it'.
      drive n (ball_next (Suc (Suc fuel)) ex_lc ex_geometry) ex_ball = Some (Inr (bs, it'))
      \<and> m_finished it' \<and> out_of_range ex_lc ex_ball (m_neigh_cell_iter it')
      \<and> ball_next (Suc (Suc fuel)) ex_lc ex_geometry it' = Some (Inl OutOfRange)"
proof -
  from ex_cell_list_ok obtain cell_of where ok: "cell_list_ok cell_of ex_lc" ..
  have w: "0 < getCellWidth ex_lc" by (simp add: ex_lc_fields)
  from ball_terminates [OF ok ex_geometry_ok w, of ex_query 3 1 False 1]
  obtain n F where t: "\<forall>fuel \<ge> F. \<exists>bs it'.
           drive n (ball_next fuel ex_lc ex_geometry) ex_ball = Some (Inr (bs, it'))
           \<and> m_finished it' \<and> atEnd (m_cell_iter it')
           \<and> out_of_range ex_lc ex_ball (m_neigh_cell_iter it')"
    unfolding ex_ball_def by blast
  have "F \<le> Suc (Suc F)" by simp
  with t obtain bs it' where
    d: "drive n (ball_next (Suc (Suc F)) ex_lc ex_geometry) ex_ball = Some (Inr (bs, it'))"
    "m_finished it'" "atEnd (m_cell_iter it')"
    "out_of_range ex_lc ex_ball (m_neigh_cell_iter it')"
    by blast
  have "length (m_cell_list ex_lc) \<le> LINK_CELL_TERMINATOR"
    by (simp add: ex_lc_fields LINK_CELL_TERMINATOR_def)
  from ball_next_at_end [OF d(3) this]
  have "ball_next (Suc (Suc F)) ex_lc ex_geometry it' = Some (Inl OutOfRange)" .
  with d show ?thesis by blast
qed

section \<open>The k-nearest iterator returns\<close>

lemma knn_members_Suc:
  "knn_members (Suc fuel) lc g it =
     (case IteratorLinkCell_next lc (m_cell_iter it) of
        Inl e \<Rightarrow> Some (Inl e)
      | Inr ci \<Rightarrow>
          if atEnd ci then Some (Inr (it\<lparr>m_cell_iter := ci\<rparr>))
          else if \<not> eligible it (m_cur_idx ci)
          then knn_members fuel lc g (it\<lparr>m_cell_iter := ci\<rparr>)
          else if m_cur_idx ci < length (m_points lc) then
            knn_members fuel lc g
              (it\<lparr>m_cell_iter := ci,
                  m_current_neighbors := m_current_neighbors it @ [knn_bond lc g it (m_cur_idx ci)]\<rparr>)
          else Some (Inl OutOfRange))"
  by (simp add: Let_def eligible_def knn_bond_def split: sum.split)

lemma knn_members_total:
  assumes "is_chain (m_cell_list lc) (m_cur_idx (m_cell_iter it)) js"
    and "\<forall>j \<in> set js. j < length (m_points lc)" and "length js < fuel"
  shows "\<exists>it'. knn_members fuel lc g it = Some (Inr it')
           \<and> atEnd (m_cell_iter it')
           \<and> it' = it\<lparr>m_cell_iter := m_cell_iter it',
                        m_current_neighbors := m_current_neighbors it'\<rparr>
           \<and> m_current_neighbors it'
                = m_current_neighbors it @ map (knn_bond lc g it) (filter (eligible it) js)"
  using assms
proof (induction js arbitrary: it fuel)
  case Nil
  from Nil.prems(3) obtain f where fuel: "fuel = Suc f" by (cases fuel) simp_all
  let ?ci = "(m_cell_iter it)\<lparr>m_cur_idx := LINK_CELL_TERMINATOR\<rparr>"
  from Nil.prems(1) have nx: "IteratorLinkCell_next lc (m_cell_iter it) = Inr ?ci"
    by (simp add: IteratorLinkCell_next_def)
  have e: "atEnd ?ci" by (simp add: atEnd_def)
  have "knn_members fuel lc g it = Some (Inr (it\<lparr>m_cell_iter := ?ci\<rparr>))"
    unfolding fuel knn_members_Suc nx using e by simp
  with e show ?case by simp
next
  case (Cons j js)
  from Cons.prems(3) obtain f where fuel: "fuel = Suc f" and f: "length js < f"
    by (cases fuel) simp_all
  let ?ci = "(m_cell_iter it)\<lparr>m_cur_idx := j\<rparr>"
  from Cons.prems(1) have j: "j \<noteq> LINK_CELL_TERMINATOR" "is_chain (m_cell_list lc) j js"
    and nx: "IteratorLinkCell_next lc (m_cell_iter it) = Inr ?ci"
    by (simp_all add: IteratorLinkCell_next_def)
  have ne: "\<not> atEnd ?ci" using j(1) by (simp add: atEnd_def)
  have lt: "m_cur_idx ?ci < length (m_points lc)" using Cons.prems(2) by simp
  from Cons.prems(2) have bnd: "\<forall>i \<in> set js. i < length (m_points lc)" by simp
  have unf: "knn_members fuel lc g it =
      (if \<not> eligible it (m_cur_idx ?ci) then knn_members f lc g (it\<lparr>m_cell_iter := ?ci\<rparr>)
       else knn_members f lc g
              (it\<lparr>m_cell_iter := ?ci,
                  m_current_neighbors := m_current_neighbors it @ [knn_bond lc g it (m_cur_idx ?ci)]\<rparr>))"
    unfolding fuel knn_members_Suc nx
    by (simp only: sum.case if_not_P [OF ne] if_P [OF lt])
  show ?case
  proof (cases "eligible it j")
    case False
    let ?it = "it\<lparr>m_cell_iter := ?ci\<rparr>"
    have step: "knn_members fuel lc g it = knn_members f lc g ?it"
      unfolding unf using False by simp
    have ch: "is_chain (m_cell_list lc) (m_cur_idx (m_cell_iter ?it)) js" using j(2) by simp
    have el: "eligible ?it = eligible it" "knn_bond lc g ?it = knn_bond lc g it"
      by (simp_all add: eligible_def knn_bond_def fun_eq_iff)
    from Cons.IH [OF ch bnd f]
    obtain it' where r: "knn_members f lc g ?it = Some (Inr it')" "atEnd (m_cell_iter it')"
      "it' = ?it\<lparr>m_cell_iter := m_cell_iter it', m_current_neighbors := m_current_neighbors it'\<rparr>"
      "m_current_neighbors it'
         = m_current_neighbors ?it @ map (knn_bond lc g ?it) (filter (eligible ?it) js)"
      by blast
    from r(3) have "it' = it\<lparr>m_cell_iter := m_cell_iter it',
                        m_current_neighbors := m_current_neighbors it'\<rparr>" by simp
    moreover from r(4) False have "m_current_neighbors it'
         = m_current_neighbors it @ map (knn_bond lc g it) (filter (eligible it) (j # js))"
      by (simp add: el)
    ultimately show ?thesis using r(1,2) step by metis
  next
    case True
    let ?it = "it\<lparr>m_cell_iter := ?ci,
                  m_current_neighbors := m_current_neighbors it @ [knn_bond lc g it j]\<rparr>"
    have step: "knn_members fuel lc g it = knn_members f lc g ?it"
      unfolding unf using True by simp
    have ch: "is_chain (m_cell_list lc) (m_cur_idx (m_cell_iter ?it)) js" using j(2) by simp
    have el: "eligible ?it = eligible it" "knn_bond lc g ?it = knn_bond lc g it"
      by (simp_all add: eligible_def knn_bond_def fun_eq_iff)
    from Cons.IH [OF ch bnd f]
    obtain it' where r: "knn_members f lc g ?it = Some (Inr it')" "atEnd (m_cell_iter it')"
      "it' = ?it\<lparr>m_cell_iter := m_cell_iter it', m_current_neighbors := m_current_neighbors it'\<rparr>"
      "m_current_neighbors it'
         = m_current_neighbors ?it @ map (knn_bond lc g ?it) (filter (eligible ?it) js)"
      by blast
    from r(3) have "it' = it\<lparr>m_cell_iter := m_cell_iter it',
                        m_current_neighbors := m_current_neighbors it'\<rparr>" by simp
    moreover from r(4) True have "m_current_neighbors it'
         = m_current_neighbors it @ map (knn_bond lc g it) (filter (eligible it) (j # js))"
      by (simp add: el)
    ultimately show ?thesis using r(1,2) step by metis
  qed
qed



lemma knn_advance_Suc:
  "knn_advance (Suc fuel) lc g M it =
     (if shell_incr (m_neigh_cell_iter it) = IteratorCellShell_new M (is2D (m_box lc))
      then Some (it\<lparr>m_neigh_cell_iter := shell_incr (m_neigh_cell_iter it)\<rparr>)
      else if offset_cell g (m_query_point it) (shell_incr (m_neigh_cell_iter it))
                \<notin> m_searched_cells it
      then Some (it\<lparr>m_neigh_cell_iter := shell_incr (m_neigh_cell_iter it),
                   m_searched_cells :=
                     insert (offset_cell g (m_query_point it) (shell_incr (m_neigh_cell_iter it)))
                       (m_searched_cells it),
                   m_cell_iter :=
                     itercell lc (offset_cell g (m_query_point it)
                                    (shell_incr (m_neigh_cell_iter it)))\<rparr>)
      else knn_advance fuel lc g M (it\<lparr>m_neigh_cell_iter := shell_incr (m_neigh_cell_iter it)\<rparr>))"
  by (simp add: Let_def)

lemma knn_advance_total:
  assumes "shell_valid (m_neigh_cell_iter it)"
    and "m_is2D (m_neigh_cell_iter it) = is2D (m_box lc)"
    and "shell_rank (m_neigh_cell_iter it) < shell_rank (IteratorCellShell_new M (is2D (m_box lc)))"
    and "shell_rank (IteratorCellShell_new M (is2D (m_box lc)))
           - shell_rank (m_neigh_cell_iter it) \<le> fuel"
  shows "\<exists>sh c. knn_advance fuel lc g M it =
            Some (if sh = IteratorCellShell_new M (is2D (m_box lc))
                  then it\<lparr>m_neigh_cell_iter := sh\<rparr>
                  else it\<lparr>m_neigh_cell_iter := sh,
                          m_searched_cells := insert c (m_searched_cells it),
                          m_cell_iter := itercell lc c\<rparr>)
          \<and> shell_valid sh \<and> m_is2D sh = is2D (m_box lc)
          \<and> shell_rank (m_neigh_cell_iter it) < shell_rank sh
          \<and> shell_rank sh \<le> shell_rank (IteratorCellShell_new M (is2D (m_box lc)))
          \<and> (sh \<noteq> IteratorCellShell_new M (is2D (m_box lc))
               \<longrightarrow> c = offset_cell g (m_query_point it) sh \<and> c \<notin> m_searched_cells it)"
  using assms
proof (induction fuel arbitrary: it)
  case 0
  then show ?case by simp
next
  case (Suc fuel)
  let ?T = "IteratorCellShell_new M (is2D (m_box lc))"
  let ?sh = "shell_incr (m_neigh_cell_iter it)"
  let ?c = "offset_cell g (m_query_point it) ?sh"
  note p = shell_incr_props [OF Suc.prems(1)]
  have v: "shell_valid ?sh" and d: "m_is2D ?sh = is2D (m_box lc)"
    and rk: "shell_rank ?sh = Suc (shell_rank (m_neigh_cell_iter it))"
    using p Suc.prems(2) by simp_all
  have le: "shell_rank ?sh \<le> shell_rank ?T" using rk Suc.prems(3) by simp
  have lt: "shell_rank (m_neigh_cell_iter it) < shell_rank ?sh" using rk by simp
  show ?case
  proof (cases "?sh = ?T")
    case True
    have "knn_advance (Suc fuel) lc g M it = Some (it\<lparr>m_neigh_cell_iter := ?sh\<rparr>)"
      unfolding knn_advance_Suc using True by simp
    then have "knn_advance (Suc fuel) lc g M it =
            Some (if ?sh = ?T then it\<lparr>m_neigh_cell_iter := ?sh\<rparr>
                  else it\<lparr>m_neigh_cell_iter := ?sh,
                          m_searched_cells := insert ?c (m_searched_cells it),
                          m_cell_iter := itercell lc ?c\<rparr>)
          \<and> shell_valid ?sh \<and> m_is2D ?sh = is2D (m_box lc)
          \<and> shell_rank (m_neigh_cell_iter it) < shell_rank ?sh
          \<and> shell_rank ?sh \<le> shell_rank ?T
          \<and> (?sh \<noteq> ?T \<longrightarrow> ?c = offset_cell g (m_query_point it) ?sh \<and> ?c \<notin> m_searched_cells it)"
      using True v d lt le by simp
    then show ?thesis by blast
  next
    case False
    have "shell_rank ?sh \<noteq> shell_rank ?T"
    proof
      assume "shell_rank ?sh = shell_rank ?T"
      then have "shell_rank ?sh = shell_rank (IteratorCellShell_new M (m_is2D ?sh))"
        by (simp add: d)
      from shell_rank_eq_new [OF v this] False show False by (simp add: d)
    qed
    with le have lt2: "shell_rank ?sh < shell_rank ?T" by simp
    show ?thesis
    proof (cases "?c \<in> m_searched_cells it")
      case False
      have "knn_advance (Suc fuel) lc g M it =
              Some (it\<lparr>m_neigh_cell_iter := ?sh,
                       m_searched_cells := insert ?c (m_searched_cells it),
                       m_cell_iter := itercell lc ?c\<rparr>)"
        unfolding knn_advance_Suc using False \<open>?sh \<noteq> ?T\<close> by simp
      then have "knn_advance (Suc fuel) lc g M it =
            Some (if ?sh = ?T then it\<lparr>m_neigh_cell_iter := ?sh\<rparr>
                  else it\<lparr>m_neigh_cell_iter := ?sh,
                          m_searched_cells := insert ?c (m_searched_cells it),
                          m_cell_iter := itercell lc ?c\<rparr>)
          \<and> shell_valid ?sh \<and> m_is2D ?sh = is2D (m_box lc)
          \<and> shell_rank (m_neigh_cell_iter it) < shell_rank ?sh
          \<and> shell_rank ?sh \<le> shell_rank ?T
          \<and> (?sh \<noteq> ?T \<longrightarrow> ?c = offset_cell g (m_query_point it) ?sh \<and> ?c \<notin> m_searched_cells it)"
        using False \<open>?sh \<noteq> ?T\<close> v d lt le by simp
      then show ?thesis by blast
    next
      case True
      let ?it = "it\<lparr>m_neigh_cell_iter := ?sh\<rparr>"
      have step: "knn_advance (Suc fuel) lc g M it = knn_advance fuel lc g M ?it"
        unfolding knn_advance_Suc using True \<open>?sh \<noteq> ?T\<close> by simp
      have a: "shell_valid (m_neigh_cell_iter ?it)"
        "m_is2D (m_neigh_cell_iter ?it) = is2D (m_box lc)"
        "shell_rank (m_neigh_cell_iter ?it) < shell_rank ?T"
        "shell_rank ?T - shell_rank (m_neigh_cell_iter ?it) \<le> fuel"
        using v d lt2 rk Suc.prems(4) by simp_all
      from Suc.IH [OF a] obtain sh c where r:
        "knn_advance fuel lc g M ?it =
            Some (if sh = ?T then ?it\<lparr>m_neigh_cell_iter := sh\<rparr>
                  else ?it\<lparr>m_neigh_cell_iter := sh,
                          m_searched_cells := insert c (m_searched_cells ?it),
                          m_cell_iter := itercell lc c\<rparr>)"
        "shell_valid sh" "m_is2D sh = is2D (m_box lc)"
        "shell_rank (m_neigh_cell_iter ?it) < shell_rank sh"
        "shell_rank sh \<le> shell_rank ?T"
        "sh \<noteq> ?T \<longrightarrow> c = offset_cell g (m_query_point ?it) sh \<and> c \<notin> m_searched_cells ?it"
        by blast
      have "knn_advance (Suc fuel) lc g M it =
            Some (if sh = ?T then it\<lparr>m_neigh_cell_iter := sh\<rparr>
                  else it\<lparr>m_neigh_cell_iter := sh,
                          m_searched_cells := insert c (m_searched_cells it),
                          m_cell_iter := itercell lc c\<rparr>)
          \<and> shell_valid sh \<and> m_is2D sh = is2D (m_box lc)
          \<and> shell_rank (m_neigh_cell_iter it) < shell_rank sh
          \<and> shell_rank sh \<le> shell_rank ?T
          \<and> (sh \<noteq> ?T \<longrightarrow> c = offset_cell g (m_query_point it) sh \<and> c \<notin> m_searched_cells it)"
      proof (intro conjI)
        show "knn_advance (Suc fuel) lc g M it =
            Some (if sh = ?T then it\<lparr>m_neigh_cell_iter := sh\<rparr>
                  else it\<lparr>m_neigh_cell_iter := sh,
                          m_searched_cells := insert c (m_searched_cells it),
                          m_cell_iter := itercell lc c\<rparr>)"
          unfolding step r(1) by simp
        show "shell_valid sh" by (rule r(2))
        show "m_is2D sh = is2D (m_box lc)" by (rule r(3))
        show "shell_rank (m_neigh_cell_iter it) < shell_rank sh" using r(4) lt by simp
        show "shell_rank sh \<le> shell_rank ?T" by (rule r(5))
        show "sh \<noteq> ?T \<longrightarrow> c = offset_cell g (m_query_point it) sh \<and> c \<notin> m_searched_cells it"
          using r(6) by auto
      qed
      then show ?thesis by blast
    qed
  qed
qed


lemma knn_bond_sel:
  "point_idx (knn_bond lc g it j) = j"
  "query_point_idx (knn_bond lc g it j) = m_query_point_idx it"
  by (simp_all add: knn_bond_def NeighborBond3_def)

lemma knn_ready_buffer: "knn_ready cell_of lc it js \<Longrightarrow> knn_buffer_ok lc it"
  by (simp add: knn_ready_def)

lemma knn_members_step:
  assumes r: "knn_ready cell_of lc it js" and f: "length js < f"
  shows "\<exists>it1. (if \<not> atEnd (m_cell_iter it) then knn_members f lc g it else Some (Inr it))
                 = Some (Inr it1)
          \<and> knn_ready cell_of lc it1 [] \<and> atEnd (m_cell_iter it1)
          \<and> m_neigh_cell_iter it1 = m_neigh_cell_iter it
          \<and> m_searched_cells it1 = m_searched_cells it
          \<and> knn_consts it1 = knn_consts it"
proof (cases "atEnd (m_cell_iter it)")
  case True
  with r have "js = []" by (simp add: knn_ready_def)
  with r True have "knn_ready cell_of lc it []" by simp
  with True show ?thesis by simp
next
  case False
  with r have ch: "is_chain (m_cell_list lc) (m_cur_idx (m_cell_iter it)) js"
    by (simp add: knn_ready_def)
  from r have bnd: "\<forall>j \<in> set js. j < length (m_points lc)" by (simp add: knn_ready_def)
  from knn_members_total [OF ch bnd f, of g] obtain it1 where m:
    "knn_members f lc g it = Some (Inr it1)" "atEnd (m_cell_iter it1)"
    "it1 = it\<lparr>m_cell_iter := m_cell_iter it1, m_current_neighbors := m_current_neighbors it1\<rparr>"
    "m_current_neighbors it1
       = m_current_neighbors it @ map (knn_bond lc g it) (filter (eligible it) js)"
    by blast
  have sel: "m_neigh_cell_iter it1 = m_neigh_cell_iter it"
    "m_searched_cells it1 = m_searched_cells it" "knn_consts it1 = knn_consts it"
    "eligible it1 = eligible it" "m_query_point_idx it1 = m_query_point_idx it"
    by (subst m(3), simp add: knn_consts_def eligible_def fun_eq_iff)+
  have idx: "map point_idx (m_current_neighbors it1)
               = map point_idx (m_current_neighbors it) @ filter (eligible it) js"
    unfolding m(4) by (simp add: knn_bond_sel comp_def)
  from r have d: "distinct (map point_idx (m_current_neighbors it) @ js)"
    by (simp add: knn_ready_def)
  have d1: "distinct (map point_idx (m_current_neighbors it1))"
    unfolding idx using d by auto
  from r have el: "\<forall>j \<in> point_idx ` set (m_current_neighbors it) \<union> set js.
           j < length (m_points lc) \<and> cell_of (m_points lc ! j) \<in> m_searched_cells it"
    by (simp add: knn_ready_def)
  have set1: "point_idx ` set (m_current_neighbors it1)
                \<subseteq> point_idx ` set (m_current_neighbors it) \<union> set js"
    using idx by (metis (no_types, lifting) filter_is_subset list.set_map set_append
        sup.mono subset_refl)
  have el1: "\<forall>j \<in> point_idx ` set (m_current_neighbors it1).
           j < length (m_points lc) \<and> cell_of (m_points lc ! j) \<in> m_searched_cells it1"
    using el set1 unfolding sel(2) by blast
  from r have b: "knn_buffer_ok lc it" by (simp add: knn_ready_def)
  have b1: "knn_buffer_ok lc it1"
    unfolding knn_buffer_ok_def sel
  proof (intro conjI ballI)
    show "distinct (map point_idx (m_current_neighbors it1))" by (rule d1)
    fix x assume "x \<in> set (m_current_neighbors it1)"
    then consider "x \<in> set (m_current_neighbors it)"
      | j where "j \<in> set js" "eligible it j" "x = knn_bond lc g it j"
      unfolding m(4) by auto
    then have "point_idx x < length (m_points lc) \<and> query_point_idx x = m_query_point_idx it
        \<and> eligible it (point_idx x)"
    proof cases
      case 1
      with b show ?thesis by (simp add: knn_buffer_ok_def)
    next
      case 2
      with bnd show ?thesis by (simp add: knn_bond_sel)
    qed
    then show "point_idx x < length (m_points lc)"
      "query_point_idx x = m_query_point_idx it" "eligible it (point_idx x)"
      by simp_all
  qed
  from r have sh: "shell_valid (m_neigh_cell_iter it)"
    "m_is2D (m_neigh_cell_iter it) = is2D (m_box lc)"
    by (simp_all add: knn_ready_def)
  have "knn_ready cell_of lc it1 []"
    unfolding knn_ready_def using sh m(2) d1 el1 b1 by (simp add: sel)
  with m(1,2) sel(1-3) False show ?thesis by simp
qed

lemma knn_advance_step:
  assumes ok: "cell_list_ok cell_of lc" and g: "geometry_ok g lc"
    and r: "knn_ready cell_of lc it []" and e: "atEnd (m_cell_iter it)"
    and lt: "shell_rank (m_neigh_cell_iter it)
               < shell_rank (IteratorCellShell_new M (is2D (m_box lc)))"
    and f: "shell_rank (IteratorCellShell_new M (is2D (m_box lc)))
              - shell_rank (m_neigh_cell_iter it) \<le> f"
  shows "\<exists>it2 js2. knn_advance f lc g M it = Some it2
          \<and> knn_ready cell_of lc it2 js2
          \<and> shell_rank (m_neigh_cell_iter it) < shell_rank (m_neigh_cell_iter it2)
          \<and> shell_rank (m_neigh_cell_iter it2)
               \<le> shell_rank (IteratorCellShell_new M (is2D (m_box lc)))
          \<and> knn_consts it2 = knn_consts it"
proof -
  let ?T = "IteratorCellShell_new M (is2D (m_box lc))"
  from r have sh: "shell_valid (m_neigh_cell_iter it)"
    "m_is2D (m_neigh_cell_iter it) = is2D (m_box lc)"
    and d: "distinct (map point_idx (m_current_neighbors it))"
    and el: "\<forall>j \<in> point_idx ` set (m_current_neighbors it).
           j < length (m_points lc) \<and> cell_of (m_points lc ! j) \<in> m_searched_cells it"
    and b: "knn_buffer_ok lc it"
    by (simp_all add: knn_ready_def)
  from knn_advance_total [OF sh lt f, of g] obtain sh2 c where a:
    "knn_advance f lc g M it =
            Some (if sh2 = ?T then it\<lparr>m_neigh_cell_iter := sh2\<rparr>
                  else it\<lparr>m_neigh_cell_iter := sh2,
                          m_searched_cells := insert c (m_searched_cells it),
                          m_cell_iter := itercell lc c\<rparr>)"
    "shell_valid sh2" "m_is2D sh2 = is2D (m_box lc)"
    "shell_rank (m_neigh_cell_iter it) < shell_rank sh2"
    "shell_rank sh2 \<le> shell_rank ?T"
    "sh2 \<noteq> ?T \<longrightarrow> c = offset_cell g (m_query_point it) sh2 \<and> c \<notin> m_searched_cells it"
    by blast
  show ?thesis
  proof (cases "sh2 = ?T")
    case True
    let ?it2 = "it\<lparr>m_neigh_cell_iter := sh2\<rparr>"
    have 1: "knn_advance f lc g M it = Some ?it2" using a(1) True by simp
    have bo: "knn_buffer_ok lc ?it2" using b by (simp add: knn_buffer_ok_def eligible_def)
    have 2: "knn_ready cell_of lc ?it2 []"
      unfolding knn_ready_def using a(2,3) e d el bo by simp
    have "knn_advance f lc g M it = Some ?it2 \<and> knn_ready cell_of lc ?it2 []
          \<and> shell_rank (m_neigh_cell_iter it) < shell_rank (m_neigh_cell_iter ?it2)
          \<and> shell_rank (m_neigh_cell_iter ?it2) \<le> shell_rank ?T
          \<and> knn_consts ?it2 = knn_consts it"
      using 1 2 a(4,5) by (simp add: knn_consts_def)
    then show ?thesis by blast
  next
    case False
    let ?it2 = "it\<lparr>m_neigh_cell_iter := sh2,
                    m_searched_cells := insert c (m_searched_cells it),
                    m_cell_iter := itercell lc c\<rparr>"
    let ?js = "cell_members cell_of (m_points lc) c"
    have 1: "knn_advance f lc g M it = Some ?it2" using a(1) False by simp
    from a(6) False have c: "c = offset_cell g (m_query_point it) sh2"
      "c \<notin> m_searched_cells it" by blast+
    from g c(1) have cN: "c < m_Nc lc" by (simp add: geometry_ok_def offset_cell_def)
    from ok have sz: "m_n_points lc = length (m_points lc)"
      "m_n_points lc + m_Nc lc \<le> LINK_CELL_TERMINATOR"
      and ch: "\<forall>c<m_Nc lc. is_chain (m_cell_list lc) (m_n_points lc + c)
                  (cell_members cell_of (m_points lc) c)"
      unfolding cell_list_ok_def by blast+
    from ch cN have chain: "is_chain (m_cell_list lc) (m_n_points lc + c) ?js" by blast
    have ne: "\<not> atEnd (itercell lc c)" using sz(2) cN by (simp add: atEnd_def itercell_def)
    have bo: "knn_buffer_ok lc ?it2" using b by (simp add: knn_buffer_ok_def eligible_def)
    note cm = cell_members_bounds [of cell_of "m_points lc" c]
    have inc: "\<forall>j \<in> set ?js. cell_of (m_points lc ! j) = c" by (simp add: cell_members_def)
    have disj: "point_idx ` set (m_current_neighbors it) \<inter> set ?js = {}"
    proof (rule ccontr)
      assume "point_idx ` set (m_current_neighbors it) \<inter> set ?js \<noteq> {}"
      then obtain j where j: "j \<in> point_idx ` set (m_current_neighbors it)" "j \<in> set ?js"
        by blast
      from el j(1) have "cell_of (m_points lc ! j) \<in> m_searched_cells it" by blast
      moreover from inc j(2) have "cell_of (m_points lc ! j) = c" by blast
      ultimately show False using c(2) by simp
    qed
    have dd: "distinct (map point_idx (m_current_neighbors it) @ ?js)"
      using d cm(3) disj by simp
    have el2: "\<forall>j \<in> point_idx ` set (m_current_neighbors it) \<union> set ?js.
           j < length (m_points lc)
           \<and> cell_of (m_points lc ! j) \<in> insert c (m_searched_cells it)"
      using el inc cm(1) by blast
    have 2: "knn_ready cell_of lc ?it2 ?js"
      unfolding knn_ready_def
      using a(2,3) ne chain cm(2) dd el2 bo by (simp add: itercell_def)
    have "knn_advance f lc g M it = Some ?it2 \<and> knn_ready cell_of lc ?it2 ?js
          \<and> shell_rank (m_neigh_cell_iter it) < shell_rank (m_neigh_cell_iter ?it2)
          \<and> shell_rank (m_neigh_cell_iter ?it2) \<le> shell_rank ?T
          \<and> knn_consts ?it2 = knn_consts it"
      using 1 2 a(4,5) by (simp add: knn_consts_def)
    then show ?thesis by blast
  qed
qed

lemma knn_buffer_ok_sort:
  assumes "knn_buffer_ok lc it"
  shows "knn_buffer_ok lc (it\<lparr>m_current_neighbors := sort_key distance (m_current_neighbors it)\<rparr>)"
  using assms by (simp add: knn_buffer_ok_def eligible_def distinct_map)

lemma knn_search_Suc:
  "knn_search (Suc fuel) lc g M it =
     (if m_neigh_cell_iter it \<noteq> IteratorCellShell_new M (is2D (m_box lc)) then
        (case (if \<not> atEnd (m_cell_iter it) then knn_members fuel lc g it else Some (Inr it)) of
           None \<Rightarrow> None
         | Some (Inl e) \<Rightarrow> Some (Inl e)
         | Some (Inr it) \<Rightarrow>
             (case knn_advance fuel lc g M it of
                None \<Rightarrow> None
              | Some it \<Rightarrow>
                  if length (m_current_neighbors it) \<ge> m_num_neighbors it then
                    (if uint_pred (m_num_neighbors it) < length (m_current_neighbors it) then
                       (if distance (m_current_neighbors it ! uint_pred (m_num_neighbors it))
                             < real_of_int (getRange (m_neigh_cell_iter it) - 1) * getCellWidth lc
                        then Some (Inr (it\<lparr>m_current_neighbors :=
                                              sort_key distance (m_current_neighbors it)\<rparr>))
                        else knn_search fuel lc g M it)
                     else Some (Inl OutOfRange))
                  else knn_search fuel lc g M it))
      else Some (Inr it))"
  by simp

lemma knn_search_total:
  assumes ok: "cell_list_ok cell_of lc" and g: "geometry_ok g lc"
  shows "0 < m_num_neighbors it \<Longrightarrow> knn_ready cell_of lc it js
     \<Longrightarrow> shell_rank (m_neigh_cell_iter it)
           \<le> shell_rank (IteratorCellShell_new M (is2D (m_box lc)))
     \<Longrightarrow> shell_rank (IteratorCellShell_new M (is2D (m_box lc)))
             - shell_rank (m_neigh_cell_iter it) + length (m_points lc) + 2 \<le> fuel
     \<Longrightarrow> \<exists>it'. knn_search fuel lc g M it = Some (Inr it')
            \<and> knn_buffer_ok lc it' \<and> knn_consts it' = knn_consts it"
proof (induction fuel arbitrary: it js)
  case 0
  then show ?case by simp
next
  case (Suc f)
  let ?T = "IteratorCellShell_new M (is2D (m_box lc))"
  show ?case
  proof (cases "m_neigh_cell_iter it = ?T")
    case True
    then have "knn_search (Suc f) lc g M it = Some (Inr it)"
      unfolding knn_search_Suc by simp
    with knn_ready_buffer [OF Suc.prems(2)] show ?thesis by simp
  next
    case False
    from Suc.prems(2) have sh: "shell_valid (m_neigh_cell_iter it)"
      "m_is2D (m_neigh_cell_iter it) = is2D (m_box lc)"
      "length js \<le> length (m_points lc)"
      by (simp_all add: knn_ready_def)
    have "shell_rank (m_neigh_cell_iter it) \<noteq> shell_rank ?T"
    proof
      assume "shell_rank (m_neigh_cell_iter it) = shell_rank ?T"
      then have "shell_rank (m_neigh_cell_iter it)
                   = shell_rank (IteratorCellShell_new M (m_is2D (m_neigh_cell_iter it)))"
        by (simp add: sh(2))
      from shell_rank_eq_new [OF sh(1) this] False show False by (simp add: sh(2))
    qed
    with Suc.prems(3) have lt: "shell_rank (m_neigh_cell_iter it) < shell_rank ?T" by simp
    have fj: "length js < f" using sh(3) Suc.prems(4) by simp
    from knn_members_step [OF Suc.prems(2) fj, of g] obtain it1 where m:
      "(if \<not> atEnd (m_cell_iter it) then knn_members f lc g it else Some (Inr it))
         = Some (Inr it1)"
      "knn_ready cell_of lc it1 []" "atEnd (m_cell_iter it1)"
      "m_neigh_cell_iter it1 = m_neigh_cell_iter it"
      "knn_consts it1 = knn_consts it"
      by blast
    have lt1: "shell_rank (m_neigh_cell_iter it1) < shell_rank ?T" using lt m(4) by simp
    have fa: "shell_rank ?T - shell_rank (m_neigh_cell_iter it1) \<le> f"
      using Suc.prems(4) m(4) by simp
    from knn_advance_step [OF ok g m(2,3) lt1 fa] obtain it2 js2 where a:
      "knn_advance f lc g M it1 = Some it2" "knn_ready cell_of lc it2 js2"
      "shell_rank (m_neigh_cell_iter it1) < shell_rank (m_neigh_cell_iter it2)"
      "shell_rank (m_neigh_cell_iter it2) \<le> shell_rank ?T"
      "knn_consts it2 = knn_consts it1"
      by blast
    have cs: "knn_consts it2 = knn_consts it" using a(5) m(5) by simp
    then have k2: "m_num_neighbors it2 = m_num_neighbors it" by (simp add: knn_consts_def)
    with Suc.prems(1) have k: "0 < m_num_neighbors it2" by simp
    have f2: "shell_rank ?T - shell_rank (m_neigh_cell_iter it2) + length (m_points lc) + 2 \<le> f"
      using Suc.prems(4) a(3) lt1 m(4) by simp
    from Suc.IH [OF k a(2) a(4) f2] obtain it3 where rec:
      "knn_search f lc g M it2 = Some (Inr it3)" "knn_buffer_ok lc it3"
      "knn_consts it3 = knn_consts it2"
      by blast
    let ?stop = "it2\<lparr>m_current_neighbors := sort_key distance (m_current_neighbors it2)\<rparr>"
    have up: "m_num_neighbors it2 \<le> length (m_current_neighbors it2)
                \<Longrightarrow> uint_pred (m_num_neighbors it2) < length (m_current_neighbors it2)"
      using k by (simp add: uint_pred_def)
    have unf: "knn_search (Suc f) lc g M it =
        (if length (m_current_neighbors it2) \<ge> m_num_neighbors it2
            \<and> distance (m_current_neighbors it2 ! uint_pred (m_num_neighbors it2))
                 < real_of_int (getRange (m_neigh_cell_iter it2) - 1) * getCellWidth lc
         then Some (Inr ?stop) else Some (Inr it3))"
      unfolding knn_search_Suc using False up by (simp add: m(1) a(1) rec(1))
    have st: "knn_buffer_ok lc ?stop \<and> knn_consts ?stop = knn_consts it"
      using knn_buffer_ok_sort [OF knn_ready_buffer [OF a(2)]] cs
      by (simp add: knn_consts_def)
    have r3: "knn_buffer_ok lc it3 \<and> knn_consts it3 = knn_consts it"
      using rec(2,3) cs by simp
    show ?thesis unfolding unf using st r3 by (simp del: One_nat_def)
  qed
qed

lemma knn_drain:
  "m_current_neighbors it \<noteq> []
     \<Longrightarrow> d = min (m_num_neighbors it) (length (m_current_neighbors it)) - m_count it
     \<Longrightarrow> \<exists>it'. drive (Suc d) (knn_next fuel npd lc g) it
                 = Some (Inr (drop (m_count it)
                               (take (m_num_neighbors it) (m_current_neighbors it)), it'))
            \<and> m_finished it'"
proof (induction d arbitrary: it)
  case 0
  let ?it1 = "it\<lparr>m_searched_cells :=
                 insert (offset_cell g (m_query_point it) (m_neigh_cell_iter it))
                   (m_searched_cells it)\<rparr>"
  from 0(2) have c: "\<not> (m_count it < m_num_neighbors it
                        \<and> m_count it < length (m_current_neighbors it))" by (auto simp: min_def split: if_splits)
  have nx: "knn_next fuel npd lc g it = Some (Inr (EXHAUSTED, ?it1\<lparr>m_finished := True\<rparr>))"
    unfolding knn_next_buffered [OF 0(1)] using c by (simp add: Let_def)
  have "drop (m_count it) (take (m_num_neighbors it) (m_current_neighbors it)) = []"
    using c by (auto simp: min_def)
  then have "drive (Suc 0) (knn_next fuel npd lc g) it
                 = Some (Inr (drop (m_count it)
                               (take (m_num_neighbors it) (m_current_neighbors it)),
                              ?it1\<lparr>m_finished := True\<rparr>))
            \<and> m_finished (?it1\<lparr>m_finished := True\<rparr>)"
    by (simp add: nx)
  then show ?case by blast
next
  case (Suc d)
  let ?it1 = "it\<lparr>m_searched_cells :=
                 insert (offset_cell g (m_query_point it) (m_neigh_cell_iter it))
                   (m_searched_cells it)\<rparr>"
  let ?it2 = "?it1\<lparr>m_count := m_count it + 1\<rparr>"
  let ?bs = "take (m_num_neighbors it) (m_current_neighbors it)"
  from Suc.prems(2) have c: "m_count it < m_num_neighbors it"
    "m_count it < length (m_current_neighbors it)" by simp_all
  have nx: "knn_next fuel npd lc g it
              = Some (Inr (Yield (m_current_neighbors it ! m_count it), ?it2))"
    unfolding knn_next_buffered [OF Suc.prems(1)] using c by (simp add: Let_def)
  have ne: "m_current_neighbors ?it2 \<noteq> []" using Suc.prems(1) by simp
  have d: "d = min (m_num_neighbors ?it2) (length (m_current_neighbors ?it2)) - m_count ?it2"
    using Suc.prems(2) by simp
  from Suc.IH [OF ne d] obtain it' where r:
    "drive (Suc d) (knn_next fuel npd lc g) ?it2
       = Some (Inr (drop (Suc (m_count it)) ?bs, it'))" "m_finished it'"
    by auto
  have len: "m_count it < length ?bs" using c by simp
  have "drop (m_count it) ?bs = ?bs ! m_count it # drop (Suc (m_count it)) ?bs"
    by (rule Cons_nth_drop_Suc [OF len, symmetric])
  moreover have "?bs ! m_count it = m_current_neighbors it ! m_count it" using c by simp
  ultimately have dr: "drop (m_count it) ?bs
      = m_current_neighbors it ! m_count it # drop (Suc (m_count it)) ?bs" by simp
  have "drive (Suc (Suc d)) (knn_next fuel npd lc g) it
          = Some (Inr (drop (m_count it) ?bs, it'))"
    unfolding dr drive_Suc [of "Suc d"] nx using r(1) by simp
  with r(2) show ?case by blast
qed

lemma knn_init_ready:
  assumes ok: "cell_list_ok cell_of lc" and g: "geometry_ok g lc"
  shows "\<exists>js. knn_ready cell_of lc
           ((knn_init lc g q qidx k excl)\<lparr>m_searched_cells :=
               {offset_cell g q (IteratorCellShell_new 0 (is2D (m_box lc)))}\<rparr>) js"
proof -
  let ?c = "offset_cell g q (IteratorCellShell_new 0 (is2D (m_box lc)))"
  let ?it = "(knn_init lc g q qidx k excl)\<lparr>m_searched_cells := {?c}\<rparr>"
  let ?js = "cell_members cell_of (m_points lc) ?c"
  have cN: "?c < m_Nc lc" using g by (simp add: geometry_ok_def offset_cell_def)
  from ok have sz: "m_n_points lc = length (m_points lc)"
    "m_n_points lc + m_Nc lc \<le> LINK_CELL_TERMINATOR"
    and ch: "\<forall>c<m_Nc lc. is_chain (m_cell_list lc) (m_n_points lc + c)
                (cell_members cell_of (m_points lc) c)"
    unfolding cell_list_ok_def by blast+
  from ch cN have chain: "is_chain (m_cell_list lc) (m_n_points lc + ?c) ?js" by blast
  have ne: "\<not> atEnd (itercell lc ?c)" using sz(2) cN by (simp add: atEnd_def itercell_def)
  note cm = cell_members_bounds [of cell_of "m_points lc" ?c]
  have inc: "\<forall>j \<in> set ?js. cell_of (m_points lc ! j) = ?c" by (simp add: cell_members_def)
  have sel: "m_neigh_cell_iter ?it = IteratorCellShell_new 0 (is2D (m_box lc))"
    "m_cell_iter ?it = itercell lc ?c" "m_current_neighbors ?it = []"
    "m_searched_cells ?it = {?c}"
    by (simp_all add: knn_init_def)
  have "knn_ready cell_of lc ?it ?js"
    unfolding knn_ready_def knn_buffer_ok_def sel
    using ne chain cm inc by (simp add: shell_valid_new shell_new_sel itercell_def)
  then show ?thesis ..
qed

lemma knn_drive_total:
  assumes ok: "cell_list_ok cell_of lc" and g: "geometry_ok g lc" and k: "0 < k"
    and fuel: "shell_rank (IteratorCellShell_new (knn_max_range npd lc) (is2D (m_box lc)))
                 + length (m_points lc) + 2 \<le> fuel"
  shows "\<exists>n bs it'. drive n (knn_next fuel npd lc g) (knn_init lc g q qidx k excl)
                        = Some (Inr (bs, it'))
           \<and> m_finished it' \<and> length bs \<le> k \<and> distinct (map point_idx bs)
           \<and> (\<forall>b \<in> set bs. point_idx b < length (m_points lc) \<and> query_point_idx b = qidx
                              \<and> (excl \<longrightarrow> point_idx b \<noteq> qidx))"
proof -
  let ?M = "knn_max_range npd lc"
  let ?c = "offset_cell g q (IteratorCellShell_new 0 (is2D (m_box lc)))"
  let ?it = "knn_init lc g q qidx k excl"
  let ?ini = "?it\<lparr>m_searched_cells := {?c}\<rparr>"
  from knn_init_ready [OF ok g] obtain js where rd: "knn_ready cell_of lc ?ini js" by blast
  have k0: "0 < m_num_neighbors ?ini" using k by (simp add: knn_init_def)
  have sh0: "m_neigh_cell_iter ?ini = IteratorCellShell_new 0 (is2D (m_box lc))"
    by (simp add: knn_init_def)
  have rk0: "shell_rank (m_neigh_cell_iter ?ini) = 0" unfolding sh0 by (simp add: shell_rank_new)
  have le: "shell_rank (m_neigh_cell_iter ?ini)
              \<le> shell_rank (IteratorCellShell_new ?M (is2D (m_box lc)))"
    unfolding rk0 by simp
  have fl: "shell_rank (IteratorCellShell_new ?M (is2D (m_box lc)))
             - shell_rank (m_neigh_cell_iter ?ini) + length (m_points lc) + 2 \<le> fuel"
    unfolding rk0 using fuel by simp
  from knn_search_total [OF ok g k0 rd le fl] obtain it1 where s:
    "knn_search fuel lc g ?M ?ini = Some (Inr it1)" "knn_buffer_ok lc it1"
    "knn_consts it1 = knn_consts ?ini"
    by blast
  from s(3) have c1: "m_count it1 = 0" "m_num_neighbors it1 = k" "m_query_point_idx it1 = qidx"
    "m_exclude_ii it1 = excl"
    by (simp_all add: knn_consts_def knn_init_def)
  let ?acc = "m_current_neighbors it1"
  let ?bs = "take k ?acc"
  have i1: "m_current_neighbors ?it = []" by (simp add: knn_init_def)
  have i2: "m_searched_cells ?it = {}" by (simp add: knn_init_def)
  have i3: "m_query_point ?it = q" by (simp add: knn_init_def)
  have i4: "m_neigh_cell_iter ?it = IteratorCellShell_new 0 (is2D (m_box lc))"
    by (simp add: knn_init_def)
  note i = i1 i2 i3 i4
  have nx: "knn_next fuel npd lc g ?it =
      (if m_count it1 < m_num_neighbors it1 \<and> m_count it1 < length ?acc
       then Some (Inr (Yield (?acc ! m_count it1), it1\<lparr>m_count := m_count it1 + 1\<rparr>))
       else Some (Inr (EXHAUSTED, it1\<lparr>m_finished := True\<rparr>)))"
    using s(1) by (simp add: knn_next_def Let_def i)
  have ex: "\<exists>n it'. drive n (knn_next fuel npd lc g) ?it = Some (Inr (?bs, it')) \<and> m_finished it'"
  proof (cases "?acc = []")
    case True
    have "drive (Suc 0) (knn_next fuel npd lc g) ?it
            = Some (Inr (?bs, it1\<lparr>m_finished := True\<rparr>))
          \<and> m_finished (it1\<lparr>m_finished := True\<rparr>)"
      using True by (simp add: nx c1)
    then show ?thesis by blast
  next
    case False
    let ?it2 = "it1\<lparr>m_count := m_count it1 + 1\<rparr>"
    have n1: "knn_next fuel npd lc g ?it = Some (Inr (Yield (?acc ! 0), ?it2))"
      unfolding nx using False k by (simp add: c1)
    have ne: "m_current_neighbors ?it2 \<noteq> []" using False by simp
    define d where "d = min (m_num_neighbors ?it2) (length (m_current_neighbors ?it2)) - m_count ?it2"
    from knn_drain [OF ne d_def, of fuel npd lc g] obtain it' where r:
      "drive (Suc d) (knn_next fuel npd lc g) ?it2
         = Some (Inr (drop (m_count ?it2)
               (take (m_num_neighbors ?it2) (m_current_neighbors ?it2)), it'))"
      "m_finished it'"
      by blast
    have dr: "drop (m_count ?it2) (take (m_num_neighbors ?it2) (m_current_neighbors ?it2))
               = drop (Suc 0) ?bs"
      by (simp add: c1)
    have hd: "?bs = ?acc ! 0 # drop (Suc 0) ?bs"
      using False k by (cases ?acc; cases k) simp_all
    have "drive (Suc (Suc d)) (knn_next fuel npd lc g) ?it
            = Some (Inr (?acc ! 0 # drop (Suc 0) ?bs, it'))"
      unfolding drive_Suc [of "Suc d"] n1 using r(1) unfolding dr by simp
    with hd r(2) have "drive (Suc (Suc d)) (knn_next fuel npd lc g) ?it
            = Some (Inr (?bs, it')) \<and> m_finished it'" by simp
    then show ?thesis by blast
  qed
  from s(2) have b: "distinct (map point_idx ?acc)"
    "\<forall>b \<in> set ?acc. point_idx b < length (m_points lc) \<and> query_point_idx b = qidx
          \<and> (excl \<longrightarrow> point_idx b \<noteq> qidx)"
    by (auto simp: knn_buffer_ok_def eligible_def c1)
  have p1: "length ?bs \<le> k" by simp
  have p2: "distinct (map point_idx ?bs)"
    using b(1) by (simp add: take_map [symmetric])
  have p3: "\<forall>b \<in> set ?bs. point_idx b < length (m_points lc) \<and> query_point_idx b = qidx
          \<and> (excl \<longrightarrow> point_idx b \<noteq> qidx)"
    using b(2) by (meson in_set_takeD)
  from ex p1 p2 p3 show ?thesis by blast
qed

section \<open>Queries by mode\<close>

lemma ball_none_accepted:
  assumes ok: "cell_list_ok cell_of lc" and g: "geometry_ok g lc" and w: "0 < getCellWidth lc"
    and none: "\<forall>j < length (m_points lc).
                 \<not> (rsq_of lc g q j < r * r \<and> (excl \<longrightarrow> j \<noteq> qidx))"
  shows "\<exists>F. \<forall>fuel \<ge> F. \<exists>n it'.
           drive n (ball_next fuel lc g) (ball_init lc g q qidx r excl extra)
             = Some (Inr ([], it'))"
proof -
  let ?it = "ball_init lc g q qidx r excl extra"
  from ball_terminates [OF ok g w, of q qidx r excl extra]
  obtain n F where t: "\<forall>fuel \<ge> F. \<exists>bs it'.
           drive n (ball_next fuel lc g) ?it = Some (Inr (bs, it'))
           \<and> m_finished it' \<and> atEnd (m_cell_iter it')
           \<and> out_of_range lc ?it (m_neigh_cell_iter it')"
    by blast
  have "\<exists>n it'. drive n (ball_next fuel lc g) ?it = Some (Inr ([], it'))" if "F \<le> fuel" for fuel
  proof -
    from t that obtain bs it' where d: "drive n (ball_next fuel lc g) ?it = Some (Inr (bs, it'))"
      by blast
    from ball_drive_accepted [OF d] have a: "\<forall>b \<in> set bs. accepted lc g ?it b" .
    have "bs = []"
    proof (cases bs)
      case Nil
      then show ?thesis .
    next
      case (Cons b bs')
      with a have "accepted lc g ?it b" by simp
      then obtain j where "j < length (m_points lc)" "rsq_of lc g q j < r * r"
        "excl \<longrightarrow> j \<noteq> qidx"
        unfolding accepted_def by (auto simp: ball_init_def)
      with none show ?thesis by blast
    qed
    with d show ?thesis by blast
  qed
  then show ?thesis by blast
qed

lemma knn_none_eligible:
  assumes ok: "cell_list_ok cell_of lc" and g: "geometry_ok g lc" and k: "0 < k"
    and none: "\<forall>j < length (m_points lc). excl \<and> j = qidx"
  shows "\<exists>F. \<forall>fuel \<ge> F. \<exists>n it'.
           drive n (knn_next fuel npd lc g) (knn_init lc g q qidx k excl) = Some (Inr ([], it'))"
proof -
  let ?F = "shell_rank (IteratorCellShell_new (knn_max_range npd lc) (is2D (m_box lc)))
              + length (m_points lc) + 2"
  have "\<exists>n it'. drive n (knn_next fuel npd lc g) (knn_init lc g q qidx k excl)
                   = Some (Inr ([], it'))" if "?F \<le> fuel" for fuel
  proof -
    from knn_drive_total [OF ok g k that, of q qidx excl] obtain n bs it' where
      d: "drive n (knn_next fuel npd lc g) (knn_init lc g q qidx k excl) = Some (Inr (bs, it'))"
      and b: "\<forall>b \<in> set bs. point_idx b < length (m_points lc) \<and> query_point_idx b = qidx
                              \<and> (excl \<longrightarrow> point_idx b \<noteq> qidx)"
      by blast
    have "bs = []"
    proof (cases bs)
      case Nil
      then show ?thesis .
    next
      case (Cons b bs')
      with b have "point_idx b < length (m_points lc)" "excl \<longrightarrow> point_idx b \<noteq> qidx"
        by simp_all
      with none show ?thesis by blast
    qed
    with d show ?thesis by blast
  qed
  then show ?thesis by blast
qed

lemma ex_none_within:
  "\<forall>j < length ex_points. \<not> (rsq_of ex_lc ex_geometry ex_query j < (1 / 20) * (1 / 20)
                                   \<and> (False \<longrightarrow> j \<noteq> 3))"
proof (intro allI impI)
  fix j assume "j < length ex_points"
  then have "j = 0 \<or> j = Suc 0 \<or> j = 2" by (auto simp: ex_points_def)
  then show "\<not> (rsq_of ex_lc ex_geometry ex_query j < (1 / 20) * (1 / 20)
                                   \<and> (False \<longrightarrow> j \<noteq> 3))"
    using ex_rsq by auto
qed

text \<open>
  What \<^verbatim>\<open>querySingle\<close> does on arguments that pass the check of the arguments. With a
  mode that is neither ball nor nearest it fails with \<open>InvalidQueryMode\<close>. With the ball
  mode, on a cell list built with a positive cell width, and no point of the set that
  passes the test of the ball iterator, it returns a ball iterator which, driven to
  exhaustion with enough fuel, returns no bond and no error. With the nearest mode, at
  least one neighbor asked for, and every point of the set excluded, it returns a k-nearest
  iterator which, driven to exhaustion with enough fuel, returns no bond and no error.
\<close>

theorem querySingle_modes:
  assumes new: "LinkCell_new npd getCell box w pts = Inr lc"
    and fits: "length pts + m_Nc lc \<le> LINK_CELL_TERMINATOR"
    and g: "geometry_ok g lc" and w: "0 < w"
    and v: "validateQueryArgs args = Inr a"
  shows "(mode a \<noteq> QueryType_ball \<and> mode a \<noteq> QueryType_nearest
            \<longrightarrow> querySingle validateQueryArgs extra lc g q qidx args = Inl InvalidQueryMode)
       \<and> (mode a = QueryType_ball
            \<and> (\<forall>j < length pts. \<not> (rsq_of lc g q j < r_max a * r_max a
                                     \<and> (exclude_ii a \<longrightarrow> j \<noteq> qidx)))
            \<longrightarrow> (\<exists>it F. querySingle validateQueryArgs extra lc g q qidx args
                            = Inr (BallIterator it)
                   \<and> (\<forall>fuel \<ge> F. \<exists>n it'.
                          drive n (ball_next fuel lc g) it = Some (Inr ([], it')))))
       \<and> (mode a = QueryType_nearest \<and> 0 < num_neighbors a
            \<and> (\<forall>j < length pts. exclude_ii a \<and> j = qidx)
            \<longrightarrow> (\<exists>it F. querySingle validateQueryArgs extra lc g q qidx args
                            = Inr (NearestIterator it)
                   \<and> (\<forall>fuel \<ge> F. \<exists>n it'.
                          drive n (knn_next fuel npd lc g) it = Some (Inr ([], it')))))"
proof (intro conjI impI)
  assume "mode a \<noteq> QueryType_ball \<and> mode a \<noteq> QueryType_nearest"
  then show "querySingle validateQueryArgs extra lc g q qidx args = Inl InvalidQueryMode"
    by (simp add: querySingle_def v)
next
  from LinkCell_new_ok [OF new fits] obtain cell_of where ok: "cell_list_ok cell_of lc"
    and p: "m_points lc = pts" and cw: "m_cell_width lc = w" by blast
  have gw: "0 < getCellWidth lc" using w cw by (simp add: getCellWidth_def)
  assume h: "mode a = QueryType_ball
            \<and> (\<forall>j < length pts. \<not> (rsq_of lc g q j < r_max a * r_max a
                                     \<and> (exclude_ii a \<longrightarrow> j \<noteq> qidx)))"
  let ?it = "ball_init lc g q qidx (r_max a) (exclude_ii a) extra"
  have 1: "querySingle validateQueryArgs extra lc g q qidx args = Inr (BallIterator ?it)"
    using h by (simp add: querySingle_def v)
  from h have none: "\<forall>j < length (m_points lc).
        \<not> (rsq_of lc g q j < r_max a * r_max a \<and> (exclude_ii a \<longrightarrow> j \<noteq> qidx))"
    unfolding p by blast
  from ball_none_accepted [OF ok g gw none, of extra] obtain F where
    "\<forall>fuel \<ge> F. \<exists>n it'. drive n (ball_next fuel lc g) ?it = Some (Inr ([], it'))"
    by blast
  with 1 show "\<exists>it F. querySingle validateQueryArgs extra lc g q qidx args = Inr (BallIterator it)
                   \<and> (\<forall>fuel \<ge> F. \<exists>n it'.
                          drive n (ball_next fuel lc g) it = Some (Inr ([], it')))"
    by blast
next
  from LinkCell_new_ok [OF new fits] obtain cell_of where ok: "cell_list_ok cell_of lc"
    and p: "m_points lc = pts" by blast
  assume h: "mode a = QueryType_nearest \<and> 0 < num_neighbors a
            \<and> (\<forall>j < length pts. exclude_ii a \<and> j = qidx)"
  let ?it = "knn_init lc g q qidx (num_neighbors a) (exclude_ii a)"
  have 1: "querySingle validateQueryArgs extra lc g q qidx args = Inr (NearestIterator ?it)"
    using h by (simp add: querySingle_def v)
  from h have k: "0 < num_neighbors a"
    and none: "\<forall>j < length (m_points lc). exclude_ii a \<and> j = qidx"
    unfolding p by blast+
  from knn_none_eligible [OF ok g k none, of npd q] obtain F where
    "\<forall>fuel \<ge> F. \<exists>n it'. drive n (knn_next fuel npd lc g) ?it = Some (Inr ([], it'))"
    by blast
  with 1 show "\<exists>it F. querySingle validateQueryArgs extra lc g q qidx args
                            = Inr (NearestIterator it)
                   \<and> (\<forall>fuel \<ge> F. \<exists>n it'.
                          drive n (knn_next fuel npd lc g) it = Some (Inr ([], it')))"
    by blast
qed

theorem querySingle_modes_witness:
  "LinkCell_new ortho_npd ortho_getCell ex_box 4 ex_points = Inr ex_lc
   \<and> querySingle Inr 1 ex_lc ex_geometry ex_query 3
        \<lparr>mode = QueryType_none, num_neighbors = 2, r_max = 1, r_min = 0, r_guess = 0,
          scale = 0, exclude_ii = False\<rparr> = Inl InvalidQueryMode
   \<and> (\<exists>it F. querySingle Inr 1 ex_lc ex_geometry ex_query 3
        \<lparr>mode = QueryType_ball, num_neighbors = 0, r_max = 1 / 20, r_min = 0, r_guess = 0,
          scale = 0, exclude_ii = False\<rparr> = Inr (BallIterator it)
        \<and> (\<forall>fuel \<ge> F. \<exists>n it'.
              drive n (ball_next fuel ex_lc ex_geometry) it = Some (Inr ([], it'))))"
proof -
  have fits: "length ex_points + m_Nc ex_lc \<le> LINK_CELL_TERMINATOR"
    by (simp add: ex_points_def ex_lc_fields LINK_CELL_TERMINATOR_def)
  have w: "(0::real) < 4" by simp
  let ?a = "\<lparr>mode = QueryType_none, num_neighbors = 2, r_max = 1, r_min = 0, r_guess = 0,
          scale = 0, exclude_ii = False\<rparr>"
  let ?b = "\<lparr>mode = QueryType_ball, num_neighbors = 0, r_max = 1 / 20, r_min = 0, r_guess = 0,
          scale = 0, exclude_ii = False\<rparr>"
  note A = querySingle_modes [where validateQueryArgs = Inr and args = ?a and a = ?a
      and extra = 1 and q = ex_query and qidx = 3, OF ex_lc_built fits ex_geometry_ok w refl]
  note B = querySingle_modes [where validateQueryArgs = Inr and args = ?b and a = ?b
      and extra = 1 and q = ex_query and qidx = 3, OF ex_lc_built fits ex_geometry_ok w refl]
  from A have 1: "querySingle Inr 1 ex_lc ex_geometry ex_query 3 ?a = Inl InvalidQueryMode"
    by simp
  from B ex_none_within have 2: "\<exists>it F. querySingle Inr 1 ex_lc ex_geometry ex_query 3 ?b
          = Inr (BallIterator it)
        \<and> (\<forall>fuel \<ge> F. \<exists>n it'.
              drive n (ball_next fuel ex_lc ex_geometry) it = Some (Inr ([], it')))"
    by simp
  from ex_lc_built 1 2 show ?thesis by blast
qed

section \<open>The number of bonds of a k-nearest query\<close>

lemma ex_far_home: "offset_cell ex_geometry ex_query_far (IteratorCellShell_new 0 True) = 13"
  by (simp add: offset_cell_def shell_deref_def IteratorCellShell_new_def shell_offsets_0
      ex_geometry_def ortho_geometry_def ex_box_def ortho_Box_def ex_query_far_def cell_plus_def
      ortho_cell1_def)

lemma ex_far_rsq:
  "rsq_of ex_lc ex_geometry ex_query_far 0 = 769 / 20"
  "rsq_of ex_lc ex_geometry ex_query_far (Suc 0) = 61 / 50"
  "rsq_of ex_lc ex_geometry ex_query_far 2 = 9"
  by (simp_all add: rsq_of_def ex_lc_def ex_points_def ex_query_far_def ex_geometry_def
      ortho_geometry_def ex_box_def ortho_Box_def vec_minus_def dot_def ortho_wrap1_def Let_def)

lemma ex_far_offsets:
  "offset_cell ex_geometry ex_query_far \<lparr>m_range = Suc 0, m_pos = 0, m_is2D = True\<rparr> = 7"
  "offset_cell ex_geometry ex_query_far \<lparr>m_range = Suc 0, m_pos = Suc 0, m_is2D = True\<rparr> = 8"
  "offset_cell ex_geometry ex_query_far \<lparr>m_range = Suc 0, m_pos = 2, m_is2D = True\<rparr> = 9"
  "offset_cell ex_geometry ex_query_far \<lparr>m_range = Suc 0, m_pos = 3, m_is2D = True\<rparr> = 12"
  "offset_cell ex_geometry ex_query_far \<lparr>m_range = Suc 0, m_pos = 4, m_is2D = True\<rparr> = 14"
  "offset_cell ex_geometry ex_query_far \<lparr>m_range = Suc 0, m_pos = 5, m_is2D = True\<rparr> = 17"
  "offset_cell ex_geometry ex_query_far \<lparr>m_range = Suc 0, m_pos = 6, m_is2D = True\<rparr> = 18"
  "offset_cell ex_geometry ex_query_far \<lparr>m_range = Suc 0, m_pos = 7, m_is2D = True\<rparr> = 19"
  "offset_cell ex_geometry ex_query_far \<lparr>m_range = 2, m_pos = 0, m_is2D = True\<rparr> = 1"
  using shell_offsets_2D_1 shell_offsets_2D_2_hd
  by (simp_all add: offset_cell_def shell_deref_def
      ex_geometry_def ortho_geometry_def ex_box_def ortho_Box_def ex_query_far_def cell_plus_def
      ortho_cell1_def)

lemma ex_far_heads:
  "m_cell_list ex_lc ! 12 = LINK_CELL_TERMINATOR" "m_cell_list ex_lc ! 17 = 2"
  "m_cell_list ex_lc ! 2 = LINK_CELL_TERMINATOR" "m_cell_list ex_lc ! 22 = LINK_CELL_TERMINATOR"
  by (simp_all add: ex_lc_def)

lemma ex_far_links:
  "IteratorLinkCell_next ex_lc \<lparr>m_cur_idx = 12\<rparr> = Inr \<lparr>m_cur_idx = LINK_CELL_TERMINATOR\<rparr>"
  "IteratorLinkCell_next ex_lc \<lparr>m_cur_idx = 17\<rparr> = Inr \<lparr>m_cur_idx = 2\<rparr>"
  "IteratorLinkCell_next ex_lc \<lparr>m_cur_idx = 2\<rparr> = Inr \<lparr>m_cur_idx = LINK_CELL_TERMINATOR\<rparr>"
  "IteratorLinkCell_next ex_lc \<lparr>m_cur_idx = 22\<rparr> = Inr \<lparr>m_cur_idx = LINK_CELL_TERMINATOR\<rparr>"
  by (simp_all add: IteratorLinkCell_next_def ex_lc_fields ex_far_heads)

lemma ex_far_not_end:
  "\<not> atEnd \<lparr>m_cur_idx = 12\<rparr>" "\<not> atEnd \<lparr>m_cur_idx = 17\<rparr>" "\<not> atEnd \<lparr>m_cur_idx = 2\<rparr>"
  "\<not> atEnd \<lparr>m_cur_idx = 22\<rparr>" "\<not> atEnd \<lparr>m_cur_idx = 4\<rparr>"
  by (simp_all add: atEnd_def LINK_CELL_TERMINATOR_def)

lemma sqrt_far:
  "sqrt 9 = 3" "sqrt (61 / 50) \<le> 3" "\<not> sqrt (769 / 20) \<le> 3"
proof -
  show 9: "sqrt 9 = 3" by (rule real_sqrt_unique) (simp_all add: power2_eq_square)
  have "sqrt (61 / 50) \<le> sqrt 9" by (subst real_sqrt_le_iff) simp
  then show "sqrt (61 / 50) \<le> 3" unfolding 9 .
  have "sqrt 9 < sqrt (769 / 20)" by (subst real_sqrt_less_iff) simp
  then show "\<not> sqrt (769 / 20) \<le> 3" unfolding 9 by linarith
qed

lemma ex_knn_far_eq:
  "ex_knn_far = \<lparr>m_neigh_cell_iter = \<lparr>m_range = 0, m_pos = 0, m_is2D = True\<rparr>,
      m_cell_iter = \<lparr>m_cur_idx = 16\<rparr>,
      m_searched_cells = {}, m_query_point = ex_query_far, m_query_point_idx = 3,
      m_exclude_ii = True, m_finished = False, m_count = 0,
      m_num_neighbors = 3, m_current_neighbors = []\<rparr>"
  by (simp add: ex_knn_far_def knn_init_def ex_lc_fields ex_far_home itercell_def)
     (simp add: IteratorCellShell_new_def)

lemmas ex_far_eval = ex_links ex_links2 ex_far_links ex_not_end ex_not_end2 ex_far_not_end
  ex_lc_fields ex_far_rsq sqrt_far ex_incr ex_far_offsets uint_pred_def getRange_def
  itercell_def IteratorCellShell_new_def Let_def

lemma ex_knn_far_search:
  "\<exists>it'. knn_search 12 ex_lc ex_geometry 4 (ex_knn_far\<lparr>m_searched_cells := {13}\<rparr>)
            = Some (Inr it')
     \<and> m_current_neighbors it' = [NeighborBond3 3 1 (sqrt (61 / 50)), NeighborBond3 3 2 3,
                                    NeighborBond3 3 0 (sqrt (769 / 20))]
     \<and> m_count it' = 0 \<and> m_num_neighbors it' = 3"
  unfolding ex_knn_far_eq by (simp add: ex_far_eval knn_numeral NeighborBond3_sel)

lemma ex_knn_far_first:
  "\<exists>it'. knn_next 12 ortho_npd ex_lc ex_geometry ex_knn_far
            = Some (Inr (Yield (NeighborBond3 3 1 (sqrt (61 / 50))), it'))
     \<and> m_current_neighbors it' = [NeighborBond3 3 1 (sqrt (61 / 50)), NeighborBond3 3 2 3,
                                    NeighborBond3 3 0 (sqrt (769 / 20))]
     \<and> m_count it' = 1 \<and> m_num_neighbors it' = 3"
proof -
  from ex_knn_far_search obtain it1 where
    s: "knn_search 12 ex_lc ex_geometry 4 (ex_knn_far\<lparr>m_searched_cells := {13}\<rparr>)
          = Some (Inr it1)"
    and f: "m_current_neighbors it1 = [NeighborBond3 3 1 (sqrt (61 / 50)), NeighborBond3 3 2 3,
                                       NeighborBond3 3 0 (sqrt (769 / 20))]"
      "m_count it1 = 0" "m_num_neighbors it1 = 3"
    by blast
  have k: "m_current_neighbors ex_knn_far = []" "m_searched_cells ex_knn_far = {}"
    "m_query_point ex_knn_far = ex_query_far"
    "m_neigh_cell_iter ex_knn_far = IteratorCellShell_new 0 True"
    by (simp_all add: ex_knn_far_eq IteratorCellShell_new_def)
  have "knn_next 12 ortho_npd ex_lc ex_geometry ex_knn_far
          = Some (Inr (Yield (NeighborBond3 3 1 (sqrt (61 / 50))), it1\<lparr>m_count := 1\<rparr>))"
    by (simp add: knn_next_def ex_max_range k ex_far_home s f Let_def)
  then show ?thesis using f by simp
qed

text \<open>
  C5, as the claim states it, fails when the index of the query point is not the index of
  a point of the set: self-exclusion compares indices. On the example, the query point
  numbered 3 asks for 3 neighbors with self-exclusion set, among the 3 points 0, 1 and 2:
  the iterator returns 3 bonds, more than \<open>n_points - 1 = 2\<close>.
\<close>

theorem knn_exclude_ii_other_index:
  "map_option (map_sum id fst)
     (drive (Suc (Suc (Suc (Suc 0)))) (knn_next 12 ortho_npd ex_lc ex_geometry) ex_knn_far)
     = Some (Inr [NeighborBond3 3 1 (sqrt (61 / 50)), NeighborBond3 3 2 3,
                  NeighborBond3 3 0 (sqrt (769 / 20))])
   \<and> m_exclude_ii ex_knn_far
   \<and> \<not> length [NeighborBond3 3 1 (sqrt (61 / 50)), NeighborBond3 3 2 3,
                 NeighborBond3 3 0 (sqrt (769 / 20))] \<le> length (m_points ex_lc) - 1"
proof -
  from ex_knn_far_first obtain it1 where
    n1: "knn_next 12 ortho_npd ex_lc ex_geometry ex_knn_far
            = Some (Inr (Yield (NeighborBond3 3 1 (sqrt (61 / 50))), it1))"
    and f: "m_current_neighbors it1 = [NeighborBond3 3 1 (sqrt (61 / 50)), NeighborBond3 3 2 3,
                                       NeighborBond3 3 0 (sqrt (769 / 20))]"
      "m_count it1 = 1" "m_num_neighbors it1 = 3"
    by blast
  have "map_option (map_sum id fst)
     (drive (Suc (Suc (Suc (Suc 0)))) (knn_next 12 ortho_npd ex_lc ex_geometry) ex_knn_far)
     = Some (Inr [NeighborBond3 3 1 (sqrt (61 / 50)), NeighborBond3 3 2 3,
                  NeighborBond3 3 0 (sqrt (769 / 20))])"
    by (simp add: n1 knn_next_buffered f Let_def)
  then show ?thesis
    by (simp add: ex_knn_far_eq ex_lc_fields)
qed

lemma distinct_indices_bound:
  assumes "distinct (map f bs)" and "\<forall>b \<in> set bs. f b < n"
  shows "length bs \<le> n"
    and "q < n \<Longrightarrow> \<forall>b \<in> set bs. f b \<noteq> q \<Longrightarrow> length bs \<le> n - 1"
proof -
  have len: "length bs = card (f ` set bs)"
    using distinct_card [OF assms(1)] by simp
  have "f ` set bs \<subseteq> {..<n}" using assms(2) by auto
  then have "card (f ` set bs) \<le> card {..<n}" by (intro card_mono) simp_all
  then show "length bs \<le> n" using len by simp
  assume q: "q < n" "\<forall>b \<in> set bs. f b \<noteq> q"
  have "f ` set bs \<subseteq> {..<n} - {q}" using assms(2) q(2) by auto
  then have "card (f ` set bs) \<le> card ({..<n} - {q})" by (intro card_mono) simp_all
  also have "\<dots> = n - 1" using q(1) by simp
  finally show "length bs \<le> n - 1" using len by simp
qed

text \<open>
  C5, amended. On a cell list that the constructor has built, a query for \<open>k \<ge> 1\<close> nearest
  neighbors driven to exhaustion with enough fuel ends, and returns at most \<open>k\<close> bonds, no
  point index twice, every bond from the query point to a point of the set other than the
  excluded one: hence at most \<open>n_points\<close> bonds, and at most \<open>n_points - 1\<close> with self-exclusion
  set when the index of the query point is the index of a point of the set.
\<close>

theorem knn_bond_count:
  assumes new: "LinkCell_new npd getCell box w pts = Inr lc"
    and fits: "length pts + m_Nc lc \<le> LINK_CELL_TERMINATOR"
    and g: "geometry_ok g lc" and k: "0 < k"
  shows "\<exists>F. \<forall>fuel \<ge> F. \<exists>n bs it'.
           drive n (knn_next fuel npd lc g) (knn_init lc g q qidx k excl) = Some (Inr (bs, it'))
           \<and> m_finished it' \<and> length bs \<le> k \<and> distinct (map point_idx bs)
           \<and> (\<forall>b \<in> set bs. point_idx b < length pts \<and> query_point_idx b = qidx
                                \<and> (excl \<longrightarrow> point_idx b \<noteq> qidx))
           \<and> length bs \<le> length pts
           \<and> (excl \<and> qidx < length pts \<longrightarrow> length bs \<le> length pts - 1)"
proof -
  from LinkCell_new_ok [OF new fits] obtain cell_of where ok: "cell_list_ok cell_of lc"
    and p: "m_points lc = pts" by blast
  let ?F = "shell_rank (IteratorCellShell_new (knn_max_range npd lc) (is2D (m_box lc)))
              + length (m_points lc) + 2"
  have "\<exists>n bs it'.
           drive n (knn_next fuel npd lc g) (knn_init lc g q qidx k excl) = Some (Inr (bs, it'))
           \<and> m_finished it' \<and> length bs \<le> k \<and> distinct (map point_idx bs)
           \<and> (\<forall>b \<in> set bs. point_idx b < length pts \<and> query_point_idx b = qidx
                                \<and> (excl \<longrightarrow> point_idx b \<noteq> qidx))
           \<and> length bs \<le> length pts
           \<and> (excl \<and> qidx < length pts \<longrightarrow> length bs \<le> length pts - 1)"
    if "?F \<le> fuel" for fuel
  proof -
    from knn_drive_total [OF ok g k that, of q qidx excl] obtain n bs it' where
      d: "drive n (knn_next fuel npd lc g) (knn_init lc g q qidx k excl) = Some (Inr (bs, it'))"
        "m_finished it'" "length bs \<le> k" "distinct (map point_idx bs)"
      and b: "\<forall>b \<in> set bs. point_idx b < length (m_points lc) \<and> query_point_idx b = qidx
                              \<and> (excl \<longrightarrow> point_idx b \<noteq> qidx)"
      by blast
    from b have b0: "\<forall>b \<in> set bs. point_idx b < length pts \<and> query_point_idx b = qidx
                              \<and> (excl \<longrightarrow> point_idx b \<noteq> qidx)"
      unfolding p .
    then have b1: "\<forall>b \<in> set bs. point_idx b < length pts" by blast
    note bound = distinct_indices_bound [OF d(4) b1]
    have "excl \<and> qidx < length pts \<longrightarrow> length bs \<le> length pts - 1"
    proof
      assume h: "excl \<and> qidx < length pts"
      with b have "\<forall>b \<in> set bs. point_idx b \<noteq> qidx" by blast
      with h bound(2) show "length bs \<le> length pts - 1" by blast
    qed
    with d b0 bound(1) show ?thesis by blast
  qed
  then show ?thesis by blast
qed

theorem knn_bond_count_witness:
  "LinkCell_new ortho_npd ortho_getCell ex_box 4 ex_points = Inr ex_lc
   \<and> (\<exists>F. \<forall>fuel \<ge> F. \<exists>n bs it'.
         drive n (knn_next fuel ortho_npd ex_lc ex_geometry)
           (knn_init ex_lc ex_geometry ex_query 1 3 True) = Some (Inr (bs, it'))
         \<and> m_finished it' \<and> length bs \<le> 3 \<and> distinct (map point_idx bs) \<and> length bs \<le> 2)"
proof -
  have fits: "length ex_points + m_Nc ex_lc \<le> LINK_CELL_TERMINATOR"
    by (simp add: ex_points_def ex_lc_fields LINK_CELL_TERMINATOR_def)
  have k: "(0::nat) < 3" by simp
  have len: "length ex_points = 3" by (simp add: ex_points_def)
  from knn_bond_count [OF ex_lc_built fits ex_geometry_ok k, of ex_query 1 True]
  obtain F where F: "\<forall>fuel \<ge> F. \<exists>n bs it'.
         drive n (knn_next fuel ortho_npd ex_lc ex_geometry)
           (knn_init ex_lc ex_geometry ex_query 1 3 True) = Some (Inr (bs, it'))
         \<and> m_finished it' \<and> length bs \<le> 3 \<and> distinct (map point_idx bs)
         \<and> (\<forall>b \<in> set bs. point_idx b < length ex_points \<and> query_point_idx b = 1
                              \<and> (True \<longrightarrow> point_idx b \<noteq> 1))
         \<and> length bs \<le> length ex_points
         \<and> (True \<and> 1 < length ex_points \<longrightarrow> length bs \<le> length ex_points - 1)"
    by blast
  have "\<exists>n bs it'.
         drive n (knn_next fuel ortho_npd ex_lc ex_geometry)
           (knn_init ex_lc ex_geometry ex_query 1 3 True) = Some (Inr (bs, it'))
         \<and> m_finished it' \<and> length bs \<le> 3 \<and> distinct (map point_idx bs) \<and> length bs \<le> 2"
    if "F \<le> fuel" for fuel
  proof -
    from F that obtain n bs it' where r:
      "drive n (knn_next fuel ortho_npd ex_lc ex_geometry)
           (knn_init ex_lc ex_geometry ex_query 1 3 True) = Some (Inr (bs, it'))"
      "m_finished it'" "length bs \<le> 3" "distinct (map point_idx bs)"
      "True \<and> 1 < length ex_points \<longrightarrow> length bs \<le> length ex_points - 1"
      by blast
    from r(5) have "length bs \<le> 2" by (simp add: len)
    with r(1-4) show ?thesis by blast
  qed
  with ex_lc_built show ?thesis by blast
qed

section \<open>A nearest query for no neighbor\<close>

lemma replicate_26: "replicate 26 (0::nat) = [0,0, 0,0,0,0, 0,0,0,0, 0,0,0,0, 0,0,0,0, 0,0,0,0, 0,0,0,0]"
  by (simp add: numeral_eq_Suc)

lemma ex1_updateInternal: "updateInternal ortho_npd ex_box 4 (LinkCell_init ex_box ex1_points) =
  Inr \<lparr>m_box = ex_box, m_points = ex1_points, m_n_points = 0, m_cell_width = 4,
      m_celldim = Vec3 5 5 1, m_cell_index = mk_Index3D 5 5 1, m_cell_list = [], m_Nc = 0\<rparr>"
  by (simp add: updateInternal_def LinkCell_init_def computeDimensions_def ex_box_def ortho_Box_def
     ortho_npd_def null_Box_def is2D_def to_uint_def Let_def mk_Index3D_def getNumElements_def)

lemma ex1_cells:
  assumes "m_box lc = ex_box" "m_celldim lc = Vec3 5 5 1"
  shows "ortho_getCell lc (ex1_points ! 0) = 12"
  using assms
  by (simp_all add: ortho_getCell_def ortho_geometry_def ex_box_def ortho_Box_def ex1_points_def ex_query_def
      cell_plus_def ortho_cell1_def Let_def)

lemma ex1_init_heads:
  "init_heads (Suc 0) [0..<25] (replicate 26 0) = 0 # replicate 25 LINK_CELL_TERMINATOR"
  "init_heads (Suc 0) [0..<25] (0 # replicate 25 0) = 0 # replicate 25 LINK_CELL_TERMINATOR"
  unfolding upt_25 replicate_26 replicate_25 by (simp_all add: numeral_eq_Suc)

lemma ex1_lc_built: "LinkCell_new ortho_npd ortho_getCell ex_box 4 ex1_points = Inr ex1_lc"
proof -
  let ?lc1 = "\<lparr>m_box = ex_box, m_points = ex1_points, m_n_points = 0, m_cell_width = 4,
      m_celldim = Vec3 5 5 1, m_cell_index = mk_Index3D 5 5 1, m_cell_list = [], m_Nc = 0\<rparr>"
  have len: "length ex1_points = Suc 0" by (simp add: ex1_points_def)
  have u: "updateBox ortho_npd ex_box ?lc1 = Inr ?lc1"
    by (rule updateBox_after_updateInternal [OF ex1_updateInternal])
  have "computeCellList ortho_npd ortho_getCell ex_box ex1_points ?lc1 = Inr ex1_lc"
    unfolding computeCellList_def u
    by (simp add: len Let_def getNumCells_def getNumElements_def mk_Index3D_def ex1_init_heads
        ex1_cells) (simp add: replicate_25 ex1_lc_def mk_Index3D_def)
  then show ?thesis
    by (simp add: LinkCell_new_def ex1_updateInternal)
qed

lemma ex1_lc_fields:
  "is2D (m_box ex1_lc)" "m_n_points ex1_lc = Suc 0" "length (m_points ex1_lc) = Suc 0"
  "getCellWidth ex1_lc = 4" "m_Nc ex1_lc = 25" "length (m_cell_list ex1_lc) = 26"
  by (simp_all add: ex1_lc_def is2D_def ex_box_def ortho_Box_def ex1_points_def getCellWidth_def)

lemma ex1_max_range: "knn_max_range ortho_npd ex1_lc = 4"
  by (simp add: knn_max_range_def ex1_lc_def ortho_npd_def ex_box_def ortho_Box_def is2D_def
      getCellWidth_def to_uint_def Let_def)

lemma ex1_links:
  "IteratorLinkCell_next ex1_lc \<lparr>m_cur_idx = 13\<rparr> = Inr \<lparr>m_cur_idx = 0\<rparr>"
  "IteratorLinkCell_next ex1_lc \<lparr>m_cur_idx = 0\<rparr> = Inr \<lparr>m_cur_idx = LINK_CELL_TERMINATOR\<rparr>"
  by (simp_all add: IteratorLinkCell_next_def ex1_lc_def)

lemma ex1_not_end: "\<not> atEnd \<lparr>m_cur_idx = 13\<rparr>"
  by (simp add: atEnd_def LINK_CELL_TERMINATOR_def)

lemma ex1_knn_eq:
  "knn_init ex1_lc ex_geometry ex_query 0 0 True
     = \<lparr>m_neigh_cell_iter = \<lparr>m_range = 0, m_pos = 0, m_is2D = True\<rparr>,
        m_cell_iter = \<lparr>m_cur_idx = 13\<rparr>,
        m_searched_cells = {}, m_query_point = ex_query, m_query_point_idx = 0,
        m_exclude_ii = True, m_finished = False, m_count = 0,
        m_num_neighbors = 0, m_current_neighbors = []\<rparr>"
  by (simp add: knn_init_def ex1_lc_fields ex_home itercell_def)
     (simp add: IteratorCellShell_new_def)

lemma ex1_knn_search:
  "knn_search (Suc (Suc (Suc (Suc fuel)))) ex1_lc ex_geometry 4
     ((knn_init ex1_lc ex_geometry ex_query 0 0 True)\<lparr>m_searched_cells := {12}\<rparr>)
     = Some (Inl OutOfRange)"
  unfolding ex1_knn_eq
  by (simp add: ex1_links ex_not_end ex1_not_end ex1_lc_fields ex_incr ex_offsets uint_pred_def
      getRange_def itercell_def IteratorCellShell_new_def Let_def)

text \<open>
  C8 fails on the code in its second part, for a query of the nearest mode that asks for
  no neighbor. The point set of the example holds the query point alone, numbered 0, and
  self-exclusion is set: no point is eligible. \<^verbatim>\<open>querySingle\<close> returns a k-nearest iterator;
  its first \<^verbatim>\<open>next()\<close> leaves the home cell with an empty buffer, finds the size of the
  buffer at least \<^verbatim>\<open>m_num_neighbors = 0\<close> and reads
  \<^verbatim>\<open>m_current_neighbors[m_num_neighbors - 1]\<close>, at the index 4294967295 of an empty buffer,
  instead of returning the terminator. Less fuel than 4 does not reach the read.
\<close>

theorem nearest_zero_neighbors:
  "LinkCell_new ortho_npd ortho_getCell ex_box 4 [ex_query] = Inr ex1_lc
   \<and> querySingle Inr 1 ex1_lc ex_geometry ex_query 0 ex1_args
        = Inr (NearestIterator (knn_init ex1_lc ex_geometry ex_query 0 0 True))
   \<and> (\<forall>fuel. knn_next (Suc (Suc (Suc (Suc fuel)))) ortho_npd ex1_lc ex_geometry
                (knn_init ex1_lc ex_geometry ex_query 0 0 True) = Some (Inl OutOfRange))"
proof -
  have k: "m_current_neighbors (knn_init ex1_lc ex_geometry ex_query 0 0 True) = []"
    "m_searched_cells (knn_init ex1_lc ex_geometry ex_query 0 0 True) = {}"
    "m_query_point (knn_init ex1_lc ex_geometry ex_query 0 0 True) = ex_query"
    "m_neigh_cell_iter (knn_init ex1_lc ex_geometry ex_query 0 0 True)
       = IteratorCellShell_new 0 True"
    by (simp_all add: ex1_knn_eq IteratorCellShell_new_def)
  have 1: "LinkCell_new ortho_npd ortho_getCell ex_box 4 [ex_query] = Inr ex1_lc"
    using ex1_lc_built by (simp add: ex1_points_def)
  have 2: "querySingle Inr 1 ex1_lc ex_geometry ex_query 0 ex1_args
        = Inr (NearestIterator (knn_init ex1_lc ex_geometry ex_query 0 0 True))"
    by (simp add: querySingle_def ex1_args_def)
  have 3: "knn_next (Suc (Suc (Suc (Suc fuel)))) ortho_npd ex1_lc ex_geometry
                (knn_init ex1_lc ex_geometry ex_query 0 0 True) = Some (Inl OutOfRange)" for fuel
    by (simp add: knn_next_def ex1_max_range k ex_home ex1_knn_search Let_def
        del: knn_search.simps)
  from 1 2 3 show ?thesis by blast
qed

section \<open>The ball query is symmetric\<close>

lemma out_of_range_mono:
  assumes "0 \<le> getCellWidth lc" and "out_of_range lc it sh" and "m_range sh \<le> m_range sh'"
  shows "out_of_range lc it sh'"
proof -
  have "real_of_int (getRange sh - m_extra_search_width it)
          \<le> real_of_int (getRange sh' - m_extra_search_width it)"
    using assms(3) by (simp add: getRange_def)
  then have "real_of_int (getRange sh - m_extra_search_width it) * getCellWidth lc
          \<le> real_of_int (getRange sh' - m_extra_search_width it) * getCellWidth lc"
    using assms(1) by (rule mult_right_mono)
  with assms(2) show ?thesis unfolding out_of_range_def by linarith
qed

lemma shell_rank_inj:
  assumes "shell_valid sh" and "shell_valid sh'" and "m_is2D sh' = m_is2D sh"
    and "shell_rank sh = shell_rank sh'"
  shows "sh = sh'"
proof -
  have "\<not> m_range sh < m_range sh'"
  proof
    assume "m_range sh < m_range sh'"
    from shell_rank_lt [OF assms(1) this]
    have "shell_rank sh < shell_rank (IteratorCellShell_new (m_range sh') (m_is2D sh'))"
      by (simp add: assms(3))
    also have "\<dots> \<le> shell_rank sh'" by (rule shell_rank_ge) simp
    finally show False using assms(4) by simp
  qed
  moreover have "\<not> m_range sh' < m_range sh"
  proof
    assume "m_range sh' < m_range sh"
    from shell_rank_lt [OF assms(2) this]
    have "shell_rank sh' < shell_rank (IteratorCellShell_new (m_range sh) (m_is2D sh))"
      by (simp add: assms(3))
    also have "\<dots> \<le> shell_rank sh" by (rule shell_rank_ge) simp
    finally show False using assms(4) by simp
  qed
  ultimately have r: "m_range sh = m_range sh'" by simp
  with assms(3,4) have "m_pos sh = m_pos sh'" by (simp add: shell_rank_def)
  with r assms(3) show ?thesis by simp
qed

lemma passes_cong:
  "ball_consts it = ball_consts it' \<Longrightarrow> passes lc g it j = passes lc g it' j"
  by (simp add: passes_def ball_consts_def)

lemma ball_bond_cong:
  "ball_consts it = ball_consts it' \<Longrightarrow> ball_bond lc g it j = ball_bond lc g it' j"
  by (simp add: ball_bond_def ball_consts_def)

lemma ball_members_split:
  "ball_members fuel lc g it = Some (Inr (r, it'))
     \<Longrightarrow> is_chain (m_cell_list lc) (m_cur_idx (m_cell_iter it)) js
     \<Longrightarrow> it' = it\<lparr>m_cell_iter := m_cell_iter it'\<rparr>
         \<and> (r = None \<longrightarrow> (\<forall>j \<in> set js. \<not> passes lc g it j))
         \<and> (\<forall>b. r = Some b \<longrightarrow>
               (\<exists>js1 j js2. js = js1 @ j # js2 \<and> (\<forall>x \<in> set js1. \<not> passes lc g it x)
                  \<and> passes lc g it j \<and> b = ball_bond lc g it j
                  \<and> is_chain (m_cell_list lc) (m_cur_idx (m_cell_iter it')) js2))"
proof (induction fuel arbitrary: it js)
  case 0
  then show ?case by simp
next
  case (Suc fuel)
  from Suc.prems(2) have lt: "m_cur_idx (m_cell_iter it) < length (m_cell_list lc)"
    by (rule is_chain_lt)
  have nx: "IteratorLinkCell_next lc (m_cell_iter it)
      = Inr ((m_cell_iter it)\<lparr>m_cur_idx := m_cell_list lc ! m_cur_idx (m_cell_iter it)\<rparr>)"
    using lt by (simp add: IteratorLinkCell_next_def)
  from Suc.prems(1) show ?case
  proof (cases rule: ball_members_SucE)
    case (stop ci)
    from stop(1,2) nx have "m_cell_list lc ! m_cur_idx (m_cell_iter it) = LINK_CELL_TERMINATOR"
      by (auto simp: atEnd_def)
    with Suc.prems(2) have "js = []" by (cases js) simp_all
    with stop(3,4) show ?thesis by simp
  next
    case (hit ci)
    from hit(1,2) nx have ne: "m_cell_list lc ! m_cur_idx (m_cell_iter it) \<noteq> LINK_CELL_TERMINATOR"
      and ci: "m_cur_idx ci = m_cell_list lc ! m_cur_idx (m_cell_iter it)"
      by (auto simp: atEnd_def)
    with Suc.prems(2) obtain js2 where js: "js = m_cur_idx ci # js2"
      and ch: "is_chain (m_cell_list lc) (m_cur_idx ci) js2"
      by (cases js) simp_all
    have p: "passes lc g it (m_cur_idx ci)" using hit(4,5) by (simp add: passes_def)
    have b: "r = Some (ball_bond lc g it (m_cur_idx ci))" using hit(6) by (simp add: ball_bond_def)
    have "js = [] @ m_cur_idx ci # js2 \<and> (\<forall>x \<in> set []. \<not> passes lc g it x)
                  \<and> passes lc g it (m_cur_idx ci)
                  \<and> is_chain (m_cell_list lc) (m_cur_idx (m_cell_iter it')) js2"
      using js p ch hit(7) by simp
    then have "\<exists>js1 j js2. js = js1 @ j # js2 \<and> (\<forall>x \<in> set js1. \<not> passes lc g it x)
                  \<and> passes lc g it j \<and> ball_bond lc g it (m_cur_idx ci) = ball_bond lc g it j
                  \<and> is_chain (m_cell_list lc) (m_cur_idx (m_cell_iter it')) js2"
      by blast
    with b hit(7) show ?thesis by simp
  next
    case (skip ci)
    from skip(1,2) nx have ne: "m_cell_list lc ! m_cur_idx (m_cell_iter it) \<noteq> LINK_CELL_TERMINATOR"
      and ci: "m_cur_idx ci = m_cell_list lc ! m_cur_idx (m_cell_iter it)"
      by (auto simp: atEnd_def)
    with Suc.prems(2) obtain js2 where js: "js = m_cur_idx ci # js2"
      and ch: "is_chain (m_cell_list lc) (m_cur_idx ci) js2"
      by (cases js) simp_all
    let ?it = "it\<lparr>m_cell_iter := ci\<rparr>"
    have np: "\<not> passes lc g it (m_cur_idx ci)" using skip(4) by (simp add: passes_def)
    have ch1: "is_chain (m_cell_list lc) (m_cur_idx (m_cell_iter ?it)) js2" using ch by simp
    have pc: "passes lc g ?it = passes lc g it" "ball_bond lc g ?it = ball_bond lc g it"
      by (simp_all add: passes_def ball_bond_def fun_eq_iff)
    note ih = Suc.IH [OF skip(5) ch1, unfolded pc]
    from ih have 1: "it' = it\<lparr>m_cell_iter := m_cell_iter it'\<rparr>" by simp
    from ih have 2: "r = None \<longrightarrow> (\<forall>j \<in> set js. \<not> passes lc g it j)"
      using np js by simp
    have 3: "\<exists>js1 j js2. js = js1 @ j # js2 \<and> (\<forall>x \<in> set js1. \<not> passes lc g it x)
                  \<and> passes lc g it j \<and> b = ball_bond lc g it j
                  \<and> is_chain (m_cell_list lc) (m_cur_idx (m_cell_iter it')) js2"
      if "r = Some b" for b
    proof -
      from ih that obtain js1 j js3 where s: "js2 = js1 @ j # js3"
        "\<forall>x \<in> set js1. \<not> passes lc g it x" "passes lc g it j" "b = ball_bond lc g it j"
        "is_chain (m_cell_list lc) (m_cur_idx (m_cell_iter it')) js3"
        by blast
      have "js = (m_cur_idx ci # js1) @ j # js3
            \<and> (\<forall>x \<in> set (m_cur_idx ci # js1). \<not> passes lc g it x)"
        using js s(1,2) np by simp
      with s(3-5) show ?thesis by blast
    qed
    from 1 2 3 show ?thesis by blast
  qed
qed

lemma ball_advance_between:
  "ball_advance fuel lc g it = Some (r, it')
     \<Longrightarrow> shell_valid (m_neigh_cell_iter it) \<Longrightarrow> m_is2D (m_neigh_cell_iter it) = d
     \<Longrightarrow> shell_valid (m_neigh_cell_iter it') \<and> m_is2D (m_neigh_cell_iter it') = d
         \<and> shell_rank (m_neigh_cell_iter it) < shell_rank (m_neigh_cell_iter it')
         \<and> (\<forall>sh. shell_valid sh \<and> m_is2D sh = d
                  \<and> shell_rank (m_neigh_cell_iter it) < shell_rank sh
                  \<and> shell_rank sh < shell_rank (m_neigh_cell_iter it')
                \<longrightarrow> offset_cell g (m_query_point it) sh \<in> m_searched_cells it)
         \<and> (r \<longrightarrow> out_of_range lc it (m_neigh_cell_iter it')
                  \<and> it' = it\<lparr>m_neigh_cell_iter := m_neigh_cell_iter it'\<rparr>)
         \<and> (\<not> r \<longrightarrow> \<not> out_of_range lc it (m_neigh_cell_iter it')
                  \<and> offset_cell g (m_query_point it) (m_neigh_cell_iter it')
                        \<notin> m_searched_cells it
                  \<and> it' = it\<lparr>m_neigh_cell_iter := m_neigh_cell_iter it',
                         m_searched_cells :=
                           insert (offset_cell g (m_query_point it) (m_neigh_cell_iter it'))
                             (m_searched_cells it),
                         m_cell_iter :=
                           itercell lc (offset_cell g (m_query_point it)
                                          (m_neigh_cell_iter it'))\<rparr>)"
proof (induction fuel arbitrary: it)
  case 0
  then show ?case by simp
next
  case (Suc fuel)
  let ?P = "m_neigh_cell_iter it"
  let ?sh = "shell_incr ?P"
  note p = shell_incr_props [OF Suc.prems(2)]
  have v: "shell_valid ?sh" and d: "m_is2D ?sh = d"
    and rk: "shell_rank ?sh = Suc (shell_rank ?P)"
    using p Suc.prems(3) by simp_all
  have none: "\<forall>sh. shell_valid sh \<and> m_is2D sh = d
                  \<and> shell_rank ?P < shell_rank sh \<and> shell_rank sh < shell_rank ?sh
                \<longrightarrow> offset_cell g (m_query_point it) sh \<in> m_searched_cells it"
    using rk by auto
  have lt: "shell_rank ?P < shell_rank ?sh" using rk by simp
  from Suc.prems(1) show ?case
  proof (cases rule: ball_advance_SucE)
    case out
    have P': "m_neigh_cell_iter it' = ?sh" by (simp add: out(3))
    show ?thesis unfolding P' using v d lt none out(1,2) out(3) [unfolded P' [symmetric]]
      by (intro conjI impI) (simp_all add: P')
  next
    case new
    have P': "m_neigh_cell_iter it' = ?sh" by (simp add: new(4))
    show ?thesis unfolding P' using v d lt none new(1,2,3) new(4)
      by (intro conjI impI) simp_all
  next
    case seen
    let ?it = "it\<lparr>m_neigh_cell_iter := ?sh\<rparr>"
    have a: "shell_valid (m_neigh_cell_iter ?it)" "m_is2D (m_neigh_cell_iter ?it) = d"
      using v d by simp_all
    have oc: "out_of_range lc ?it = out_of_range lc it"
      by (simp add: out_of_range_def fun_eq_iff)
    note ih = Suc.IH [OF seen(3) a, unfolded oc]
    let ?P' = "m_neigh_cell_iter it'"
    from ih have 1: "shell_valid ?P'" "m_is2D ?P' = d" "shell_rank ?sh < shell_rank ?P'"
      by simp_all
    from ih have btw: "\<forall>sh. shell_valid sh \<and> m_is2D sh = d
                  \<and> shell_rank ?sh < shell_rank sh \<and> shell_rank sh < shell_rank ?P'
                \<longrightarrow> offset_cell g (m_query_point it) sh \<in> m_searched_cells it"
      by simp
    have 2: "offset_cell g (m_query_point it) sh \<in> m_searched_cells it"
      if s: "shell_valid sh" "m_is2D sh = d" "shell_rank ?P < shell_rank sh"
        "shell_rank sh < shell_rank ?P'" for sh
    proof (cases "shell_rank sh = shell_rank ?sh")
      case True
      have "?sh = sh" by (rule shell_rank_inj [OF v s(1)]) (simp_all add: s(2) d True)
      with seen(2) show ?thesis by simp
    next
      case False
      with s(3) rk have "shell_rank ?sh < shell_rank sh" by simp
      with btw s show ?thesis by blast
    qed
    from ih have 3: "r \<longrightarrow> out_of_range lc it ?P' \<and> it' = it\<lparr>m_neigh_cell_iter := ?P'\<rparr>"
      by simp
    from ih have 4: "\<not> r \<longrightarrow> \<not> out_of_range lc it ?P'
                  \<and> offset_cell g (m_query_point it) ?P' \<notin> m_searched_cells it
                  \<and> it' = it\<lparr>m_neigh_cell_iter := ?P',
                         m_searched_cells :=
                           insert (offset_cell g (m_query_point it) ?P') (m_searched_cells it),
                         m_cell_iter := itercell lc (offset_cell g (m_query_point it) ?P')\<rparr>"
      by simp
    have 5: "shell_rank ?P < shell_rank ?P'" using 1(3) rk by simp
    from 1(1,2) 5 2 3 4 show ?thesis by blast
  qed
qed

lemma owed_cong:
  "m_searched_cells it' = m_searched_cells it \<Longrightarrow> m_neigh_cell_iter it' = m_neigh_cell_iter it
     \<Longrightarrow> owed cell_of lc g it0 it' js = owed cell_of lc g it0 it js"
  by (simp add: owed_def fun_eq_iff)

lemma owed_yield:
  assumes "owed cell_of lc g it0 it (js1 @ j # js2) x"
    and "\<forall>x \<in> set js1. \<not> passes lc g it0 x"
  shows "x = j \<or> owed cell_of lc g it0 it js2 x"
  using assms unfolding owed_def by auto

lemma owed_exhausted:
  assumes w: "0 \<le> getCellWidth lc"
    and none: "\<forall>x \<in> set js. \<not> passes lc g it0 x"
    and btw: "\<forall>sh. shell_valid sh \<and> m_is2D sh = is2D (m_box lc)
                  \<and> shell_rank (m_neigh_cell_iter it) < shell_rank sh \<and> shell_rank sh < shell_rank P'
                \<longrightarrow> offset_cell g (m_query_point it0) sh \<in> m_searched_cells it"
    and out: "out_of_range lc it0 P'" and d: "m_is2D P' = is2D (m_box lc)"
  shows "\<not> owed cell_of lc g it0 it js x"
proof
  assume o: "owed cell_of lc g it0 it js x"
  with none obtain sh where s: "cell_of (m_points lc ! x) \<notin> m_searched_cells it"
    "shell_valid sh" "m_is2D sh = is2D (m_box lc)"
    "shell_rank (m_neigh_cell_iter it) < shell_rank sh" "\<not> out_of_range lc it0 sh"
    "cell_of (m_points lc ! x) = offset_cell g (m_query_point it0) sh"
    unfolding owed_def by blast
  have "m_range sh < m_range P'"
  proof (rule ccontr)
    assume "\<not> m_range sh < m_range P'"
    then have "m_range P' \<le> m_range sh" by simp
    from out_of_range_mono [OF w out this] s(5) show False by simp
  qed
  from shell_rank_lt [OF s(2) this]
  have "shell_rank sh < shell_rank (IteratorCellShell_new (m_range P') (m_is2D P'))"
    by (simp add: s(3) d)
  also have "\<dots> \<le> shell_rank P'" by (rule shell_rank_ge) simp
  finally have "shell_rank sh < shell_rank P'" .
  with btw s(2,3,4) have "offset_cell g (m_query_point it0) sh \<in> m_searched_cells it" by blast
  with s(1,6) show False by simp
qed

lemma owed_more:
  assumes o: "owed cell_of lc g it0 it js x"
    and none: "\<forall>x \<in> set js. \<not> passes lc g it0 x"
    and btw: "\<forall>sh. shell_valid sh \<and> m_is2D sh = is2D (m_box lc)
                  \<and> shell_rank (m_neigh_cell_iter it) < shell_rank sh
                  \<and> shell_rank sh < shell_rank (m_neigh_cell_iter it2)
                \<longrightarrow> offset_cell g (m_query_point it0) sh \<in> m_searched_cells it"
    and v: "shell_valid (m_neigh_cell_iter it2)"
    and d: "m_is2D (m_neigh_cell_iter it2) = is2D (m_box lc)"
    and S: "m_searched_cells it2
              = insert (offset_cell g (m_query_point it0) (m_neigh_cell_iter it2))
                  (m_searched_cells it)"
  shows "owed cell_of lc g it0 it2
           (cell_members cell_of (m_points lc)
              (offset_cell g (m_query_point it0) (m_neigh_cell_iter it2))) x"
proof -
  let ?c = "offset_cell g (m_query_point it0) (m_neigh_cell_iter it2)"
  from o have p: "passes lc g it0 x" by (simp add: owed_def)
  from o none p obtain sh where s: "x < length (m_points lc)"
    "cell_of (m_points lc ! x) \<notin> m_searched_cells it"
    "shell_valid sh" "m_is2D sh = is2D (m_box lc)"
    "shell_rank (m_neigh_cell_iter it) < shell_rank sh" "\<not> out_of_range lc it0 sh"
    "cell_of (m_points lc ! x) = offset_cell g (m_query_point it0) sh"
    unfolding owed_def by blast
  show ?thesis
  proof (cases "cell_of (m_points lc ! x) = ?c")
    case True
    with s(1) have "x \<in> set (cell_members cell_of (m_points lc) ?c)"
      by (simp add: cell_members_def)
    with p show ?thesis by (simp add: owed_def)
  next
    case False
    have n1: "\<not> shell_rank sh < shell_rank (m_neigh_cell_iter it2)"
    proof
      assume "shell_rank sh < shell_rank (m_neigh_cell_iter it2)"
      with btw s(3,4,5) have "offset_cell g (m_query_point it0) sh \<in> m_searched_cells it"
        by blast
      with s(2,7) show False by simp
    qed
    have n2: "shell_rank sh \<noteq> shell_rank (m_neigh_cell_iter it2)"
    proof
      assume e: "shell_rank sh = shell_rank (m_neigh_cell_iter it2)"
      have "sh = m_neigh_cell_iter it2"
        by (rule shell_rank_inj [OF s(3) v]) (simp_all add: s(4) d e)
      with s(7) False show False by simp
    qed
    from n1 n2 have gt: "shell_rank (m_neigh_cell_iter it2) < shell_rank sh" by simp
    have nS: "cell_of (m_points lc ! x) \<notin> m_searched_cells it2"
      unfolding S using s(2) False by simp
    have "\<exists>sh. shell_valid sh \<and> m_is2D sh = is2D (m_box lc)
                      \<and> shell_rank (m_neigh_cell_iter it2) < shell_rank sh
                      \<and> \<not> out_of_range lc it0 sh
                      \<and> cell_of (m_points lc ! x) = offset_cell g (m_query_point it0) sh"
      using s(3,4,6,7) gt by blast
    with p s(1) nS show ?thesis unfolding owed_def by blast
  qed
qed

lemma found_member:
  assumes "reached lc it0 P"
    and "cell_members cell_of (m_points lc) (offset_cell g (m_query_point it0) P) = pre @ js"
    and "j \<in> set js" and "passes lc g it0 j"
  shows "found cell_of lc g it0 j"
proof -
  from assms(2,3) have "j \<in> set (cell_members cell_of (m_points lc)
                                   (offset_cell g (m_query_point it0) P))" by simp
  then have "j < length (m_points lc)"
    "cell_of (m_points lc ! j) = offset_cell g (m_query_point it0) P"
    by (simp_all add: cell_members_def)
  with assms(1,4) show ?thesis unfolding found_def by blast
qed

lemma ball_loop_complete:
  assumes ok: "cell_list_ok cell_of lc" and g: "geometry_ok g lc" and w: "0 \<le> getCellWidth lc"
  shows "ball_loop fuel lc g it = Some (Inr (res, it')) \<Longrightarrow> ball_at cell_of lc g it0 it js
     \<Longrightarrow> (res = EXHAUSTED \<longrightarrow> (\<forall>x. \<not> owed cell_of lc g it0 it js x))
       \<and> (\<forall>b. res = Yield b \<longrightarrow>
            (\<exists>j js'. b = ball_bond lc g it0 j \<and> found cell_of lc g it0 j
               \<and> ball_at cell_of lc g it0 it' js'
               \<and> (\<forall>x. owed cell_of lc g it0 it js x \<longrightarrow> x = j \<or> owed cell_of lc g it0 it' js' x)))"
proof (induction fuel arbitrary: it js)
  case 0
  then show ?case by simp
next
  case (Suc fuel)
  let ?P = "m_neigh_cell_iter it"
  let ?q = "m_query_point it0"
  from Suc.prems(2) have c: "ball_consts it = ball_consts it0"
    and rc: "reached lc it0 ?P"
    and inS: "offset_cell g ?q ?P \<in> m_searched_cells it"
    and ch: "is_chain (m_cell_list lc) (m_cur_idx (m_cell_iter it)) js"
    unfolding ball_at_def by blast+
  from Suc.prems(2) obtain pre where pre:
    "cell_members cell_of (m_points lc) (offset_cell g ?q ?P) = pre @ js"
    unfolding ball_at_def by blast
  from c have q: "m_query_point it = ?q" by (simp add: ball_consts_def)
  note pas = passes_cong [OF c] and bnd = ball_bond_cong [OF c]
    and oor = out_of_range_cong [OF c]
  from rc have vP: "shell_valid ?P" and dP: "m_is2D ?P = is2D (m_box lc)"
    unfolding reached_def by blast+
  from Suc.prems(1) show ?case
  proof (cases rule: ball_loop_SucE)
    case (yield b)
    note m = ball_members_split [OF yield(1) ch, unfolded pas bnd]
    from m have it': "it' = it\<lparr>m_cell_iter := m_cell_iter it'\<rparr>" by simp
    from m obtain js1 j js2 where s: "js = js1 @ j # js2"
      "\<forall>x \<in> set js1. \<not> passes lc g it0 x" "passes lc g it0 j" "b = ball_bond lc g it0 j"
      "is_chain (m_cell_list lc) (m_cur_idx (m_cell_iter it')) js2"
      by blast
    have sel: "m_neigh_cell_iter it' = ?P" "m_searched_cells it' = m_searched_cells it"
      "ball_consts it' = ball_consts it"
      by (subst it', simp add: ball_consts_def)+
    have f: "found cell_of lc g it0 j"
      by (rule found_member [OF rc pre _ s(3)]) (simp add: s(1))
    have pre': "cell_members cell_of (m_points lc) (offset_cell g ?q ?P) = (pre @ js1 @ [j]) @ js2"
      using pre s(1) by simp
    have at: "ball_at cell_of lc g it0 it' js2"
      unfolding ball_at_def sel using c rc inS s(5) pre' by blast
    have ow: "\<forall>x. owed cell_of lc g it0 it js x \<longrightarrow> x = j \<or> owed cell_of lc g it0 it' js2 x"
      unfolding owed_cong [OF sel(2,1)] s(1) using owed_yield [OF _ s(2)] by blast
    from s(4) f at ow have "\<exists>j js'. b = ball_bond lc g it0 j \<and> found cell_of lc g it0 j
               \<and> ball_at cell_of lc g it0 it' js'
               \<and> (\<forall>x. owed cell_of lc g it0 it js x \<longrightarrow> x = j \<or> owed cell_of lc g it0 it' js' x)"
      by blast
    with yield(2) show ?thesis by simp
  next
    case (finish it1 it2)
    note m = ball_members_split [OF finish(1) ch, unfolded pas bnd]
    from m have it1: "it1 = it\<lparr>m_cell_iter := m_cell_iter it1\<rparr>"
      and none: "\<forall>x \<in> set js. \<not> passes lc g it0 x" by simp_all
    have sel: "m_neigh_cell_iter it1 = ?P" "m_searched_cells it1 = m_searched_cells it"
      "m_query_point it1 = ?q" "ball_consts it1 = ball_consts it0"
      by (subst it1, simp add: ball_consts_def q c [unfolded ball_consts_def, simplified])+
    have v1: "shell_valid (m_neigh_cell_iter it1)"
      "m_is2D (m_neigh_cell_iter it1) = is2D (m_box lc)"
      using vP dP by (simp_all add: sel)
    note a = ball_advance_between [OF finish(2) v1, unfolded sel out_of_range_cong [OF sel(4)]]
    from a have btw: "\<forall>sh. shell_valid sh \<and> m_is2D sh = is2D (m_box lc)
                  \<and> shell_rank ?P < shell_rank sh \<and> shell_rank sh < shell_rank (m_neigh_cell_iter it2)
                \<longrightarrow> offset_cell g ?q sh \<in> m_searched_cells it"
      and out: "out_of_range lc it0 (m_neigh_cell_iter it2)"
      and d2: "m_is2D (m_neigh_cell_iter it2) = is2D (m_box lc)"
      by simp_all
    have "\<not> owed cell_of lc g it0 it js x" for x
      by (rule owed_exhausted [OF w none btw out d2])
    with finish(3) show ?thesis by simp
  next
    case (more it1 it2)
    note m = ball_members_split [OF more(1) ch, unfolded pas bnd]
    from m have it1: "it1 = it\<lparr>m_cell_iter := m_cell_iter it1\<rparr>"
      and none: "\<forall>x \<in> set js. \<not> passes lc g it0 x" by simp_all
    have sel: "m_neigh_cell_iter it1 = ?P" "m_searched_cells it1 = m_searched_cells it"
      "m_query_point it1 = ?q" "ball_consts it1 = ball_consts it0"
      by (subst it1, simp add: ball_consts_def q c [unfolded ball_consts_def, simplified])+
    have v1: "shell_valid (m_neigh_cell_iter it1)"
      "m_is2D (m_neigh_cell_iter it1) = is2D (m_box lc)"
      using vP dP by (simp_all add: sel)
    note a = ball_advance_between [OF more(2) v1, unfolded sel out_of_range_cong [OF sel(4)]]
    let ?P2 = "m_neigh_cell_iter it2"
    let ?c = "offset_cell g ?q ?P2"
    let ?js = "cell_members cell_of (m_points lc) ?c"
    from a have btw: "\<forall>sh. shell_valid sh \<and> m_is2D sh = is2D (m_box lc)
                  \<and> shell_rank ?P < shell_rank sh \<and> shell_rank sh < shell_rank ?P2
                \<longrightarrow> offset_cell g ?q sh \<in> m_searched_cells it"
      and v2: "shell_valid ?P2" and d2: "m_is2D ?P2 = is2D (m_box lc)"
      and nout: "\<not> out_of_range lc it0 ?P2"
      and it2: "it2 = it1\<lparr>m_neigh_cell_iter := ?P2,
                         m_searched_cells := insert ?c (m_searched_cells it),
                         m_cell_iter := itercell lc ?c\<rparr>"
      by simp_all
    have sel2: "m_searched_cells it2 = insert ?c (m_searched_cells it)"
      "m_cell_iter it2 = itercell lc ?c" "ball_consts it2 = ball_consts it0"
      by (subst it2, simp add: ball_consts_def sel(4) [unfolded ball_consts_def, simplified])+
    have cN: "?c < m_Nc lc" using g by (simp add: geometry_ok_def offset_cell_def)
    from ok have chn: "\<forall>c<m_Nc lc. is_chain (m_cell_list lc) (m_n_points lc + c)
                  (cell_members cell_of (m_points lc) c)"
      unfolding cell_list_ok_def by blast
    from chn cN have chain: "is_chain (m_cell_list lc) (m_n_points lc + ?c) ?js" by blast
    have r2: "reached lc it0 ?P2" unfolding reached_def using v2 d2 nout by blast
    have "cell_members cell_of (m_points lc) ?c = [] @ ?js" by simp
    then have pre2: "\<exists>pre. cell_members cell_of (m_points lc) ?c = pre @ ?js" by blast
    have at2: "ball_at cell_of lc g it0 it2 ?js"
      unfolding ball_at_def sel2 using r2 chain pre2 by (simp add: itercell_def)
    note ih = Suc.IH [OF more(3) at2]
    have tr: "owed cell_of lc g it0 it2 ?js x" if "owed cell_of lc g it0 it js x" for x
      by (rule owed_more [OF that none btw v2 d2 sel2(1)])
    from ih tr show ?thesis by blast
  qed
qed

lemma ball_insert_absorb:
  assumes "ball_at cell_of lc g it0 it js"
  shows "ball_insert g it = it"
proof -
  from assms have c: "ball_consts it = ball_consts it0"
    and inS: "offset_cell g (m_query_point it0) (m_neigh_cell_iter it) \<in> m_searched_cells it"
    unfolding ball_at_def by blast+
  from c have "m_query_point it = m_query_point it0" by (simp add: ball_consts_def)
  with inS show ?thesis by (simp add: ball_insert_def insert_absorb)
qed

lemma ball_drive_complete:
  assumes ok: "cell_list_ok cell_of lc" and g: "geometry_ok g lc" and w: "0 \<le> getCellWidth lc"
  shows "drive n (ball_next fuel lc g) it = Some (Inr (bs, it'))
     \<Longrightarrow> ball_at cell_of lc g it0 (ball_insert g it) js
     \<Longrightarrow> (\<forall>b \<in> set bs. \<exists>j. b = ball_bond lc g it0 j \<and> found cell_of lc g it0 j)
       \<and> (\<forall>x. owed cell_of lc g it0 (ball_insert g it) js x \<longrightarrow> ball_bond lc g it0 x \<in> set bs)"
proof (induction n arbitrary: it js bs)
  case 0
  then show ?case by simp
next
  case (Suc n)
  have nx: "ball_next fuel lc g it = ball_loop fuel lc g (ball_insert g it)"
    by (simp add: ball_next_unfold ball_insert_def)
  from Suc.prems(1) show ?case
  proof (cases rule: drive_SucE)
    case last
    from last(1) have l: "ball_loop fuel lc g (ball_insert g it) = Some (Inr (EXHAUSTED, it'))"
      by (simp add: nx)
    from ball_loop_complete [OF ok g w l Suc.prems(2)]
    have "\<forall>x. \<not> owed cell_of lc g it0 (ball_insert g it) js x" by simp
    with last(2) show ?thesis by simp
  next
    case (step b s1 bs')
    from step(1) have l: "ball_loop fuel lc g (ball_insert g it) = Some (Inr (Yield b, s1))"
      by (simp add: nx)
    from ball_loop_complete [OF ok g w l Suc.prems(2)]
    obtain j js' where r: "b = ball_bond lc g it0 j" "found cell_of lc g it0 j"
      "ball_at cell_of lc g it0 s1 js'"
      "\<forall>x. owed cell_of lc g it0 (ball_insert g it) js x
           \<longrightarrow> x = j \<or> owed cell_of lc g it0 s1 js' x"
      by auto
    have ab: "ball_insert g s1 = s1" by (rule ball_insert_absorb [OF r(3)])
    from r(3) have at: "ball_at cell_of lc g it0 (ball_insert g s1) js'" by (simp add: ab)
    note ih = Suc.IH [OF step(2) at, unfolded ab]
    from ih have 1: "\<forall>b \<in> set bs'. \<exists>j. b = ball_bond lc g it0 j \<and> found cell_of lc g it0 j"
      and 2: "\<forall>x. owed cell_of lc g it0 s1 js' x \<longrightarrow> ball_bond lc g it0 x \<in> set bs'"
      by blast+
    have A: "\<forall>b \<in> set bs. \<exists>j. b = ball_bond lc g it0 j \<and> found cell_of lc g it0 j"
      unfolding step(3) using 1 r(1,2) by auto
    have B: "ball_bond lc g it0 x \<in> set bs"
      if "owed cell_of lc g it0 (ball_insert g it) js x" for x
    proof -
      from r(4) that have "x = j \<or> owed cell_of lc g it0 s1 js' x" by blast
      then show ?thesis
      proof
        assume "x = j"
        then show ?thesis by (simp add: step(3) r(1))
      next
        assume "owed cell_of lc g it0 s1 js' x"
        with 2 show ?thesis by (simp add: step(3))
      qed
    qed
    from A B show ?thesis by blast
  qed
qed

lemma shell_offsets_set:
  "v \<in> set (shell_offsets d r) \<longleftrightarrow>
     cheb v = r \<and> - int r \<le> vx v \<and> vx v \<le> int r \<and> - int r \<le> vy v \<and> vy v \<le> int r
     \<and> (if d then vz v = 0 else - int r \<le> vz v \<and> vz v \<le> int r)"
proof -
  have grid: "Vec3 x y z \<in> set (concat (map (\<lambda>z. concat (map (\<lambda>y. map (\<lambda>x. Vec3 x y z) xs) ys)) zs))
      \<longleftrightarrow> x \<in> set xs \<and> y \<in> set ys \<and> z \<in> set zs" for x y z :: int and xs ys zs
    by (auto simp: image_iff)
  obtain x y z where v: "v = Vec3 x y z" by (cases v)
  show ?thesis
    unfolding v shell_offsets_def set_filter mem_Collect_eq grid
    by (cases d) auto
qed

lemma cheb_neg: "cheb (vec_neg v) = cheb v"
  by (simp add: cheb_def vec_neg_def)

lemma shell_neg:
  assumes "shell_valid sh"
  shows "\<exists>sh'. shell_valid sh' \<and> m_is2D sh' = m_is2D sh \<and> m_range sh' = m_range sh
           \<and> shell_deref sh' = vec_neg (shell_deref sh)"
proof -
  let ?xs = "shell_offsets (m_is2D sh) (m_range sh)"
  from assms have "shell_deref sh \<in> set ?xs"
    by (simp add: shell_valid_def shell_deref_def)
  then have "vec_neg (shell_deref sh) \<in> set ?xs"
    unfolding shell_offsets_set cheb_neg by (auto simp: vec_neg_def)
  then obtain k where k: "k < length ?xs" "?xs ! k = vec_neg (shell_deref sh)"
    by (auto simp: in_set_conv_nth)
  let ?sh = "\<lparr>m_range = m_range sh, m_pos = k, m_is2D = m_is2D sh\<rparr>"
  have "shell_valid ?sh \<and> m_is2D ?sh = m_is2D sh \<and> m_range ?sh = m_range sh
           \<and> shell_deref ?sh = vec_neg (shell_deref sh)"
    using k by (simp add: shell_valid_def shell_deref_def)
  then show ?thesis by blast
qed

lemma updateInternal_cell_list:
  assumes "updateInternal npd box w lc = Inr lc'"
  shows "m_cell_list lc' = m_cell_list lc"
  using assms by (auto simp: updateInternal_def Let_def split: if_splits)

lemma LinkCell_new_cells:
  assumes new: "LinkCell_new npd getCell box w pts = Inr lc"
    and fits: "length pts + m_Nc lc \<le> LINK_CELL_TERMINATOR"
  shows "cell_list_ok (getCell (lc\<lparr>m_cell_list := []\<rparr>)) lc"
proof -
  obtain lc1 where u: "updateInternal npd box w (LinkCell_init box pts) = Inr lc1"
    and c: "computeCellList npd getCell box pts lc1 = Inr lc"
    using new by (cases "updateInternal npd box w (LinkCell_init box pts)")
      (simp_all add: LinkCell_new_def)
  have k: "m_points lc1 = pts" "m_n_points lc1 = 0"
    using updateInternal_keeps [OF u] by (simp_all add: LinkCell_init_def)
  have e: "m_cell_list lc1 = []"
    using updateInternal_cell_list [OF u] by (simp add: LinkCell_init_def)
  have ub: "updateBox npd box lc1 = Inr lc1"
    by (rule updateBox_after_updateInternal [OF u])
  define n where "n = length pts"
  define Nc where "Nc = getNumCells lc1"
  define lc2 where "lc2 = lc1\<lparr>m_n_points := n, m_Nc := Nc\<rparr>"
  define cl where "cl = init_heads n [0..<Nc] (replicate (n + Nc) 0)"
  have eq: "computeCellList npd getCell box pts lc1 =
      (if n = 0 then Inl EmptyPointSet
       else case generate_cell_list (getCell lc2) pts n (rev [0..<n]) cl of
              Inl e \<Rightarrow> Inl e | Inr cl' \<Rightarrow> Inr (lc2\<lparr>m_cell_list := cl'\<rparr>))"
    unfolding computeCellList_def ub
    by (simp add: Let_def k n_def Nc_def lc2_def cl_def split: sum.split)
  from c eq have n0: "n \<noteq> 0" by (simp split: if_splits)
  with c eq obtain cl' where
    gen: "generate_cell_list (getCell lc2) pts n (rev [0..<n]) cl = Inr cl'"
    and lc: "lc = lc2\<lparr>m_cell_list := cl'\<rparr>"
    by (cases "generate_cell_list (getCell lc2) pts n (rev [0..<n]) cl") simp_all
  have f: "m_points lc = pts" "m_n_points lc = n" "m_Nc lc = Nc" "m_cell_list lc = cl'"
    by (simp_all add: lc lc2_def k)
  have len: "length cl = n + Nc"
    by (simp add: cl_def init_heads_length)
  have heads: "\<forall>c<Nc. is_chain cl (n + c) (filter (\<lambda>i. getCell lc2 (pts ! i) = c) [n..<n])"
    using len by (simp add: cl_def init_heads_nth init_heads_length)
  have nT: "n \<le> LINK_CELL_TERMINATOR" using fits by (simp add: n_def)
  have chains: "\<forall>c<Nc. is_chain cl' (n + c) (filter (\<lambda>i. getCell lc2 (pts ! i) = c) [0..<n])"
    by (rule generate_chain [OF gen len _ nT heads]) simp
  have "cell_list_ok (getCell lc2) lc"
    unfolding cell_list_ok_def cell_members_def f
    using chains fits generate_length [OF gen] len by (simp add: n_def f)
  moreover have "lc\<lparr>m_cell_list := []\<rparr> = lc2" by (simp add: lc lc2_def e [symmetric])
  ultimately show ?thesis by simp
qed

lemma ball_init_at:
  assumes ok: "cell_list_ok (home_cell g lc) lc" and g: "geometry_ok g lc"
  shows "ball_at (home_cell g lc) lc g (ball_init lc g q qidx r excl extra)
           (ball_insert g (ball_init lc g q qidx r excl extra))
           (cell_members (home_cell g lc) (m_points lc) (home_cell g lc q))"
proof -
  let ?it = "ball_init lc g q qidx r excl extra"
  let ?P = "IteratorCellShell_new 0 (is2D (m_box lc))"
  let ?c = "home_cell g lc q"
  have cN: "?c < m_Nc lc" using g by (simp add: geometry_ok_def offset_cell_def home_cell_def)
  from ok have chn: "\<forall>c<m_Nc lc. is_chain (m_cell_list lc) (m_n_points lc + c)
                  (cell_members (home_cell g lc) (m_points lc) c)"
    unfolding cell_list_ok_def by blast
  from chn cN have chain: "is_chain (m_cell_list lc) (m_n_points lc + ?c)
      (cell_members (home_cell g lc) (m_points lc) ?c)" by blast
  have sel: "m_neigh_cell_iter (ball_insert g ?it) = ?P"
    "m_searched_cells (ball_insert g ?it) = {?c}"
    "m_cell_iter (ball_insert g ?it) = itercell lc ?c"
    "ball_consts (ball_insert g ?it) = ball_consts ?it"
    "m_query_point ?it = q"
    by (simp_all add: ball_insert_def ball_init_def home_cell_def ball_consts_def)
  have r: "reached lc ?it ?P"
    by (simp add: reached_def shell_valid_new shell_new_sel)
  have "cell_members (home_cell g lc) (m_points lc) ?c
          = [] @ cell_members (home_cell g lc) (m_points lc) ?c" by simp
  then have pre: "\<exists>pre. cell_members (home_cell g lc) (m_points lc) ?c
          = pre @ cell_members (home_cell g lc) (m_points lc) ?c" by blast
  show ?thesis
    unfolding ball_at_def sel
    using r chain pre by (simp add: itercell_def home_cell_def [symmetric])
qed

lemma home_cell_unfold:
  "home_cell g lc p = getCellIndex g (cell_plus (getCellCoord g p) (Vec3 0 0 0))"
  by (simp add: home_cell_def offset_cell_def shell_deref_def shell_new_sel shell_offsets_0)

lemma shell_range_0:
  assumes "shell_valid sh" and "m_range sh = 0"
  shows "sh = IteratorCellShell_new 0 (m_is2D sh)"
proof -
  from assms have "m_pos sh = 0" by (simp add: shell_valid_def shell_offsets_0)
  with assms(2) show ?thesis by (simp add: IteratorCellShell_new_def)
qed

lemma rsq_of_sym:
  assumes "even_wrap g"
  shows "rsq_of lc g (m_points lc ! j) i = rsq_of lc g (m_points lc ! i) j"
  using assms by (simp add: rsq_of_def Let_def even_wrap_def)

lemma ball_symmetric_bond:
  assumes ok: "cell_list_ok (home_cell g lc) lc" and g: "geometry_ok g lc"
    and w: "0 \<le> getCellWidth lc" and per: "periodic_cells g" and ev: "even_wrap g"
    and i: "i < length (m_points lc)"
    and di: "drive ni (ball_next fi lc g) (ball_init lc g (m_points lc ! i) i r excl extra)
               = Some (Inr (bsi, iti))"
    and dj: "drive nj (ball_next fj lc g) (ball_init lc g (m_points lc ! j) j r excl extra)
               = Some (Inr (bsj, itj))"
    and b: "NeighborBond3 i j d \<in> set bsi"
  shows "NeighborBond3 j i d \<in> set bsj \<and> j < length (m_points lc) \<and> (excl \<longrightarrow> i \<noteq> j)"
proof -
  let ?pts = "m_points lc"
  let ?I = "ball_init lc g (?pts ! i) i r excl extra"
  let ?J = "ball_init lc g (?pts ! j) j r excl extra"
  let ?h = "home_cell g lc"
  let ?d = "is2D (m_box lc)"
  have selI: "m_query_point ?I = ?pts ! i" "m_query_point_idx ?I = i" "m_r ?I = r"
    "m_exclude_ii ?I = excl" "m_extra_search_width ?I = extra"
    by (simp_all add: ball_init_def)
  have selJ: "m_query_point ?J = ?pts ! j" "m_query_point_idx ?J = j" "m_r ?J = r"
    "m_exclude_ii ?J = excl" "m_extra_search_width ?J = extra"
    by (simp_all add: ball_init_def)
  from ball_drive_complete [OF ok g w di ball_init_at [OF ok g]] b
  obtain x where x: "NeighborBond3 i j d = ball_bond lc g ?I x" "found ?h lc g ?I x"
    by blast
  from x(1) have xj: "x = j" and d: "d = sqrt (rsq_of lc g (?pts ! i) j)"
    by (simp_all add: ball_bond_def selI NeighborBond3_def)
  from x(2) have jn: "j < length ?pts" and pI: "passes lc g ?I j"
    unfolding found_def xj by blast+
  from x(2) obtain sh where sh: "reached lc ?I sh" "?h (?pts ! j) = offset_cell g (?pts ! i) sh"
    unfolding found_def xj selI by blast
  from pI have lt: "rsq_of lc g (?pts ! i) j < r * r" and ne: "excl \<longrightarrow> i \<noteq> j"
    by (auto simp: passes_def ball_init_def)
  note sym = rsq_of_sym [OF ev, of lc j i]
  have pJ: "passes lc g ?J i"
    unfolding passes_def selJ sym using lt ne by auto
  have ow: "owed ?h lc g ?J (ball_insert g ?J) (cell_members ?h ?pts (?h (?pts ! j))) i"
  proof (cases "?h (?pts ! i) = ?h (?pts ! j)")
    case True
    with i have "i \<in> set (cell_members ?h ?pts (?h (?pts ! j)))"
      by (simp add: cell_members_def)
    with pJ show ?thesis by (simp add: owed_def)
  next
    case False
    from sh(1) have v: "shell_valid sh" and d2: "m_is2D sh = ?d"
      and rg: "m_range sh = 0 \<or> \<not> out_of_range lc ?I sh"
      unfolding reached_def by blast+
    have r0: "m_range sh \<noteq> 0"
    proof
      assume "m_range sh = 0"
      from shell_range_0 [OF v this] have "sh = IteratorCellShell_new 0 ?d" by (simp add: d2)
      with sh(2) have "?h (?pts ! j) = ?h (?pts ! i)" by (simp add: home_cell_def)
      with False show False by simp
    qed
    with rg have no: "\<not> out_of_range lc ?I sh" by simp
    from shell_neg [OF v] obtain sh' where s': "shell_valid sh'" "m_is2D sh' = m_is2D sh"
      "m_range sh' = m_range sh" "shell_deref sh' = vec_neg (shell_deref sh)"
      by blast
    have no': "\<not> out_of_range lc ?J sh'"
      using no by (simp add: out_of_range_def selI selJ getRange_def s'(3))
    from r0 s'(3) have "0 < m_range sh'" by simp
    from shell_rank_gt [OF this]
    have rk: "shell_rank (m_neigh_cell_iter (ball_insert g ?J)) < shell_rank sh'"
      by (simp add: ball_insert_def ball_init_def s'(2) d2)
    have "getCellIndex g (cell_plus (getCellCoord g (?pts ! i)) (shell_deref sh))
            = getCellIndex g (cell_plus (getCellCoord g (?pts ! j)) (Vec3 0 0 0))"
      using sh(2) by (simp add: home_cell_unfold offset_cell_def)
    with per have "getCellIndex g (cell_plus (getCellCoord g (?pts ! j)) (vec_neg (shell_deref sh)))
            = getCellIndex g (cell_plus (getCellCoord g (?pts ! i)) (Vec3 0 0 0))"
      unfolding periodic_cells_def by blast
    then have cell: "?h (?pts ! i) = offset_cell g (m_query_point ?J) sh'"
      by (simp add: home_cell_unfold offset_cell_def s'(4) selJ)
    have nS: "?h (?pts ! i) \<notin> m_searched_cells (ball_insert g ?J)"
      using False by (simp add: ball_insert_def ball_init_def home_cell_def)
    have "\<exists>sh. shell_valid sh \<and> m_is2D sh = ?d
                      \<and> shell_rank (m_neigh_cell_iter (ball_insert g ?J)) < shell_rank sh
                      \<and> \<not> out_of_range lc ?J sh
                      \<and> ?h (?pts ! i) = offset_cell g (m_query_point ?J) sh"
      using s'(1) s'(2) d2 rk no' cell by auto
    with pJ i nS show ?thesis unfolding owed_def by blast
  qed
  from ball_drive_complete [OF ok g w dj ball_init_at [OF ok g]] ow
  have "ball_bond lc g ?J i \<in> set bsj" by blast
  moreover have "ball_bond lc g ?J i = NeighborBond3 j i d"
    by (simp add: ball_bond_def selJ d sym)
  ultimately show ?thesis using jn ne by simp
qed

lemma ortho_wrap1_even:
  assumes "l \<noteq> 0"
  shows "ortho_wrap1 l (- x) * ortho_wrap1 l (- x) = ortho_wrap1 l x * ortho_wrap1 l x"
proof -
  define y where "y = x / l + 1 / 2"
  define n where "n = \<lfloor>y\<rfloor>"
  have x: "x = l * (y - 1 / 2)" using assms by (simp add: y_def field_simps)
  have my: "- x / l + 1 / 2 = 1 - y" by (simp add: y_def)
  have "\<lfloor>- y + real_of_int 1\<rfloor> = \<lfloor>- y\<rfloor> + 1" by (rule floor_add_int [symmetric])
  moreover have "1 - y = - y + real_of_int 1" by simp
  ultimately have f1: "\<lfloor>1 - y\<rfloor> = 1 - \<lceil>y\<rceil>" by (simp only: ceiling_def)
  have wx: "ortho_wrap1 l x = x - l * real_of_int n"
    by (simp add: ortho_wrap1_def y_def n_def)
  have wm: "ortho_wrap1 l (- x) = - x - l * real_of_int (1 - \<lceil>y\<rceil>)"
    unfolding ortho_wrap1_def my f1 ..
  have wx2: "ortho_wrap1 l x = l * (y - 1 / 2) - l * real_of_int n"
    using wx x by simp
  have wm2: "ortho_wrap1 l (- x) = - (l * (y - 1 / 2)) - l * real_of_int (1 - \<lceil>y\<rceil>)"
    using wm x by simp
  show ?thesis
  proof (cases "y = real_of_int n")
    case True
    then have c: "\<lceil>y\<rceil> = n" by (metis ceiling_of_int)
    have "ortho_wrap1 l x = - l / 2" unfolding wx2 True by (simp add: algebra_simps)
    moreover have "ortho_wrap1 l (- x) = - l / 2"
      unfolding wm2 c True by (simp add: algebra_simps)
    ultimately show ?thesis by simp
  next
    case False
    then have c: "\<lceil>y\<rceil> = n + 1" unfolding n_def by (simp add: ceiling_altdef)
    have "ortho_wrap1 l (- x) = - ortho_wrap1 l x"
      unfolding wm2 wx2 c by (simp add: algebra_simps)
    then show ?thesis by simp
  qed
qed

lemma ex_even_wrap: "even_wrap ex_geometry"
proof -
  have m: "vec_minus b a = Vec3 (- vx (vec_minus a b)) (- vy (vec_minus a b)) (- vz (vec_minus a b))"
    for a b by (simp add: vec_minus_def)
  have l: "(20::real) \<noteq> 0" by simp
  show ?thesis
    unfolding even_wrap_def
    by (intro allI, subst (3 4) m)
       (simp add: ex_geometry_def ortho_geometry_def ex_box_def ortho_Box_def dot_def
         ortho_wrap1_even [OF l])
qed

lemma mod5_shift:
  fixes a b off :: int
  assumes "(a + off) mod 5 = b mod 5"
  shows "(b - off) mod 5 = a mod 5"
proof -
  have "(b - off) mod 5 = (b mod 5 - off) mod 5" by (simp add: mod_diff_left_eq)
  also have "\<dots> = ((a + off) mod 5 - off) mod 5" by (simp only: assms)
  also have "\<dots> = (a + off - off) mod 5" by (simp only: mod_diff_left_eq)
  finally show ?thesis by simp
qed

lemma base5_split:
  fixes a b c d :: nat
  assumes "a < 5" "b < 5" "c * 5 + a = d * 5 + b"
  shows "a = b \<and> c = d"
proof -
  from assms(3) have "(c * 5 + a) mod 5 = (d * 5 + b) mod 5" by simp
  with assms(1,2) have ab: "a = b" by simp
  with assms(3) have "c = d" by simp
  with ab show ?thesis by simp
qed

lemma nat_mod5_eq:
  fixes u v :: int
  assumes "nat (u mod 5) = nat (v mod 5)"
  shows "u mod 5 = v mod 5"
proof -
  have "0 \<le> u mod 5" "0 \<le> v mod 5" by simp_all
  with assms show ?thesis by (simp only: eq_nat_nat_iff)
qed

lemma ex_periodic_cells: "periodic_cells ex_geometry"
  unfolding periodic_cells_def
proof (intro allI impI)
  fix c c' :: "nat vec3" and off :: "int vec3"
  define x1 where "x1 = int (vx c) + vx off"
  define y1 where "y1 = int (vy c) + vy off"
  define x2 where "x2 = int (vx c')"
  define y2 where "y2 = int (vy c')"
  have ix: "getCellIndex ex_geometry (Vec3 x y z) = nat (y mod 5) * 5 + nat (x mod 5)" for x y z
    by (simp add: ex_geometry_def ortho_geometry_def)
  have cp1: "cell_plus c off = Vec3 x1 y1 (int (vz c) + vz off)"
    by (simp add: cell_plus_def x1_def y1_def)
  have cp2: "cell_plus c' (Vec3 0 0 0) = Vec3 x2 y2 (int (vz c'))"
    by (simp add: cell_plus_def x2_def y2_def)
  have cp3: "cell_plus c' (vec_neg off) = Vec3 (x2 - vx off) (y2 - vy off) (int (vz c') - vz off)"
    by (simp add: cell_plus_def vec_neg_def x2_def y2_def)
  have cp4: "cell_plus c (Vec3 0 0 0) = Vec3 (int (vx c)) (int (vy c)) (int (vz c))"
    by (simp add: cell_plus_def)
  assume "getCellIndex ex_geometry (cell_plus c off)
            = getCellIndex ex_geometry (cell_plus c' (Vec3 0 0 0))"
  then have e: "nat (y1 mod 5) * 5 + nat (x1 mod 5) = nat (y2 mod 5) * 5 + nat (x2 mod 5)"
    unfolding cp1 cp2 ix .
  have bnd: "nat (u mod 5) < 5" for u :: int
    using pos_mod_bound [of 5 u] by simp
  from base5_split [OF bnd bnd e] have nx: "nat (x1 mod 5) = nat (x2 mod 5)"
    and ny: "nat (y1 mod 5) = nat (y2 mod 5)" by simp_all
  from nx have x: "x1 mod 5 = x2 mod 5" by (rule nat_mod5_eq)
  from ny have y: "y1 mod 5 = y2 mod 5" by (rule nat_mod5_eq)
  from x have x': "(x2 - vx off) mod 5 = int (vx c) mod 5"
    unfolding x1_def by (rule mod5_shift)
  from y have y': "(y2 - vy off) mod 5 = int (vy c) mod 5"
    unfolding y1_def by (rule mod5_shift)
  show "getCellIndex ex_geometry (cell_plus c' (vec_neg off))
            = getCellIndex ex_geometry (cell_plus c (Vec3 0 0 0))"
    unfolding cp3 cp4 ix x' y' ..
qed

lemma ex_getCell_home:
  "\<forall>l p. m_box l = m_box ex_lc \<and> m_celldim l = m_celldim ex_lc
          \<longrightarrow> ortho_getCell l p = home_cell ex_geometry ex_lc p"
  by (simp add: ortho_getCell_def home_cell_unfold ex_geometry_def ex_lc_def Let_def)

text \<open>
  C2. On a cell list that the constructor has built with a positive cell width, putting
  every point in its home cell, with a cell index that is periodic and a wrap that is
  even, the ball queries of radius \<open>r_max\<close>
  from two points \<open>i\<close> and \<open>j\<close> of the set, driven to exhaustion with enough fuel, both end;
  to every bond that the query from \<open>i\<close> returns to \<open>j\<close> corresponds a bond that the query from
  \<open>j\<close> returns to \<open>i\<close>, with the same distance; and with self-exclusion set no bond joins a
  point to itself.
\<close>

theorem ball_symmetric:
  assumes new: "LinkCell_new npd getCell box w pts = Inr lc"
    and fits: "length pts + m_Nc lc \<le> LINK_CELL_TERMINATOR"
    and gc: "\<forall>l p. m_box l = m_box lc \<and> m_celldim l = m_celldim lc
                \<longrightarrow> getCell l p = home_cell g lc p"
    and g: "geometry_ok g lc" and w: "0 < w"
    and per: "periodic_cells g" and ev: "even_wrap g"
    and i: "i < length pts" and j: "j < length pts"
  shows "\<exists>F. \<forall>fuel \<ge> F. \<exists>n m bsi iti bsj itj.
      drive n (ball_next fuel lc g) (ball_init lc g (pts ! i) i r excl extra)
        = Some (Inr (bsi, iti))
      \<and> drive m (ball_next fuel lc g) (ball_init lc g (pts ! j) j r excl extra)
        = Some (Inr (bsj, itj))
      \<and> m_finished iti \<and> m_finished itj
      \<and> (\<forall>b \<in> set bsi. point_idx b = j \<longrightarrow>
            (\<exists>b' \<in> set bsj. query_point_idx b' = j \<and> point_idx b' = i
                             \<and> distance b' = distance b))
      \<and> (excl \<longrightarrow> (\<forall>b \<in> set bsi. point_idx b \<noteq> query_point_idx b))"
proof -
  from LinkCell_new_ok [OF new fits] have p: "m_points lc = pts" and cw: "m_cell_width lc = w"
    by blast+
  have "getCell (lc\<lparr>m_cell_list := []\<rparr>) = home_cell g lc"
    using gc by (simp add: fun_eq_iff)
  with LinkCell_new_cells [OF new fits] have ok: "cell_list_ok (home_cell g lc) lc" by simp
  have gw: "0 < getCellWidth lc" using w cw by (simp add: getCellWidth_def)
  then have gw0: "0 \<le> getCellWidth lc" by simp
  let ?I = "ball_init lc g (pts ! i) i r excl extra"
  let ?J = "ball_init lc g (pts ! j) j r excl extra"
  from ball_terminates [OF ok g gw, of "pts ! i" i r excl extra]
  obtain n F1 where t1: "\<forall>fuel \<ge> F1. \<exists>bs it'.
      drive n (ball_next fuel lc g) ?I = Some (Inr (bs, it')) \<and> m_finished it'"
    by blast
  from ball_terminates [OF ok g gw, of "pts ! j" j r excl extra]
  obtain m F2 where t2: "\<forall>fuel \<ge> F2. \<exists>bs it'.
      drive m (ball_next fuel lc g) ?J = Some (Inr (bs, it')) \<and> m_finished it'"
    by blast
  have "\<exists>n m bsi iti bsj itj.
      drive n (ball_next fuel lc g) ?I = Some (Inr (bsi, iti))
      \<and> drive m (ball_next fuel lc g) ?J = Some (Inr (bsj, itj))
      \<and> m_finished iti \<and> m_finished itj
      \<and> (\<forall>b \<in> set bsi. point_idx b = j \<longrightarrow>
            (\<exists>b' \<in> set bsj. query_point_idx b' = j \<and> point_idx b' = i
                             \<and> distance b' = distance b))
      \<and> (excl \<longrightarrow> (\<forall>b \<in> set bsi. point_idx b \<noteq> query_point_idx b))"
    if f: "max F1 F2 \<le> fuel" for fuel
  proof -
    from f t1 obtain bsi iti where di: "drive n (ball_next fuel lc g) ?I = Some (Inr (bsi, iti))"
      and fi: "m_finished iti" by (meson max.boundedE)
    from f t2 obtain bsj itj where dj: "drive m (ball_next fuel lc g) ?J = Some (Inr (bsj, itj))"
      and fj: "m_finished itj" by (meson max.boundedE)
    have ip: "i < length (m_points lc)" using i p by simp
    note di' = di [folded p] and dj' = dj [folded p]
    from ball_drive_accepted [OF di] have acc: "\<forall>b \<in> set bsi. accepted lc g ?I b" .
    have form: "\<exists>x d. b = NeighborBond3 i x d \<and> (excl \<longrightarrow> x \<noteq> i)" if "b \<in> set bsi" for b
    proof -
      from acc that have "accepted lc g ?I b" by blast
      then obtain x where "b = NeighborBond3 (m_query_point_idx ?I) x
            (sqrt (rsq_of lc g (m_query_point ?I) x))" "m_exclude_ii ?I \<longrightarrow> x \<noteq> m_query_point_idx ?I"
        unfolding accepted_def by blast
      then have "b = NeighborBond3 i x (sqrt (rsq_of lc g (pts ! i) x)) \<and> (excl \<longrightarrow> x \<noteq> i)"
        by (simp add: ball_init_def)
      then show ?thesis by blast
    qed
    have sym: "\<exists>b' \<in> set bsj. query_point_idx b' = j \<and> point_idx b' = i
                             \<and> distance b' = distance b"
      if b: "b \<in> set bsi" "point_idx b = j" for b
    proof -
      from form [OF b(1)] obtain x d where x: "b = NeighborBond3 i x d" by blast
      with b(2) have "x = j" by (simp add: NeighborBond3_def)
      with x b(1) have "NeighborBond3 i j d \<in> set bsi" by simp
      from ball_symmetric_bond [OF ok g gw0 per ev ip di' dj' this]
      have "NeighborBond3 j i d \<in> set bsj" by simp
      moreover have "query_point_idx (NeighborBond3 j i d) = j"
        "point_idx (NeighborBond3 j i d) = i" "distance (NeighborBond3 j i d) = distance b"
        by (simp_all add: NeighborBond3_def x)
      ultimately show ?thesis by blast
    qed
    have self: "excl \<longrightarrow> (\<forall>b \<in> set bsi. point_idx b \<noteq> query_point_idx b)"
    proof (intro impI ballI)
      fix b assume "excl" "b \<in> set bsi"
      with form [of b] obtain x d where "b = NeighborBond3 i x d" "x \<noteq> i" by blast
      then show "point_idx b \<noteq> query_point_idx b" by (simp add: NeighborBond3_def)
    qed
    from di dj fi fj sym self show ?thesis by blast
  qed
  then show ?thesis by blast
qed

theorem ball_symmetric_witness:
  "LinkCell_new ortho_npd ortho_getCell ex_box 4 ex_points = Inr ex_lc
   \<and> geometry_ok ex_geometry ex_lc \<and> periodic_cells ex_geometry \<and> even_wrap ex_geometry
   \<and> (\<exists>F. \<forall>fuel \<ge> F. \<exists>n m bsi iti bsj itj.
        drive n (ball_next fuel ex_lc ex_geometry)
          (ball_init ex_lc ex_geometry (ex_points ! 0) 0 6 True 1) = Some (Inr (bsi, iti))
        \<and> drive m (ball_next fuel ex_lc ex_geometry)
          (ball_init ex_lc ex_geometry (ex_points ! 1) 1 6 True 1) = Some (Inr (bsj, itj))
        \<and> m_finished iti \<and> m_finished itj
        \<and> (\<forall>b \<in> set bsi. point_idx b = 1 \<longrightarrow>
              (\<exists>b' \<in> set bsj. query_point_idx b' = 1 \<and> point_idx b' = 0
                               \<and> distance b' = distance b)))"
proof -
  have fits: "length ex_points + m_Nc ex_lc \<le> LINK_CELL_TERMINATOR"
    by (simp add: ex_points_def ex_lc_fields LINK_CELL_TERMINATOR_def)
  have w: "(0::real) < 4" by simp
  have i: "0 < length ex_points" and j: "1 < length ex_points" by (simp_all add: ex_points_def)
  from ball_symmetric [OF ex_lc_built fits ex_getCell_home ex_geometry_ok w ex_periodic_cells
      ex_even_wrap i j, of 6 True 1]
  obtain F where F: "\<forall>fuel \<ge> F. \<exists>n m bsi iti bsj itj.
        drive n (ball_next fuel ex_lc ex_geometry)
          (ball_init ex_lc ex_geometry (ex_points ! 0) 0 6 True 1) = Some (Inr (bsi, iti))
        \<and> drive m (ball_next fuel ex_lc ex_geometry)
          (ball_init ex_lc ex_geometry (ex_points ! 1) 1 6 True 1) = Some (Inr (bsj, itj))
        \<and> m_finished iti \<and> m_finished itj
        \<and> (\<forall>b \<in> set bsi. point_idx b = 1 \<longrightarrow>
              (\<exists>b' \<in> set bsj. query_point_idx b' = 1 \<and> point_idx b' = 0
                               \<and> distance b' = distance b))
        \<and> (True \<longrightarrow> (\<forall>b \<in> set bsi. point_idx b \<noteq> query_point_idx b))"
    by blast
  have "\<exists>n m bsi iti bsj itj.
        drive n (ball_next fuel ex_lc ex_geometry)
          (ball_init ex_lc ex_geometry (ex_points ! 0) 0 6 True 1) = Some (Inr (bsi, iti))
        \<and> drive m (ball_next fuel ex_lc ex_geometry)
          (ball_init ex_lc ex_geometry (ex_points ! 1) 1 6 True 1) = Some (Inr (bsj, itj))
        \<and> m_finished iti \<and> m_finished itj
        \<and> (\<forall>b \<in> set bsi. point_idx b = 1 \<longrightarrow>
              (\<exists>b' \<in> set bsj. query_point_idx b' = 1 \<and> point_idx b' = 0
                               \<and> distance b' = distance b))"
    if "F \<le> fuel" for fuel
    using F that by blast
  with ex_lc_built ex_geometry_ok ex_periodic_cells ex_even_wrap show ?thesis by blast
qed

end
